theory Spec2Isabelle
  imports Main
begin

section \<open>JavaScript values\<close>

text \<open>
  The store of \<^verbatim>\<open>packages/remesh/src/store.ts\<close> holds JavaScript values: state values,
  entity values, query results and the arguments of query actions. They are modelled by one
  datatype. \<open>JUndefined\<close> is the value of a missing argument and of a property that was
  never assigned; \<open>JNull\<close> is the \<^verbatim>\<open>null\<close> that marks an entity storage without
  value. Numbers are restricted to those that integers denote, strings to sequences of
  8-bit characters, and
  the members of an object are listed in the order in which JavaScript enumerates them
  (for keys that are not array indices: insertion order).
\<close>

datatype jsval =
    JUndefined
  | JNull
  | JBool bool
  | JNumber int
  | JString string
  | JArray "jsval list"
  | JObject "(string \<times> jsval) list"

text \<open>Everything the store throws is \<^verbatim>\<open>new Error(message)\<close>.\<close>

datatype error = Error string

section \<open>Template literals and \<^verbatim>\<open>JSON.stringify\<close>\<close>

text \<open>Decimal digits of a natural number, as a template literal prints an id.\<close>

fun digitsOf :: "nat \<Rightarrow> string" where
  "digitsOf n =
     (if n < 10 then [char_of (48 + n)]
      else digitsOf (n div 10) @ [char_of (48 + n mod 10)])"

declare digitsOf.simps [simp del]

text \<open>
  \<^verbatim>\<open>Number::toString\<close> for the number that an integer denotes. A JavaScript number is a
  double: an integer below \<open>2 ^ 53\<close> in magnitude is one, and prints with all its digits;
  any other integer denotes the nearest double (\<open>toDouble\<close>, ties to the even significand),
  which prints with the fewest significant digits that still denote it
  (\<open>shortestDecimal\<close>), in exponent form from \<open>10 ^ 21\<close> on. From \<open>2 ^ 1024\<close> on the double
  is \<^verbatim>\<open>Infinity\<close>, which \<^verbatim>\<open>JSON.stringify\<close> prints as \<^verbatim>\<open>null\<close>.
\<close>

fun bitLength :: "nat \<Rightarrow> nat" where
  "bitLength n = (if n = 0 then 0 else Suc (bitLength (n div 2)))"

declare bitLength.simps [simp del]

definition toDouble :: "nat \<Rightarrow> nat" where
  "toDouble j =
     (if bitLength j \<le> 53 then j
      else
        (let e = bitLength j - 53;
             q = j div 2 ^ e;
             r = j mod 2 ^ e;
             q' = (if 2 ^ e < 2 * r \<or> (2 * r = 2 ^ e \<and> odd q) then q + 1 else q)
         in q' * 2 ^ e))"

text \<open>
  The decimals with \<open>k\<close> significant digits next to \<open>x\<close>, those of them that denote the
  double \<open>x\<close>, the closer one first (of two equally close, the one with the even digits).
\<close>

definition decimalsNear :: "nat \<Rightarrow> nat \<Rightarrow> nat list" where
  "decimalsNear x k =
     (let m = length (digitsOf x) - k;
          lo = x div 10 ^ m;
          below = lo * 10 ^ m;
          above = (lo + 1) * 10 ^ m;
          ordered = (if x - below < above - x \<or> (x - below = above - x \<and> even lo)
                     then [below, above] else [above, below])
      in filter (\<lambda>v. toDouble v = x) ordered)"

definition shortestDecimal :: "nat \<Rightarrow> nat" where
  "shortestDecimal x =
     (case concat (map (decimalsNear x) [1 ..< 18]) of v # _ \<Rightarrow> v | [] \<Rightarrow> x)"

definition stripZeros :: "string \<Rightarrow> string" where
  "stripZeros ds = rev (dropWhile (\<lambda>c. c = CHR ''0'') (rev ds))"

definition doubleToString :: "nat \<Rightarrow> string" where
  "doubleToString x =
     (if 1024 < bitLength x then ''null''
      else
        (let ds = digitsOf (shortestDecimal x)
         in if length ds \<le> 21 then ds
            else (case stripZeros ds of
                    [] \<Rightarrow> ds
                  | d # rest \<Rightarrow>
                      (if rest = [] then [d] else d # CHR ''.'' # rest)
                      @ ''e+'' @ digitsOf (length ds - 1))))"

definition magnitudeToString :: "nat \<Rightarrow> string" where
  "magnitudeToString j = doubleToString (toDouble j)"

definition numberToString :: "int \<Rightarrow> string" where
  "numberToString i =
     (if \<bar>i\<bar> < 9007199254740992
      then (if i < 0 then CHR ''-'' # digitsOf (nat (- i)) else digitsOf (nat i))
      else (if magnitudeToString (nat \<bar>i\<bar>) = ''null'' then ''null''
            else if i < 0 then CHR ''-'' # magnitudeToString (nat \<bar>i\<bar>)
            else magnitudeToString (nat \<bar>i\<bar>)))"

definition hexDigit :: "nat \<Rightarrow> char" where
  "hexDigit n = (if n < 10 then char_of (48 + n) else char_of (87 + n))"

text \<open>
  \<^verbatim>\<open>QuoteJSONString\<close>: the two-character escapes, \<^verbatim>\<open>\u00XX\<close> for the other control
  characters, every other character unchanged. \<open>CHR 0x22\<close> is the double quote and
  \<open>CHR 0x5C\<close> the backslash.
\<close>

definition quoteChar :: "char \<Rightarrow> string" where
  "quoteChar c =
     (if c = CHR 0x08 then [CHR 0x5C, CHR ''b'']
      else if c = CHR 0x09 then [CHR 0x5C, CHR ''t'']
      else if c = CHR 0x0A then [CHR 0x5C, CHR ''n'']
      else if c = CHR 0x0C then [CHR 0x5C, CHR ''f'']
      else if c = CHR 0x0D then [CHR 0x5C, CHR ''r'']
      else if c = CHR 0x22 then [CHR 0x5C, CHR 0x22]
      else if c = CHR 0x5C then [CHR 0x5C, CHR 0x5C]
      else if (of_char c :: nat) < 32
        then [CHR 0x5C, CHR ''u'', CHR ''0'', CHR ''0'',
              hexDigit ((of_char c :: nat) div 16), hexDigit ((of_char c :: nat) mod 16)]
      else [c])"

definition quoteJSONString :: "string \<Rightarrow> string" where
  "quoteJSONString s = [CHR 0x22] @ concat (map quoteChar s) @ [CHR 0x22]"

fun joinComma :: "string list \<Rightarrow> string" where
  "joinComma [] = []"
| "joinComma [x] = x"
| "joinComma (x # y # ys) = x @ '','' @ joinComma (y # ys)"

text \<open>
  \<^verbatim>\<open>SerializeJSONProperty\<close> for a value that is not \<^verbatim>\<open>undefined\<close> at top level: an
  \<^verbatim>\<open>undefined\<close> array element prints as \<^verbatim>\<open>null\<close>, an object member whose value is
  \<^verbatim>\<open>undefined\<close> is left out, and the members are printed in enumeration order.
\<close>

fun serializeJSON :: "jsval \<Rightarrow> string"
  and elementStrings :: "jsval list \<Rightarrow> string list"
  and memberStrings :: "(string \<times> jsval) list \<Rightarrow> string list" where
  "serializeJSON JUndefined = ''null''"
| "serializeJSON JNull = ''null''"
| "serializeJSON (JBool b) = (if b then ''true'' else ''false'')"
| "serializeJSON (JNumber i) = numberToString i"
| "serializeJSON (JString s) = quoteJSONString s"
| "serializeJSON (JArray xs) = ''['' @ joinComma (elementStrings xs) @ '']''"
| "serializeJSON (JObject ms) = ''{'' @ joinComma (memberStrings ms) @ ''}''"
| "elementStrings [] = []"
| "elementStrings (x # xs) = serializeJSON x # elementStrings xs"
| "memberStrings [] = []"
| "memberStrings ((k, v) # ms) =
     (if v = JUndefined then memberStrings ms
      else (quoteJSONString k @ '':'' @ serializeJSON v) # memberStrings ms)"

text \<open>\<^verbatim>\<open>JSON.stringify(value)\<close>: \<^verbatim>\<open>undefined\<close> (here \<open>None\<close>) for \<^verbatim>\<open>undefined\<close>.\<close>

definition JSON_stringify :: "jsval \<Rightarrow> string option" where
  "JSON_stringify v = (if v = JUndefined then None else Some (serializeJSON v))"

section \<open>Declarations, items and actions\<close>

text \<open>
  A declaration object (\<^verbatim>\<open>RemeshState\<close>, \<^verbatim>\<open>RemeshEntity\<close>, \<^verbatim>\<open>RemeshQuery\<close>,
  \<^verbatim>\<open>RemeshCommand\<close>, \<^verbatim>\<open>RemeshEvent\<close>) is represented by its id and name; its functions
  (\<^verbatim>\<open>default\<close>, \<^verbatim>\<open>compare\<close>, \<^verbatim>\<open>impl\<close>) are looked up by id in the table of declarations
  below. Items and actions are JavaScript objects: the field ending in \<open>Obj\<close> is the
  identity of the object, which is what a \<^verbatim>\<open>WeakMap\<close> or a \<^verbatim>\<open>Set\<close> compares.
\<close>

record RemeshState =
  stateId :: nat
  stateName :: string

record RemeshEntity =
  entityId :: nat
  entityName :: string

record RemeshQuery =
  queryId :: nat
  queryName :: string

record RemeshCommand =
  commandId :: nat
  commandName :: string

record RemeshEvent =
  eventId :: nat
  eventName :: string

record RemeshStateItem =
  siObj :: nat
  siState :: RemeshState
  siKey :: "string option"

record RemeshEntityItem =
  eiObj :: nat
  eiEntity :: RemeshEntity
  eiKey :: "string option"

record RemeshQueryAction =
  qaObj :: nat
  qaQuery :: RemeshQuery
  qaArg :: jsval

section \<open>Identity and key resolution\<close>

text \<open>
  The key strings that \<^verbatim>\<open>getStateStorageKey\<close>, \<^verbatim>\<open>getEntityStorageKey\<close> and
  \<^verbatim>\<open>getQueryStorageKey\<close> build when the item is not in \<^verbatim>\<open>storageKeyWeakMap\<close>.
\<close>

definition nullish :: "string option \<Rightarrow> string" where
  "nullish x = (case x of None \<Rightarrow> [] | Some t \<Rightarrow> t)"

definition stateStorageKey :: "RemeshStateItem \<Rightarrow> string" where
  "stateStorageKey stateItem =
     ''State/'' @ digitsOf (stateId (siState stateItem)) @ ''/''
       @ stateName (siState stateItem) @ '':'' @ nullish (siKey stateItem)"

definition entityStorageKey :: "RemeshEntityItem \<Rightarrow> string" where
  "entityStorageKey entityItem =
     ''Entity/'' @ digitsOf (entityId (eiEntity entityItem)) @ ''/''
       @ entityName (eiEntity entityItem) @ '':'' @ nullish (eiKey entityItem)"

definition argString :: "jsval \<Rightarrow> string" where
  "argString arg = nullish (JSON_stringify arg)"

definition queryStorageKey :: "RemeshQueryAction \<Rightarrow> string" where
  "queryStorageKey queryAction =
     ''Query/'' @ digitsOf (queryId (qaQuery queryAction)) @ ''/''
       @ queryName (qaQuery queryAction) @ '':'' @ argString (qaArg queryAction)"

text \<open>
  The functions as the source has them, with \<^verbatim>\<open>storageKeyWeakMap\<close> threaded through. The
  test \<^verbatim>\<open>if (key)\<close> is a truthiness test: an empty string counts as absent.
\<close>

type_synonym storageKeyWeakMap = "nat \<rightharpoonup> string"

definition getStateStorageKey ::
  "storageKeyWeakMap \<Rightarrow> RemeshStateItem \<Rightarrow> string \<times> storageKeyWeakMap" where
  "getStateStorageKey cache stateItem =
     (let fresh = (stateStorageKey stateItem,
                   cache(siObj stateItem \<mapsto> stateStorageKey stateItem))
      in case cache (siObj stateItem) of
           Some key \<Rightarrow> if key \<noteq> [] then (key, cache) else fresh
         | None \<Rightarrow> fresh)"

definition getEntityStorageKey ::
  "storageKeyWeakMap \<Rightarrow> RemeshEntityItem \<Rightarrow> string \<times> storageKeyWeakMap" where
  "getEntityStorageKey cache entityItem =
     (let fresh = (entityStorageKey entityItem,
                   cache(eiObj entityItem \<mapsto> entityStorageKey entityItem))
      in case cache (eiObj entityItem) of
           Some key \<Rightarrow> if key \<noteq> [] then (key, cache) else fresh
         | None \<Rightarrow> fresh)"

definition getQueryStorageKey ::
  "storageKeyWeakMap \<Rightarrow> RemeshQueryAction \<Rightarrow> string \<times> storageKeyWeakMap" where
  "getQueryStorageKey cache queryAction =
     (let fresh = (queryStorageKey queryAction,
                   cache(qaObj queryAction \<mapsto> queryStorageKey queryAction))
      in case cache (qaObj queryAction) of
           Some key \<Rightarrow> if key \<noteq> [] then (key, cache) else fresh
         | None \<Rightarrow> fresh)"

text \<open>
  What the specification calls structurally equal arguments, for the case it names: two
  objects with the same key-value pairs, in whatever order they are listed.
\<close>

definition sameKeyValuePairs :: "jsval \<Rightarrow> jsval \<Rightarrow> bool" where
  "sameKeyValuePairs a b =
     (case (a, b) of (JObject ms, JObject ns) \<Rightarrow> set ms = set ns | _ \<Rightarrow> a = b)"


record RemeshCommandAction =
  caObj :: nat
  caCommand :: RemeshCommand
  caArg :: jsval

record RemeshEventAction =
  eaObj :: nat
  eaEvent :: RemeshEvent
  eaArg :: jsval

record RemeshEntityItemDeletePayload =
  dpObj :: nat
  dpEntityItem :: RemeshEntityItem

text \<open>
  \<^verbatim>\<open>RemeshCommandOutput\<close>, by the cases of \<^verbatim>\<open>handleCommandOutput\<close>: a falsy output, an
  array, or an object with one of five \<^verbatim>\<open>type\<close> tags.
\<close>

datatype commandOutput =
    NoOutput
  | OutputList "commandOutput list"
  | CommandActionOutput RemeshCommandAction
  | StateItemUpdatePayload RemeshStateItem jsval
  | EntityItemUpdatePayload RemeshEntityItem jsval
  | EntityItemDeletePayload RemeshEntityItemDeletePayload
  | EventActionOutput RemeshEventAction

section \<open>User code\<close>

text \<open>
  \<^verbatim>\<open>Query.impl\<close> and \<^verbatim>\<open>Command.impl\<close> are functions of the user. They reach the store only
  through the \<^verbatim>\<open>get\<close> of the context they are given, so such a function is the tree of its
  reads: it returns, throws, or calls \<^verbatim>\<open>get(input)\<close> and goes on with what the call gave
  back, a value or (when the function catches it) the error the call threw.
\<close>

datatype getInput =
    StateInput RemeshStateItem
  | EntityInput RemeshEntityItem
  | QueryInput RemeshQueryAction

datatype 'r prog =
    Done 'r
  | Raise error
  | Get getInput "error + jsval \<Rightarrow> 'r prog"

text \<open>A read whose error is not caught: the error leaves the function.\<close>

definition getThen :: "getInput \<Rightarrow> (jsval \<Rightarrow> 'r prog) \<Rightarrow> 'r prog" where
  "getThen input k = Get input (\<lambda>r. case r of Inl e \<Rightarrow> Raise e | Inr v \<Rightarrow> k v)"

text \<open>
  The functions of the declarations, by declaration id. \<open>stateDefault\<close> is the value that
  \<^verbatim>\<open>getStateValue\<close> returns (\<^verbatim>\<open>State.default\<close>, or the result of calling it when it is a
  function); the \<^verbatim>\<open>compare\<close> functions are total and return a boolean.
\<close>

record decls =
  stateDefault :: "nat \<Rightarrow> jsval"
  stateCompare :: "nat \<Rightarrow> jsval \<Rightarrow> jsval \<Rightarrow> bool"
  entityCompare :: "nat \<Rightarrow> jsval \<Rightarrow> jsval \<Rightarrow> bool"
  queryImpl :: "nat \<Rightarrow> jsval \<Rightarrow> jsval prog"
  queryCompare :: "nat \<Rightarrow> jsval \<Rightarrow> jsval \<Rightarrow> bool"
  commandImpl :: "nat \<Rightarrow> jsval \<Rightarrow> commandOutput prog"

section \<open>Storage model\<close>

text \<open>
  A storage is a JavaScript object; here it lives in a heap, at an address taken from the
  counter \<open>uid\<close> (the source numbers its storages with \<^verbatim>\<open>id: uid++\<close>). A \<^verbatim>\<open>Set\<close> is the
  list of its elements in insertion order, which is the order of iteration. The identity
  of the \<^verbatim>\<open>Set\<close> object held in \<^verbatim>\<open>upstreamSet\<close>, which the query contexts compare with
  \<^verbatim>\<open>!==\<close>, is \<open>upstreamSetId\<close>: the number of times a \<^verbatim>\<open>new Set()\<close> has replaced the first
  one of that storage.
\<close>

type_synonym addr = nat

datatype status = Default | Wip | Updated

datatype ref = StateRef addr | EntityRef addr | QueryRef addr

record RemeshStorage =
  key :: string
  downstreamSet :: "addr list"

record RemeshStateStorage = RemeshStorage +
  State :: RemeshState
  currentState :: jsval

record RemeshEntityStorage = RemeshStorage +
  Entity :: RemeshEntity
  currentEntity :: jsval

record RemeshQueryStorage = RemeshStorage +
  Query :: RemeshQuery
  arg :: jsval
  currentValue :: jsval
  upstreamSet :: "ref list"
  upstreamSetId :: nat
  refCount :: int
  status :: status
  wipUpstreamSet :: "ref list"

datatype emitItem =
    EmitQuery addr
  | EmitState addr
  | EmitEntity addr
  | EmitEvent RemeshEventAction
  | EmitCommand RemeshCommandAction
  | EmitDelete RemeshEntityItemDeletePayload

text \<open>What \<^verbatim>\<open>subject.next\<close> was called with, oldest first.\<close>

datatype notification =
    QueryNext addr jsval
  | StateNext addr jsval
  | EntityNext addr jsval
  | EventNext RemeshEventAction
  | CommandNext RemeshCommandAction

text \<open>
  The store. All declarations are owned by one domain whose storage is in
  \<^verbatim>\<open>domainStorageMap\<close> and has not been ignited: \<^verbatim>\<open>getDomainStorage(owner)\<close> finds it, its
  \<^verbatim>\<open>stateMap\<close>, \<^verbatim>\<open>entityMap\<close> and \<^verbatim>\<open>queryMap\<close> are the three maps below, and
  \<^verbatim>\<open>clearDomainStorage\<close> returns at \<^verbatim>\<open>if (!domainStorage.running) return\<close>. The store has
  no inspectors and no \<^verbatim>\<open>preloadedState\<close>. \<open>microtasks\<close> are the callbacks queued by
  \<^verbatim>\<open>Promise.resolve().then\<close> in \<^verbatim>\<open>commitOnNextTick\<close>, each one the \<^verbatim>\<open>tick\<close> it captured.
\<close>

record store =
  uid :: nat
  stateStorages :: "addr \<Rightarrow> RemeshStateStorage"
  entityStorages :: "addr \<Rightarrow> RemeshEntityStorage"
  queryStorages :: "addr \<Rightarrow> RemeshQueryStorage"
  stateMap :: "string \<rightharpoonup> addr"
  entityMap :: "string \<rightharpoonup> addr"
  queryMap :: "string \<rightharpoonup> addr"
  stateStorageWeakMap :: "nat \<rightharpoonup> addr"
  entityStorageWeakMap :: "nat \<rightharpoonup> addr"
  queryStorageWeakMap :: "nat \<rightharpoonup> addr"
  pendingEmitSet :: "emitItem list"
  pendingLeafSet :: "addr list"
  pendingClearSet :: "addr list"
  currentTick :: nat
  microtasks :: "nat list"
  emitted :: "notification list"

text \<open>
  The outcome of a call: it returns a value, or throws, and in both cases leaves the store
  as it has mutated it; \<open>OutOfFuel\<close> is a call that has not returned within the given
  number of nested calls.
\<close>

datatype 'a result = Ok 'a store | Err error store | OutOfFuel

definition andThen :: "'a result \<Rightarrow> ('a \<Rightarrow> store \<Rightarrow> 'b result) \<Rightarrow> 'b result" where
  "andThen r f = (case r of Ok a s \<Rightarrow> f a s | Err e s \<Rightarrow> Err e s | OutOfFuel \<Rightarrow> OutOfFuel)"

text \<open>Running user code against a \<^verbatim>\<open>get\<close>.\<close>

primrec runProg :: "(getInput \<Rightarrow> store \<Rightarrow> jsval result) \<Rightarrow> 'r prog \<Rightarrow> store \<Rightarrow> 'r result" where
  "runProg get (Done r) s = Ok r s"
| "runProg get (Raise e) s = Err e s"
| "runProg get (Get input k) s =
     (case get input s of
        Ok v s' \<Rightarrow> runProg get (k (Inr v)) s'
      | Err e s' \<Rightarrow> runProg get (k (Inl e)) s'
      | OutOfFuel \<Rightarrow> OutOfFuel)"

text \<open>\<^verbatim>\<open>Set.prototype.add\<close> and \<^verbatim>\<open>Set.prototype.delete\<close>.\<close>

definition setAdd :: "'a \<Rightarrow> 'a list \<Rightarrow> 'a list" where
  "setAdd x xs = (if x \<in> set xs then xs else xs @ [x])"

definition setDelete :: "'a \<Rightarrow> 'a list \<Rightarrow> 'a list" where
  "setDelete x xs = removeAll x xs"

definition updState :: "addr \<Rightarrow> (RemeshStateStorage \<Rightarrow> RemeshStateStorage) \<Rightarrow> store \<Rightarrow> store" where
  "updState a f s = s\<lparr>stateStorages := (stateStorages s)(a := f (stateStorages s a))\<rparr>"

definition updEntity :: "addr \<Rightarrow> (RemeshEntityStorage \<Rightarrow> RemeshEntityStorage) \<Rightarrow> store \<Rightarrow> store" where
  "updEntity a f s = s\<lparr>entityStorages := (entityStorages s)(a := f (entityStorages s a))\<rparr>"

definition updQuery :: "addr \<Rightarrow> (RemeshQueryStorage \<Rightarrow> RemeshQueryStorage) \<Rightarrow> store \<Rightarrow> store" where
  "updQuery a f s = s\<lparr>queryStorages := (queryStorages s)(a := f (queryStorages s a))\<rparr>"

text \<open>\<^verbatim>\<open>upstream.downstreamSet\<close>, for an upstream of any of the three kinds.\<close>

definition downstreamOf :: "store \<Rightarrow> ref \<Rightarrow> addr list" where
  "downstreamOf s r =
     (case r of
        StateRef a \<Rightarrow> downstreamSet (stateStorages s a)
      | EntityRef a \<Rightarrow> downstreamSet (entityStorages s a)
      | QueryRef a \<Rightarrow> downstreamSet (queryStorages s a))"

definition setDownstream :: "ref \<Rightarrow> addr list \<Rightarrow> store \<Rightarrow> store" where
  "setDownstream r d s =
     (case r of
        StateRef a \<Rightarrow> updState a (\<lambda>st. st\<lparr>downstreamSet := d\<rparr>) s
      | EntityRef a \<Rightarrow> updEntity a (\<lambda>st. st\<lparr>downstreamSet := d\<rparr>) s
      | QueryRef a \<Rightarrow> updQuery a (\<lambda>st. st\<lparr>downstreamSet := d\<rparr>) s)"

section \<open>State and entity storages\<close>

definition createStateStorage :: "decls \<Rightarrow> RemeshStateItem \<Rightarrow> store \<Rightarrow> addr \<times> store" where
  "createStateStorage D stateItem s =
     (let k = stateStorageKey stateItem;
          a = uid s;
          stateStorage = \<lparr>key = k, downstreamSet = [], State = siState stateItem,
            currentState = stateDefault D (stateId (siState stateItem))\<rparr>
      in (a, s\<lparr>uid := Suc a,
               stateStorages := (stateStorages s)(a := stateStorage),
               stateMap := (stateMap s)(k \<mapsto> a),
               stateStorageWeakMap := (stateStorageWeakMap s)(siObj stateItem \<mapsto> a)\<rparr>))"

definition restoreStateStorage :: "decls \<Rightarrow> addr \<Rightarrow> store \<Rightarrow> store" where
  "restoreStateStorage D a s =
     (let stateStorage = stateStorages s a
      in if stateMap s (key stateStorage) \<noteq> None then s
         else (updState a (\<lambda>st. st\<lparr>currentState := stateDefault D (stateId (State st))\<rparr>) s)
                \<lparr>stateMap := (stateMap s)(key stateStorage \<mapsto> a)\<rparr>)"

definition getStateStorage :: "decls \<Rightarrow> RemeshStateItem \<Rightarrow> store \<Rightarrow> addr \<times> store" where
  "getStateStorage D stateItem s =
     (case stateMap s (stateStorageKey stateItem) of
        Some a \<Rightarrow> (a, s)
      | None \<Rightarrow>
          (case stateStorageWeakMap s (siObj stateItem) of
             Some cachedStorage \<Rightarrow> (cachedStorage, restoreStateStorage D cachedStorage s)
           | None \<Rightarrow> createStateStorage D stateItem s))"

definition createEntityStorage :: "RemeshEntityItem \<Rightarrow> store \<Rightarrow> addr \<times> store" where
  "createEntityStorage entityItem s =
     (let k = entityStorageKey entityItem;
          a = uid s;
          newEntityStorage = \<lparr>key = k, downstreamSet = [], Entity = eiEntity entityItem,
            currentEntity = JNull\<rparr>
      in (a, s\<lparr>uid := Suc a,
               entityStorages := (entityStorages s)(a := newEntityStorage),
               entityMap := (entityMap s)(k \<mapsto> a),
               entityStorageWeakMap := (entityStorageWeakMap s)(eiObj entityItem \<mapsto> a)\<rparr>))"

definition restoreEntityStorage :: "addr \<Rightarrow> store \<Rightarrow> store" where
  "restoreEntityStorage a s =
     (let entityStorage = entityStorages s a
      in if entityMap s (key entityStorage) \<noteq> None then s
         else (updEntity a (\<lambda>st. st\<lparr>currentEntity := JNull\<rparr>) s)
                \<lparr>entityMap := (entityMap s)(key entityStorage \<mapsto> a)\<rparr>)"

definition getEntityStorage :: "RemeshEntityItem \<Rightarrow> store \<Rightarrow> addr \<times> store" where
  "getEntityStorage entityItem s =
     (case entityMap s (entityStorageKey entityItem) of
        Some a \<Rightarrow> (a, s)
      | None \<Rightarrow>
          (case entityStorageWeakMap s (eiObj entityItem) of
             Some cachedStorage \<Rightarrow> (cachedStorage, restoreEntityStorage cachedStorage s)
           | None \<Rightarrow> createEntityStorage entityItem s))"

definition getCurrentState :: "decls \<Rightarrow> RemeshStateItem \<Rightarrow> store \<Rightarrow> jsval result" where
  "getCurrentState D stateItem s =
     (case getStateStorage D stateItem s of
        (a, s') \<Rightarrow> Ok (currentState (stateStorages s' a)) s')"

definition getCurrentEntity :: "RemeshEntityItem \<Rightarrow> store \<Rightarrow> jsval result" where
  "getCurrentEntity entityItem s =
     (case getEntityStorage entityItem s of
        (a, s') \<Rightarrow>
          if currentEntity (entityStorages s' a) = JNull
          then Err (Error (''The '' @ key (entityStorages s' a) @ '' of ''
                 @ entityName (eiEntity entityItem) @ '' is not created yet.'')) s'
          else Ok (currentEntity (entityStorages s' a)) s')"

section \<open>Query storages\<close>

definition addEdge :: "addr \<Rightarrow> ref \<Rightarrow> store \<Rightarrow> store" where
  "addEdge q upstream s =
     (let s1 = updQuery q (\<lambda>st. st\<lparr>upstreamSet := setAdd upstream (upstreamSet st)\<rparr>) s
      in setDownstream upstream (setAdd q (downstreamOf s1 upstream)) s1)"

definition detachUpstream :: "addr \<Rightarrow> ref \<Rightarrow> store \<Rightarrow> store" where
  "detachUpstream q upstream s =
     (let s1 = setDownstream upstream (setDelete q (downstreamOf s upstream)) s
      in if downstreamOf s1 upstream = []
         then (case upstream of
                 QueryRef u \<Rightarrow> s1\<lparr>pendingClearSet := setAdd u (pendingClearSet s1)\<rparr>
               | _ \<Rightarrow> s1)
         else s1)"

text \<open>
  The three \<^verbatim>\<open>get\<close> functions that user code can be given: the \<^verbatim>\<open>queryContext.get\<close>
  closure of \<^verbatim>\<open>createQueryStorage\<close> and the one of \<^verbatim>\<open>updateQueryStorage\<close>, each with the
  query storage and the \<^verbatim>\<open>upstreamSet\<close> object it captured, and
  \<^verbatim>\<open>remeshInjectedContext.get\<close>.
\<close>

datatype getContext = CreateQueryContext addr nat | UpdateQueryContext addr nat | InjectedContext


text \<open>
  The functions below call one another. Each is written with the functions it calls as a
  parameter \<open>c\<close>; \<open>callsAt\<close> then ties the knot by recursion on the number of nested
  calls allowed, and the equations of the functions themselves are derived from it.
\<close>

record calls =
  getQueryStorage_call :: "RemeshQueryAction \<Rightarrow> store \<Rightarrow> addr result"
  createQueryStorage_call :: "RemeshQueryAction \<Rightarrow> store \<Rightarrow> addr result"
  restoreQueryStorage_call :: "addr \<Rightarrow> store \<Rightarrow> unit result"
  getCurrentQueryValue_call :: "RemeshQueryAction \<Rightarrow> store \<Rightarrow> jsval result"
  injectedGet_call :: "getInput \<Rightarrow> store \<Rightarrow> jsval result"
  contextGet_call :: "getContext \<Rightarrow> getInput \<Rightarrow> store \<Rightarrow> jsval result"
  updateWipQueryStorage_call :: "addr \<Rightarrow> store \<Rightarrow> unit result"
  updateWipUpstreams_call :: "addr \<Rightarrow> nat \<Rightarrow> bool \<Rightarrow> store \<Rightarrow> bool result"
  updateQueryStorage_call :: "addr \<Rightarrow> store \<Rightarrow> bool result"

definition getQueryStorage_body ::
  "calls \<Rightarrow> RemeshQueryAction \<Rightarrow> store \<Rightarrow> addr result" where
  "getQueryStorage_body c queryAction s =
     (case queryMap s (queryStorageKey queryAction) of
        Some queryStorage \<Rightarrow> Ok queryStorage s
      | None \<Rightarrow>
          (case queryStorageWeakMap s (qaObj queryAction) of
             Some cachedStorage \<Rightarrow>
               andThen (restoreQueryStorage_call c cachedStorage s) (\<lambda>_ s'. Ok cachedStorage s')
           | None \<Rightarrow> createQueryStorage_call c queryAction s))"

definition newQueryStorage :: "RemeshQueryAction \<Rightarrow> RemeshQueryStorage" where
  "newQueryStorage queryAction =
     \<lparr>key = queryStorageKey queryAction, downstreamSet = [], Query = qaQuery queryAction,
      arg = qaArg queryAction, currentValue = JUndefined, upstreamSet = [],
      upstreamSetId = 0, refCount = 0, status = Default, wipUpstreamSet = []\<rparr>"

definition createQueryStorage_body ::
  "calls \<Rightarrow> decls \<Rightarrow> RemeshQueryAction \<Rightarrow> store \<Rightarrow> addr result" where
  "createQueryStorage_body c D queryAction s =
     (let q = uid s;
          s1 = s\<lparr>uid := Suc q,
                 queryStorages := (queryStorages s)(q := newQueryStorage queryAction)\<rparr>
      in andThen (runProg (contextGet_call c (CreateQueryContext q 0))
                    (queryImpl D (queryId (qaQuery queryAction)) (qaArg queryAction)) s1)
           (\<lambda>v s2. Ok q ((updQuery q (\<lambda>st. st\<lparr>currentValue := v\<rparr>) s2)
                           \<lparr>queryMap := (queryMap s2)(queryStorageKey queryAction \<mapsto> q),
                            queryStorageWeakMap :=
                              (queryStorageWeakMap s2)(qaObj queryAction \<mapsto> q)\<rparr>)))"

primrec restoreUpstreams ::
  "(addr \<Rightarrow> store \<Rightarrow> unit result) \<Rightarrow> decls \<Rightarrow> addr \<Rightarrow> ref list \<Rightarrow> store \<Rightarrow> unit result" where
  "restoreUpstreams restoreQuery D q [] s = Ok () s"
| "restoreUpstreams restoreQuery D q (upstream # rest) s =
     (let s1 = setDownstream upstream (setAdd q (downstreamOf s upstream)) s
      in case upstream of
           QueryRef u \<Rightarrow>
             andThen (restoreQuery u s1) (\<lambda>_ s2. restoreUpstreams restoreQuery D q rest s2)
         | StateRef u \<Rightarrow> restoreUpstreams restoreQuery D q rest (restoreStateStorage D u s1)
         | EntityRef u \<Rightarrow> Err (Error ''Unknown upstream: [object Object]'') s1)"

definition restoreQueryStorage_body :: "calls \<Rightarrow> decls \<Rightarrow> addr \<Rightarrow> store \<Rightarrow> unit result" where
  "restoreQueryStorage_body c D q s =
     (if queryMap s (key (queryStorages s q)) \<noteq> None then Ok () s
      else
        (let s1 = (updQuery q (\<lambda>st. st\<lparr>status := Default\<rparr>) s)
                    \<lparr>queryMap := (queryMap s)(key (queryStorages s q) \<mapsto> q)\<rparr>
         in andThen (restoreUpstreams (restoreQueryStorage_call c) D q
                       (upstreamSet (queryStorages s1 q)) s1)
              (\<lambda>_ s2. andThen (updateQueryStorage_call c q s2) (\<lambda>_ s3. Ok () s3))))"

definition getCurrentQueryValue_body ::
  "calls \<Rightarrow> RemeshQueryAction \<Rightarrow> store \<Rightarrow> jsval result" where
  "getCurrentQueryValue_body c queryAction s =
     andThen (getQueryStorage_call c queryAction s)
       (\<lambda>q s1. andThen (updateWipQueryStorage_call c q s1)
          (\<lambda>_ s2. Ok (currentValue (queryStorages s2 q)) s2))"

definition injectedGet_body :: "calls \<Rightarrow> decls \<Rightarrow> getInput \<Rightarrow> store \<Rightarrow> jsval result" where
  "injectedGet_body c D input s =
     (case input of
        StateInput stateItem \<Rightarrow> getCurrentState D stateItem s
      | QueryInput queryAction \<Rightarrow> getCurrentQueryValue_call c queryAction s
      | EntityInput entityItem \<Rightarrow> getCurrentEntity entityItem s)"

definition createQueryContext_get ::
  "calls \<Rightarrow> decls \<Rightarrow> addr \<Rightarrow> nat \<Rightarrow> getInput \<Rightarrow> store \<Rightarrow> jsval result" where
  "createQueryContext_get c D q sid input s =
     (if upstreamSetId (queryStorages s q) \<noteq> sid then injectedGet_call c input s
      else
        (case input of
           StateInput stateItem \<Rightarrow>
             (case getStateStorage D stateItem s of
                (u, s1) \<Rightarrow> injectedGet_call c input (addEdge q (StateRef u) s1))
         | QueryInput queryAction \<Rightarrow>
             andThen (getQueryStorage_call c queryAction s)
               (\<lambda>u s1. injectedGet_call c input (addEdge q (QueryRef u) s1))
         | EntityInput entityItem \<Rightarrow> injectedGet_call c input s))"

definition updateQueryContext_get ::
  "calls \<Rightarrow> decls \<Rightarrow> addr \<Rightarrow> nat \<Rightarrow> getInput \<Rightarrow> store \<Rightarrow> jsval result" where
  "updateQueryContext_get c D q sid input s =
     (if upstreamSetId (queryStorages s q) \<noteq> sid then injectedGet_call c input s
      else
        (case input of
           StateInput stateItem \<Rightarrow>
             (case getStateStorage D stateItem s of
                (u, s1) \<Rightarrow> injectedGet_call c input (addEdge q (StateRef u) s1))
         | EntityInput entityItem \<Rightarrow>
             (case getEntityStorage entityItem s of
                (u, s1) \<Rightarrow> injectedGet_call c input (addEdge q (EntityRef u) s1))
         | QueryInput queryAction \<Rightarrow>
             andThen (getQueryStorage_call c queryAction s)
               (\<lambda>u s1. injectedGet_call c input (addEdge q (QueryRef u) s1))))"

definition contextGet_body ::
  "calls \<Rightarrow> decls \<Rightarrow> getContext \<Rightarrow> getInput \<Rightarrow> store \<Rightarrow> jsval result" where
  "contextGet_body c D ctx input s =
     (case ctx of
        InjectedContext \<Rightarrow> injectedGet_call c input s
      | CreateQueryContext q sid \<Rightarrow> createQueryContext_get c D q sid input s
      | UpdateQueryContext q sid \<Rightarrow> updateQueryContext_get c D q sid input s)"

definition updateWipQueryStorage_body :: "calls \<Rightarrow> addr \<Rightarrow> store \<Rightarrow> unit result" where
  "updateWipQueryStorage_body c q s =
     (if status (queryStorages s q) \<noteq> Wip then Ok () s
      else
        andThen
          (if wipUpstreamSet (queryStorages s q) \<noteq> []
           then andThen (updateWipUpstreams_call c q 0 False s)
                  (\<lambda>shouldUpdate s1.
                     Ok shouldUpdate (updQuery q (\<lambda>st. st\<lparr>wipUpstreamSet := []\<rparr>) s1))
           else Ok True s)
          (\<lambda>shouldUpdate s2.
             if \<not> shouldUpdate then Ok () (updQuery q (\<lambda>st. st\<lparr>status := Default\<rparr>) s2)
             else andThen (updateQueryStorage_call c q s2)
                    (\<lambda>isUpdated s3.
                       Ok () (updQuery q
                         (\<lambda>st. st\<lparr>status := (if isUpdated then Updated else Default)\<rparr>) s3))))"

text \<open>
  The loop of \<^verbatim>\<open>updateWipQueryStorage\<close> over \<^verbatim>\<open>queryStorage.wipUpstreamSet\<close>, a set that can
  change while it is iterated: the loop is at position \<open>i\<close> of the set as it is now, with
  the flag \<^verbatim>\<open>shouldUpdate\<close> as it is so far. (The position is kept when the set is cleared
  and filled again during its own iteration.)
\<close>

definition updateWipUpstreams_body ::
  "calls \<Rightarrow> addr \<Rightarrow> nat \<Rightarrow> bool \<Rightarrow> store \<Rightarrow> bool result" where
  "updateWipUpstreams_body c q i shouldUpdate s =
     (if i < length (wipUpstreamSet (queryStorages s q))
      then
        (case wipUpstreamSet (queryStorages s q) ! i of
           StateRef u \<Rightarrow> updateWipUpstreams_call c q (Suc i) True s
         | QueryRef u \<Rightarrow>
             andThen
               (if status (queryStorages s u) = Wip then updateWipQueryStorage_call c u s
                else Ok () s)
               (\<lambda>_ s1. updateWipUpstreams_call c q (Suc i)
                  (shouldUpdate \<or> status (queryStorages s1 u) = Updated) s1)
         | EntityRef u \<Rightarrow> updateWipUpstreams_call c q (Suc i) shouldUpdate s)
      else Ok shouldUpdate s)"

definition updateQueryStorage_body :: "calls \<Rightarrow> decls \<Rightarrow> addr \<Rightarrow> store \<Rightarrow> bool result" where
  "updateQueryStorage_body c D q s =
     (let s1 = fold (detachUpstream q) (upstreamSet (queryStorages s q)) s;
          sid = Suc (upstreamSetId (queryStorages s1 q));
          s2 = updQuery q (\<lambda>st. st\<lparr>upstreamSet := [], upstreamSetId := sid\<rparr>) s1
      in andThen (runProg (contextGet_call c (UpdateQueryContext q sid))
                    (queryImpl D (queryId (Query (queryStorages s q))) (arg (queryStorages s q))) s2)
           (\<lambda>newValue s3.
              if queryCompare D (queryId (Query (queryStorages s q)))
                   (currentValue (queryStorages s3 q)) newValue
              then Ok False s3
              else Ok True ((updQuery q (\<lambda>st. st\<lparr>currentValue := newValue\<rparr>) s3)
                     \<lparr>pendingEmitSet := setAdd (EmitQuery q) (pendingEmitSet s3)\<rparr>)))"

primrec callsAt :: "nat \<Rightarrow> decls \<Rightarrow> calls" where
  "callsAt 0 D =
     \<lparr>getQueryStorage_call = (\<lambda>_ _. OutOfFuel),
      createQueryStorage_call = (\<lambda>_ _. OutOfFuel),
      restoreQueryStorage_call = (\<lambda>_ _. OutOfFuel),
      getCurrentQueryValue_call = (\<lambda>_ _. OutOfFuel),
      injectedGet_call = (\<lambda>_ _. OutOfFuel),
      contextGet_call = (\<lambda>_ _ _. OutOfFuel),
      updateWipQueryStorage_call = (\<lambda>_ _. OutOfFuel),
      updateWipUpstreams_call = (\<lambda>_ _ _ _. OutOfFuel),
      updateQueryStorage_call = (\<lambda>_ _. OutOfFuel)\<rparr>"
| "callsAt (Suc n) D =
     (let c = callsAt n D
      in \<lparr>getQueryStorage_call = getQueryStorage_body c,
          createQueryStorage_call = createQueryStorage_body c D,
          restoreQueryStorage_call = restoreQueryStorage_body c D,
          getCurrentQueryValue_call = getCurrentQueryValue_body c,
          injectedGet_call = injectedGet_body c D,
          contextGet_call = contextGet_body c D,
          updateWipQueryStorage_call = updateWipQueryStorage_body c,
          updateWipUpstreams_call = updateWipUpstreams_body c,
          updateQueryStorage_call = updateQueryStorage_body c D\<rparr>)"

definition getQueryStorage :: "nat \<Rightarrow> decls \<Rightarrow> RemeshQueryAction \<Rightarrow> store \<Rightarrow> addr result" where
  "getQueryStorage n D = getQueryStorage_call (callsAt n D)"

definition createQueryStorage :: "nat \<Rightarrow> decls \<Rightarrow> RemeshQueryAction \<Rightarrow> store \<Rightarrow> addr result" where
  "createQueryStorage n D = createQueryStorage_call (callsAt n D)"

definition restoreQueryStorage :: "nat \<Rightarrow> decls \<Rightarrow> addr \<Rightarrow> store \<Rightarrow> unit result" where
  "restoreQueryStorage n D = restoreQueryStorage_call (callsAt n D)"

definition getCurrentQueryValue :: "nat \<Rightarrow> decls \<Rightarrow> RemeshQueryAction \<Rightarrow> store \<Rightarrow> jsval result" where
  "getCurrentQueryValue n D = getCurrentQueryValue_call (callsAt n D)"

definition injectedGet :: "nat \<Rightarrow> decls \<Rightarrow> getInput \<Rightarrow> store \<Rightarrow> jsval result" where
  "injectedGet n D = injectedGet_call (callsAt n D)"

definition contextGet :: "nat \<Rightarrow> decls \<Rightarrow> getContext \<Rightarrow> getInput \<Rightarrow> store \<Rightarrow> jsval result" where
  "contextGet n D = contextGet_call (callsAt n D)"

definition updateWipQueryStorage :: "nat \<Rightarrow> decls \<Rightarrow> addr \<Rightarrow> store \<Rightarrow> unit result" where
  "updateWipQueryStorage n D = updateWipQueryStorage_call (callsAt n D)"

definition updateWipUpstreams ::
  "nat \<Rightarrow> decls \<Rightarrow> addr \<Rightarrow> nat \<Rightarrow> bool \<Rightarrow> store \<Rightarrow> bool result" where
  "updateWipUpstreams n D = updateWipUpstreams_call (callsAt n D)"

definition updateQueryStorage :: "nat \<Rightarrow> decls \<Rightarrow> addr \<Rightarrow> store \<Rightarrow> bool result" where
  "updateQueryStorage n D = updateQueryStorage_call (callsAt n D)"


section \<open>Marking\<close>

primrec markDownstreams ::
  "(addr \<Rightarrow> store \<Rightarrow> unit result) \<Rightarrow> addr \<Rightarrow> addr list \<Rightarrow> store \<Rightarrow> unit result" where
  "markDownstreams mk q [] s = Ok () s"
| "markDownstreams mk q (downstream # rest) s =
     (if QueryRef q \<notin> set (wipUpstreamSet (queryStorages s downstream))
      then andThen
             (mk downstream
                (updQuery downstream
                   (\<lambda>st. st\<lparr>wipUpstreamSet := setAdd (QueryRef q) (wipUpstreamSet st)\<rparr>) s))
             (\<lambda>_ s1. markDownstreams mk q rest s1)
      else markDownstreams mk q rest s)"

primrec mark :: "nat \<Rightarrow> addr \<Rightarrow> store \<Rightarrow> unit result" where
  "mark 0 q s = OutOfFuel"
| "mark (Suc n) q s =
     (let s1 = updQuery q (\<lambda>st. st\<lparr>status := Wip\<rparr>) s
      in if downstreamSet (queryStorages s1 q) \<noteq> []
         then markDownstreams (mark n) q (downstreamSet (queryStorages s1 q)) s1
         else Ok () (s1\<lparr>pendingLeafSet := setAdd q (pendingLeafSet s1)\<rparr>))"

text \<open>
  The loop of \<^verbatim>\<open>updateStateItem\<close> and \<^verbatim>\<open>updateEntityItem\<close>:
  \<^verbatim>\<open>downstream.wipUpstreamSet.add(storage); mark(downstream)\<close>.
\<close>

primrec markFrom :: "nat \<Rightarrow> ref \<Rightarrow> addr list \<Rightarrow> store \<Rightarrow> unit result" where
  "markFrom n upstream [] s = Ok () s"
| "markFrom n upstream (downstream # rest) s =
     andThen
       (mark n downstream
          (updQuery downstream
             (\<lambda>st. st\<lparr>wipUpstreamSet := setAdd upstream (wipUpstreamSet st)\<rparr>) s))
       (\<lambda>_ s1. markFrom n upstream rest s1)"

text \<open>The loop of \<^verbatim>\<open>deleteEntityItem\<close> and \<^verbatim>\<open>clearEntityStorage\<close>: \<^verbatim>\<open>mark(downstream)\<close>.\<close>

primrec markEach :: "nat \<Rightarrow> addr list \<Rightarrow> store \<Rightarrow> unit result" where
  "markEach n [] s = Ok () s"
| "markEach n (downstream # rest) s =
     andThen (mark n downstream s) (\<lambda>_ s1. markEach n rest s1)"

section \<open>Dispatch\<close>

definition updateStateItem ::
  "nat \<Rightarrow> decls \<Rightarrow> RemeshStateItem \<Rightarrow> jsval \<Rightarrow> store \<Rightarrow> unit result" where
  "updateStateItem n D stateItem newState s =
     (case getStateStorage D stateItem s of
        (a, s1) \<Rightarrow>
          if stateCompare D (stateId (siState stateItem)) (currentState (stateStorages s1 a)) newState
          then Ok () s1
          else
            (let s2 = (updState a (\<lambda>st. st\<lparr>currentState := newState\<rparr>) s1)
                        \<lparr>pendingEmitSet := setAdd (EmitState a) (pendingEmitSet s1)\<rparr>
             in markFrom n (StateRef a) (downstreamSet (stateStorages s2 a)) s2))"

definition updateEntityItem ::
  "nat \<Rightarrow> decls \<Rightarrow> RemeshEntityItem \<Rightarrow> jsval \<Rightarrow> store \<Rightarrow> unit result" where
  "updateEntityItem n D entityItem newEntity s =
     (case getEntityStorage entityItem s of
        (a, s1) \<Rightarrow>
          if currentEntity (entityStorages s1 a) = JNull
          then Ok () (updEntity a (\<lambda>st. st\<lparr>currentEntity := newEntity\<rparr>) s1)
          else if entityCompare D (entityId (eiEntity entityItem))
                    (currentEntity (entityStorages s1 a)) newEntity
          then Ok () s1
          else
            (let s2 = (updEntity a (\<lambda>st. st\<lparr>currentEntity := newEntity\<rparr>) s1)
                        \<lparr>pendingEmitSet := setAdd (EmitEntity a) (pendingEmitSet s1)\<rparr>
             in markFrom n (EntityRef a) (downstreamSet (entityStorages s2 a)) s2))"

definition deleteEntityItem ::
  "nat \<Rightarrow> RemeshEntityItemDeletePayload \<Rightarrow> store \<Rightarrow> unit result" where
  "deleteEntityItem n entityItemDeletePayload s =
     (case getEntityStorage (dpEntityItem entityItemDeletePayload) s of
        (a, s1) \<Rightarrow>
          (let s2 = updEntity a (\<lambda>st. st\<lparr>currentEntity := JNull\<rparr>) s1
           in andThen (markEach n (downstreamSet (entityStorages s2 a)) s2)
                (\<lambda>_ s3. Ok ()
                   ((updEntity a (\<lambda>st. st\<lparr>downstreamSet := []\<rparr>) s3)
                      \<lparr>pendingEmitSet :=
                         setAdd (EmitDelete entityItemDeletePayload) (pendingEmitSet s3)\<rparr>))))"

definition clearStateStorage :: "addr \<Rightarrow> store \<Rightarrow> store" where
  "clearStateStorage a s =
     (if stateMap s (key (stateStorages s a)) = None then s
      else (updState a (\<lambda>st. st\<lparr>downstreamSet := []\<rparr>) s)
             \<lparr>stateMap := (stateMap s)(key (stateStorages s a) := None)\<rparr>)"

definition clearEntityStorage :: "nat \<Rightarrow> addr \<Rightarrow> store \<Rightarrow> unit result" where
  "clearEntityStorage n a s =
     (if entityMap s (key (entityStorages s a)) = None then Ok () s
      else
        (let s1 = s\<lparr>entityMap := (entityMap s)(key (entityStorages s a) := None)\<rparr>
         in andThen (markEach n (downstreamSet (entityStorages s1 a)) s1)
              (\<lambda>_ s2. Ok ()
                 (updEntity a (\<lambda>st. st\<lparr>downstreamSet := [], currentEntity := JNull\<rparr>) s2))))"

primrec handleEach ::
  "(commandOutput \<Rightarrow> store \<Rightarrow> unit result) \<Rightarrow> commandOutput list \<Rightarrow> store \<Rightarrow> unit result" where
  "handleEach h [] s = Ok () s"
| "handleEach h (item # rest) s = andThen (h item s) (\<lambda>_ s1. handleEach h rest s1)"

definition handleCommandAction ::
  "(commandOutput \<Rightarrow> store \<Rightarrow> unit result) \<Rightarrow> nat \<Rightarrow> decls \<Rightarrow> RemeshCommandAction \<Rightarrow> store
     \<Rightarrow> unit result" where
  "handleCommandAction h n D commandAction s =
     (let s1 = s\<lparr>pendingEmitSet := setAdd (EmitCommand commandAction) (pendingEmitSet s)\<rparr>
      in andThen (runProg (injectedGet n D)
                    (commandImpl D (commandId (caCommand commandAction)) (caArg commandAction)) s1)
           h)"

primrec handleCommandOutput :: "nat \<Rightarrow> decls \<Rightarrow> commandOutput \<Rightarrow> store \<Rightarrow> unit result" where
  "handleCommandOutput 0 D out s = OutOfFuel"
| "handleCommandOutput (Suc n) D out s =
     (case out of
        NoOutput \<Rightarrow> Ok () s
      | OutputList items \<Rightarrow> handleEach (handleCommandOutput n D) items s
      | CommandActionOutput commandAction \<Rightarrow>
          handleCommandAction (handleCommandOutput n D) n D commandAction s
      | StateItemUpdatePayload stateItem v \<Rightarrow> updateStateItem n D stateItem v s
      | EntityItemUpdatePayload entityItem v \<Rightarrow> updateEntityItem n D entityItem v s
      | EntityItemDeletePayload payload \<Rightarrow> deleteEntityItem n payload s
      | EventActionOutput eventAction \<Rightarrow>
          Ok () (s\<lparr>pendingEmitSet := setAdd (EmitEvent eventAction) (pendingEmitSet s)\<rparr>))"

section \<open>Collection\<close>

definition shouldClearQueryStorage :: "store \<Rightarrow> addr \<Rightarrow> bool" where
  "shouldClearQueryStorage s q =
     (if refCount (queryStorages s q) > 0 then False
      else if downstreamSet (queryStorages s q) \<noteq> [] then False
      else True)"

primrec clearUpstreams ::
  "(addr \<Rightarrow> store \<Rightarrow> unit result) \<Rightarrow> addr \<Rightarrow> ref list \<Rightarrow> store \<Rightarrow> unit result" where
  "clearUpstreams clearIfNeeded q [] s = Ok () s"
| "clearUpstreams clearIfNeeded q (upstreamStorage # rest) s =
     (let s1 = setDownstream upstreamStorage (setDelete q (downstreamOf s upstreamStorage)) s
      in case upstreamStorage of
           QueryRef u \<Rightarrow>
             andThen (clearIfNeeded u s1) (\<lambda>_ s2. clearUpstreams clearIfNeeded q rest s2)
         | _ \<Rightarrow> clearUpstreams clearIfNeeded q rest s1)"

primrec clearQueryStorage :: "nat \<Rightarrow> addr \<Rightarrow> store \<Rightarrow> unit result" where
  "clearQueryStorage 0 q s = OutOfFuel"
| "clearQueryStorage (Suc n) q s =
     (if queryMap s (key (queryStorages s q)) = None then Ok () s
      else
        (let s1 = s\<lparr>queryMap := (queryMap s)(key (queryStorages s q) := None)\<rparr>
         in clearUpstreams
              (\<lambda>u t. if shouldClearQueryStorage t u then clearQueryStorage n u t else Ok () t)
              q (upstreamSet (queryStorages s1 q)) s1))"

definition clearQueryStorageIfNeeded :: "nat \<Rightarrow> addr \<Rightarrow> store \<Rightarrow> unit result" where
  "clearQueryStorageIfNeeded n q s =
     (if shouldClearQueryStorage s q then clearQueryStorage n q s else Ok () s)"

section \<open>Commit\<close>

primrec clearEach :: "nat \<Rightarrow> addr list \<Rightarrow> store \<Rightarrow> unit result" where
  "clearEach n [] s = Ok () s"
| "clearEach n (storage # rest) s =
     andThen (clearQueryStorageIfNeeded n storage s) (\<lambda>_ s1. clearEach n rest s1)"

primrec clearPendingStorageSetIfNeeded :: "nat \<Rightarrow> store \<Rightarrow> unit result" where
  "clearPendingStorageSetIfNeeded 0 s = OutOfFuel"
| "clearPendingStorageSetIfNeeded (Suc n) s =
     (if pendingClearSet s = [] then Ok () s
      else andThen (clearEach n (pendingClearSet s) (s\<lparr>pendingClearSet := []\<rparr>))
             (\<lambda>_ s1. clearPendingStorageSetIfNeeded n s1))"

definition subjectNext :: "notification \<Rightarrow> store \<Rightarrow> store" where
  "subjectNext x s = s\<lparr>emitted := emitted s @ [x]\<rparr>"

definition emitItem :: "nat \<Rightarrow> emitItem \<Rightarrow> store \<Rightarrow> unit result" where
  "emitItem n item s =
     (case item of
        EmitQuery q \<Rightarrow> Ok () (subjectNext (QueryNext q (currentValue (queryStorages s q))) s)
      | EmitState a \<Rightarrow> Ok () (subjectNext (StateNext a (currentState (stateStorages s a))) s)
      | EmitEntity a \<Rightarrow> Ok () (subjectNext (EntityNext a (currentEntity (entityStorages s a))) s)
      | EmitDelete payload \<Rightarrow>
          (case getEntityStorage (dpEntityItem payload) s of
             (a, s1) \<Rightarrow> clearEntityStorage n a s1)
      | EmitEvent eventAction \<Rightarrow> Ok () (subjectNext (EventNext eventAction) s)
      | EmitCommand commandAction \<Rightarrow> Ok () (subjectNext (CommandNext commandAction) s))"

primrec emitEach :: "nat \<Rightarrow> emitItem list \<Rightarrow> store \<Rightarrow> unit result" where
  "emitEach n [] s = Ok () s"
| "emitEach n (item # rest) s =
     (if item \<notin> set (pendingEmitSet s)
      then andThen (emitItem n item s) (\<lambda>_ s1. emitEach n rest s1)
      else emitEach n rest s)"

primrec clearPendingEmitSetIfNeeded :: "nat \<Rightarrow> store \<Rightarrow> unit result" where
  "clearPendingEmitSetIfNeeded 0 s = OutOfFuel"
| "clearPendingEmitSetIfNeeded (Suc n) s =
     (if pendingEmitSet s = [] then Ok () s
      else andThen (emitEach n (pendingEmitSet s) (s\<lparr>pendingEmitSet := []\<rparr>))
             (\<lambda>_ s1. clearPendingEmitSetIfNeeded n s1))"

primrec updateWipEach :: "nat \<Rightarrow> decls \<Rightarrow> addr list \<Rightarrow> store \<Rightarrow> unit result" where
  "updateWipEach n D [] s = Ok () s"
| "updateWipEach n D (queryStorage # rest) s =
     andThen (updateWipQueryStorage n D queryStorage s) (\<lambda>_ s1. updateWipEach n D rest s1)"

primrec clearPendingLeafSetIfNeeded :: "nat \<Rightarrow> decls \<Rightarrow> store \<Rightarrow> unit result" where
  "clearPendingLeafSetIfNeeded 0 D s = OutOfFuel"
| "clearPendingLeafSetIfNeeded (Suc n) D s =
     (if pendingLeafSet s = [] then Ok () s
      else andThen (updateWipEach n D (pendingLeafSet s) (s\<lparr>pendingLeafSet := []\<rparr>))
             (\<lambda>_ s1. clearPendingLeafSetIfNeeded n D s1))"

definition commit :: "nat \<Rightarrow> decls \<Rightarrow> store \<Rightarrow> unit result" where
  "commit n D s =
     andThen (clearPendingLeafSetIfNeeded n D s)
       (\<lambda>_ s1. andThen (clearPendingStorageSetIfNeeded n s1)
          (\<lambda>_ s2. clearPendingEmitSetIfNeeded n s2))"

definition send :: "nat \<Rightarrow> decls \<Rightarrow> commandOutput \<Rightarrow> store \<Rightarrow> unit result" where
  "send n D out s = andThen (handleCommandOutput n D out s) (\<lambda>_ s1. commit n D s1)"

section \<open>Deferred commit\<close>

text \<open>
  \<^verbatim>\<open>currentTick++\<close> on a JavaScript number: the counter starts at 0 and goes up by one until
  it reaches \<open>2 ^ 53\<close>, where adding one gives the same double again.
\<close>

definition increment :: "nat \<Rightarrow> nat" where
  "increment x = (if x < 2 ^ 53 then x + 1 else x)"

definition commitOnNextTick :: "store \<Rightarrow> store" where
  "commitOnNextTick s =
     (let tick = currentTick s
      in s\<lparr>currentTick := increment (currentTick s), microtasks := microtasks s @ [tick]\<rparr>)"

definition handleEffectOutput :: "nat \<Rightarrow> decls \<Rightarrow> commandOutput \<Rightarrow> store \<Rightarrow> unit result" where
  "handleEffectOutput n D out s =
     andThen (handleCommandOutput n D out s) (\<lambda>_ s1. Ok () (commitOnNextTick s1))"

text \<open>The event loop runs the oldest queued callback.\<close>

definition runMicrotask :: "nat \<Rightarrow> decls \<Rightarrow> store \<Rightarrow> unit result" where
  "runMicrotask n D s =
     (case microtasks s of
        [] \<Rightarrow> Ok () s
      | tick # rest \<Rightarrow>
          (let s1 = s\<lparr>microtasks := rest\<rparr>
           in if tick = currentTick s1 then commit n D s1 else Ok () s1))"

section \<open>Subscription\<close>

definition subscribeQuery :: "nat \<Rightarrow> decls \<Rightarrow> RemeshQueryAction \<Rightarrow> store \<Rightarrow> addr result" where
  "subscribeQuery n D queryAction s =
     andThen (getQueryStorage n D queryAction s)
       (\<lambda>q s1. Ok q (updQuery q (\<lambda>st. st\<lparr>refCount := refCount st + 1\<rparr>) s1))"

definition unsubscribeQuery :: "nat \<Rightarrow> addr \<Rightarrow> store \<Rightarrow> unit result" where
  "unsubscribeQuery n q s =
     clearQueryStorageIfNeeded n q (updQuery q (\<lambda>st. st\<lparr>refCount := refCount st - 1\<rparr>) s)"


section \<open>Scenarios\<close>

text \<open>A store as \<^verbatim>\<open>RemeshStore()\<close> returns it: nothing allocated, nothing pending.\<close>

definition initialStore :: store where
  "initialStore =
     \<lparr>uid = 0,
      stateStorages = (\<lambda>_. \<lparr>key = [], downstreamSet = [],
         State = \<lparr>stateId = 0, stateName = []\<rparr>, currentState = JUndefined\<rparr>),
      entityStorages = (\<lambda>_. \<lparr>key = [], downstreamSet = [],
         Entity = \<lparr>entityId = 0, entityName = []\<rparr>, currentEntity = JNull\<rparr>),
      queryStorages = (\<lambda>_. \<lparr>key = [], downstreamSet = [],
         Query = \<lparr>queryId = 0, queryName = []\<rparr>, arg = JUndefined, currentValue = JUndefined,
         upstreamSet = [], upstreamSetId = 0, refCount = 0, status = Default,
         wipUpstreamSet = []\<rparr>),
      stateMap = Map.empty, entityMap = Map.empty, queryMap = Map.empty,
      stateStorageWeakMap = Map.empty, entityStorageWeakMap = Map.empty,
      queryStorageWeakMap = Map.empty,
      pendingEmitSet = [], pendingLeafSet = [], pendingClearSet = [],
      currentTick = 0, microtasks = [], emitted = []\<rparr>"

text \<open>Query actions of one declaration: two that list the same members in different orders, and a third with the order of the first.\<close>

definition orderExampleA :: RemeshQueryAction where
  "orderExampleA = \<lparr>qaObj = 1, qaQuery = \<lparr>queryId = 7, queryName = ''Q''\<rparr>,
     qaArg = JObject [(''a'', JNumber 1), (''b'', JNumber 2)]\<rparr>"

definition orderExampleB :: RemeshQueryAction where
  "orderExampleB = \<lparr>qaObj = 2, qaQuery = \<lparr>queryId = 7, queryName = ''Q''\<rparr>,
     qaArg = JObject [(''b'', JNumber 2), (''a'', JNumber 1)]\<rparr>"

definition sameOrderExample :: RemeshQueryAction where
  "sameOrderExample = \<lparr>qaObj = 3, qaQuery = \<lparr>queryId = 7, queryName = ''Q''\<rparr>,
     qaArg = JObject [(''a'', JNumber 1), (''b'', JNumber 2)]\<rparr>"

text \<open>
  A counter: the state \<^verbatim>\<open>Count\<close> with default 0 and the query \<^verbatim>\<open>Doubled\<close> that reads
  it and returns twice its value; every \<^verbatim>\<open>compare\<close> is equality.
\<close>

definition CountState :: RemeshStateItem where
  "CountState = \<lparr>siObj = 1, siState = \<lparr>stateId = 0, stateName = ''Count''\<rparr>, siKey = None\<rparr>"

definition Doubled :: RemeshQueryAction where
  "Doubled = \<lparr>qaObj = 2, qaQuery = \<lparr>queryId = 0, queryName = ''Doubled''\<rparr>,
     qaArg = JUndefined\<rparr>"

definition counterDecls :: decls where
  "counterDecls =
     \<lparr>stateDefault = (\<lambda>_. JNumber 0),
      stateCompare = (\<lambda>_ a b. a = b),
      entityCompare = (\<lambda>_ a b. a = b),
      queryImpl = (\<lambda>_ _. getThen (StateInput CountState)
         (\<lambda>v. case v of JNumber i \<Rightarrow> Done (JNumber (2 * i)) | _ \<Rightarrow> Done JUndefined)),
      queryCompare = (\<lambda>_ a b. a = b),
      commandImpl = (\<lambda>_ _. Done NoOutput)\<rparr>"

text \<open>
  \<^verbatim>\<open>Doubled\<close> is subscribed and an effect emits \<^verbatim>\<open>Count := 1\<close>: \<^verbatim>\<open>handleEffectOutput\<close>
  first hands the output to \<^verbatim>\<open>handleCommandOutput\<close> (\<open>effectDispatch\<close>) and then calls
  \<^verbatim>\<open>commitOnNextTick\<close>; the event loop then runs the callback that was queued
  (\<open>effectRun\<close>). \<open>sendRun\<close> is the same dispatch through \<^verbatim>\<open>send\<close>.
\<close>

definition effectDispatch :: "unit result" where
  "effectDispatch =
     andThen (subscribeQuery 4 counterDecls Doubled initialStore)
       (\<lambda>_ s1. handleCommandOutput 4 counterDecls
                  (StateItemUpdatePayload CountState (JNumber 1)) s1)"

definition effectRun :: "unit result" where
  "effectRun =
     andThen (subscribeQuery 4 counterDecls Doubled initialStore)
       (\<lambda>_ s1. andThen
          (handleEffectOutput 4 counterDecls (StateItemUpdatePayload CountState (JNumber 1)) s1)
          (\<lambda>_ s2. runMicrotask 5 counterDecls s2))"

definition sendRun :: "unit result" where
  "sendRun =
     andThen (subscribeQuery 4 counterDecls Doubled initialStore)
       (\<lambda>_ s1. send 5 counterDecls (StateItemUpdatePayload CountState (JNumber 1)) s1)"

text \<open>The scheduled callbacks all hold a tick value below the counter.\<close>

definition ticksBehind :: "store \<Rightarrow> bool" where
  "ticksBehind s = (\<forall>tick \<in> set (microtasks s). tick < currentTick s)"

text \<open>
  An entity \<^verbatim>\<open>User\<close> and the query \<^verbatim>\<open>UserQuery\<close> that returns it.
\<close>

definition UserEntity :: RemeshEntityItem where
  "UserEntity = \<lparr>eiObj = 3, eiEntity = \<lparr>entityId = 0, entityName = ''User''\<rparr>,
     eiKey = Some ''1''\<rparr>"

definition UserQuery :: RemeshQueryAction where
  "UserQuery = \<lparr>qaObj = 4, qaQuery = \<lparr>queryId = 0, queryName = ''UserQuery''\<rparr>,
     qaArg = JUndefined\<rparr>"

definition userDecls :: decls where
  "userDecls =
     \<lparr>stateDefault = (\<lambda>_. JNumber 0),
      stateCompare = (\<lambda>_ a b. a = b),
      entityCompare = (\<lambda>_ a b. a = b),
      queryImpl = (\<lambda>_ _. getThen (EntityInput UserEntity) Done),
      queryCompare = (\<lambda>_ a b. a = b),
      commandImpl = (\<lambda>_ _. Done NoOutput)\<rparr>"

definition userA :: jsval where
  "userA = JObject [(''name'', JString ''a'')]"

definition userB :: jsval where
  "userB = JObject [(''name'', JString ''b'')]"

text \<open>
  The entity is created with value \<open>userA\<close>, \<^verbatim>\<open>UserQuery\<close> is subscribed, and the entity
  is updated to \<open>userB\<close>; each dispatch is a \<^verbatim>\<open>send\<close>.
\<close>

definition entityUpdateRun :: "unit result" where
  "entityUpdateRun =
     andThen (send 3 userDecls (EntityItemUpdatePayload UserEntity userA) initialStore)
       (\<lambda>_ s1. andThen (subscribeQuery 4 userDecls UserQuery s1)
          (\<lambda>_ s2. send 3 userDecls (EntityItemUpdatePayload UserEntity userB) s2))"

text \<open>The value of a query computed from scratch: its \<^verbatim>\<open>impl\<close> run against the store as it is.\<close>

definition freshValue :: "nat \<Rightarrow> decls \<Rightarrow> RemeshQueryAction \<Rightarrow> store \<Rightarrow> jsval result" where
  "freshValue n D queryAction s =
     runProg (injectedGet n D)
       (queryImpl D (queryId (qaQuery queryAction)) (qaArg queryAction)) s"



text \<open>The store a call has left behind, for the next step of a scenario.\<close>

definition resultStore :: "'a result \<Rightarrow> store" where
  "resultStore r = (case r of Ok _ s \<Rightarrow> s | Err _ s \<Rightarrow> s | OutOfFuel \<Rightarrow> initialStore)"

text \<open>
  The store after the effect output \<^verbatim>\<open>Count := 1\<close> has been handled and before any commit:
  \<^verbatim>\<open>Doubled\<close> is marked \<open>Wip\<close> and still holds 0.
\<close>

definition staleStore :: store where
  "staleStore = resultStore effectDispatch"

text \<open>
  The storage that an entity item resolves to has no value: what \<^verbatim>\<open>getCurrentEntity\<close>
  tests after \<^verbatim>\<open>getEntityStorage\<close>.
\<close>

definition resolvesUnset :: "store \<Rightarrow> RemeshEntityItem \<Rightarrow> bool" where
  "resolvesUnset s entityItem =
     (case getEntityStorage entityItem s of
        (a, s') \<Rightarrow> currentEntity (entityStorages s' a) = JNull)"


text \<open>
  A query that reads the state \<^verbatim>\<open>Count\<close> and then the entity \<^verbatim>\<open>User\<close>, and returns both.
  In \<open>profileStore\<close> the entity has been created, the query subscribed and \<^verbatim>\<open>Count\<close> set
  to 1, each with a \<^verbatim>\<open>send\<close>: the query has been recomputed once.
\<close>

definition Profile :: RemeshQueryAction where
  "Profile = \<lparr>qaObj = 6, qaQuery = \<lparr>queryId = 1, queryName = ''Profile''\<rparr>,
     qaArg = JUndefined\<rparr>"

definition profileDecls :: decls where
  "profileDecls =
     \<lparr>stateDefault = (\<lambda>_. JNumber 0),
      stateCompare = (\<lambda>_ a b. a = b),
      entityCompare = (\<lambda>_ a b. a = b),
      queryImpl = (\<lambda>_ _. getThen (StateInput CountState)
         (\<lambda>c. getThen (EntityInput UserEntity) (\<lambda>u. Done (JArray [c, u])))),
      queryCompare = (\<lambda>_ a b. a = b),
      commandImpl = (\<lambda>_ _. Done NoOutput)\<rparr>"

definition profileStore :: store where
  "profileStore =
     resultStore
       (andThen (send 3 profileDecls (EntityItemUpdatePayload UserEntity userA) initialStore)
          (\<lambda>_ s1. andThen (subscribeQuery 4 profileDecls Profile s1)
             (\<lambda>_ s2. send 5 profileDecls (StateItemUpdatePayload CountState (JNumber 1)) s2)))"



text \<open>
  Two queries in a chain: \<^verbatim>\<open>Positive\<close> reads the state \<^verbatim>\<open>Count\<close> and tells whether it is
  above 0, \<^verbatim>\<open>Label\<close> reads \<^verbatim>\<open>Positive\<close> and wraps its value. \<^verbatim>\<open>Label\<close> is subscribed
  (\<open>labelSubscribed\<close>: its storage is 0, that of \<^verbatim>\<open>Positive\<close> is 1, that of \<^verbatim>\<open>Count\<close> is 2).
  In \<open>labelFirst\<close> the output \<^verbatim>\<open>Count := 1\<close> has been handled and not committed; in
  \<open>labelStore\<close> it has been sent; in \<open>labelStale\<close> the output \<^verbatim>\<open>Count := 2\<close> has then been
  handled and not committed, and in \<open>labelSettled\<close> \<^verbatim>\<open>Positive\<close> has been brought up to date
  after that.
\<close>

definition Positive :: RemeshQueryAction where
  "Positive = \<lparr>qaObj = 7, qaQuery = \<lparr>queryId = 0, queryName = ''Positive''\<rparr>,
     qaArg = JUndefined\<rparr>"

definition Label :: RemeshQueryAction where
  "Label = \<lparr>qaObj = 8, qaQuery = \<lparr>queryId = 1, queryName = ''Label''\<rparr>,
     qaArg = JUndefined\<rparr>"

definition labelDecls :: decls where
  "labelDecls =
     \<lparr>stateDefault = (\<lambda>_. JNumber 0),
      stateCompare = (\<lambda>_ a b. a = b),
      entityCompare = (\<lambda>_ a b. a = b),
      queryImpl = (\<lambda>i _.
         if i = 0
         then getThen (StateInput CountState)
                (\<lambda>v. case v of JNumber c \<Rightarrow> Done (JBool (0 < c)) | _ \<Rightarrow> Done JUndefined)
         else getThen (QueryInput Positive) (\<lambda>v. Done (JArray [v]))),
      queryCompare = (\<lambda>_ a b. a = b),
      commandImpl = (\<lambda>_ _. Done NoOutput)\<rparr>"

definition labelSubscribed :: store where
  "labelSubscribed = resultStore (subscribeQuery 8 labelDecls Label initialStore)"

definition labelFirst :: store where
  "labelFirst =
     resultStore (handleCommandOutput 4 labelDecls
                    (StateItemUpdatePayload CountState (JNumber 1)) labelSubscribed)"

definition labelStore :: store where
  "labelStore =
     resultStore (send 8 labelDecls (StateItemUpdatePayload CountState (JNumber 1))
                    labelSubscribed)"

definition labelStale :: store where
  "labelStale =
     resultStore (handleCommandOutput 4 labelDecls
                    (StateItemUpdatePayload CountState (JNumber 2)) labelStore)"

definition labelSettled :: store where
  "labelSettled = resultStore (updateWipQueryStorage 5 labelDecls 1 labelStale)"

text \<open>
  A query whose reads depend on what it reads: \<^verbatim>\<open>Switch\<close> reads the state \<^verbatim>\<open>Count\<close>; at 0
  it then reads the state \<^verbatim>\<open>Other\<close> and returns it, at 1 it throws, and at any other value it
  returns the value of \<^verbatim>\<open>Count\<close>. \<^verbatim>\<open>Switch\<close> is subscribed (\<open>switchSubscribed\<close>: its storage
  is 0, that of \<^verbatim>\<open>Count\<close> is 1, that of \<^verbatim>\<open>Other\<close> is 2), and in \<open>switchStale v\<close> the output
  \<^verbatim>\<open>Count := v\<close> has been handled and not committed.
\<close>

definition OtherState :: RemeshStateItem where
  "OtherState = \<lparr>siObj = 9, siState = \<lparr>stateId = 1, stateName = ''Other''\<rparr>, siKey = None\<rparr>"

definition Switch :: RemeshQueryAction where
  "Switch = \<lparr>qaObj = 10, qaQuery = \<lparr>queryId = 0, queryName = ''Switch''\<rparr>,
     qaArg = JUndefined\<rparr>"

definition switchDecls :: decls where
  "switchDecls =
     \<lparr>stateDefault = (\<lambda>_. JNumber 0),
      stateCompare = (\<lambda>_ a b. a = b),
      entityCompare = (\<lambda>_ a b. a = b),
      queryImpl = (\<lambda>_ _. getThen (StateInput CountState)
         (\<lambda>c. if c = JNumber 0 then getThen (StateInput OtherState) Done
               else if c = JNumber 1 then Raise (Error ''boom'')
               else Done c)),
      queryCompare = (\<lambda>_ a b. a = b),
      commandImpl = (\<lambda>_ _. Done NoOutput)\<rparr>"

definition switchSubscribed :: store where
  "switchSubscribed = resultStore (subscribeQuery 5 switchDecls Switch initialStore)"

definition switchStale :: "int \<Rightarrow> store" where
  "switchStale v =
     resultStore (handleCommandOutput 4 switchDecls
                    (StateItemUpdatePayload CountState (JNumber v)) switchSubscribed)"

text \<open>
  The stores that a throw of \<^verbatim>\<open>Switch\<close> leaves: \<open>switchThrown\<close> after its recomputation in
  \<open>switchStale 1\<close>, \<open>switchFailed\<close> after \<^verbatim>\<open>Count := 1\<close> has been sent in \<open>switchSubscribed\<close>.
\<close>

definition switchThrown :: store where
  "switchThrown = resultStore (updateQueryStorage 4 switchDecls 0 (switchStale 1))"




text \<open>
  In \<open>profileStale\<close> an effect has emitted the update of the entity \<^verbatim>\<open>User\<close> to \<open>userB\<close> in
  \<open>profileStore\<close> (\<^verbatim>\<open>handleEffectOutput\<close>: the output is handled and the commit is deferred);
  \<open>profileRead\<close> is the store after \<^verbatim>\<open>Profile\<close> has then been read.
\<close>

definition profileStale :: store where
  "profileStale =
     resultStore (handleEffectOutput 3 profileDecls (EntityItemUpdatePayload UserEntity userB)
                    profileStore)"

definition profileRead :: store where
  "profileRead = resultStore (getCurrentQueryValue 5 profileDecls Profile profileStale)"

text \<open>
  The counter with two commands: \<^verbatim>\<open>Read\<close> reads the query \<^verbatim>\<open>Doubled\<close> and returns nothing, and
  \<^verbatim>\<open>Keep\<close> reads the state \<^verbatim>\<open>Count\<close> and returns the update of \<^verbatim>\<open>Count\<close> to the value it has
  read. In \<open>readerSubscribed\<close> the query \<^verbatim>\<open>Doubled\<close> is subscribed (its storage is 0, that of
  \<^verbatim>\<open>Count\<close> is 1). \<open>readerBounced\<close> is the store after the list \<^verbatim>\<open>Count := 1\<close>, \<^verbatim>\<open>Read\<close>,
  \<^verbatim>\<open>Count := 0\<close> has been sent there, and \<open>readerRead\<close> the store that the reads of \<^verbatim>\<open>Keep\<close>
  leave there.
\<close>

definition ReadCommand :: RemeshCommandAction where
  "ReadCommand = \<lparr>caObj = 11, caCommand = \<lparr>commandId = 0, commandName = ''Read''\<rparr>,
     caArg = JUndefined\<rparr>"

definition KeepCommand :: RemeshCommandAction where
  "KeepCommand = \<lparr>caObj = 12, caCommand = \<lparr>commandId = 1, commandName = ''Keep''\<rparr>,
     caArg = JUndefined\<rparr>"

definition readerDecls :: decls where
  "readerDecls =
     \<lparr>stateDefault = (\<lambda>_. JNumber 0),
      stateCompare = (\<lambda>_ a b. a = b),
      entityCompare = (\<lambda>_ a b. a = b),
      queryImpl = (\<lambda>_ _. getThen (StateInput CountState)
         (\<lambda>v. case v of JNumber i \<Rightarrow> Done (JNumber (2 * i)) | _ \<Rightarrow> Done JUndefined)),
      queryCompare = (\<lambda>_ a b. a = b),
      commandImpl = (\<lambda>i _.
         if i = 0 then getThen (QueryInput Doubled) (\<lambda>_. Done NoOutput)
         else getThen (StateInput CountState) (\<lambda>v. Done (StateItemUpdatePayload CountState v)))\<rparr>"

definition readerSubscribed :: store where
  "readerSubscribed = resultStore (subscribeQuery 4 readerDecls Doubled initialStore)"

definition bounceOutput :: commandOutput where
  "bounceOutput =
     OutputList [StateItemUpdatePayload CountState (JNumber 1), CommandActionOutput ReadCommand,
                 StateItemUpdatePayload CountState (JNumber 0)]"

definition readerBounced :: store where
  "readerBounced = resultStore (send 9 readerDecls bounceOutput readerSubscribed)"

definition readerRead :: store where
  "readerRead =
     readerSubscribed\<lparr>pendingEmitSet := setAdd (EmitCommand KeepCommand)
                                          (pendingEmitSet readerSubscribed)\<rparr>"

section \<open>Properties of stores\<close>

text \<open>
  What marking may change: the \<^verbatim>\<open>status\<close> and the \<^verbatim>\<open>wipUpstreamSet\<close> of query storages and
  \<^verbatim>\<open>pendingLeafSet\<close>. \<open>markFrame s s'\<close> says that \<open>s'\<close> differs from \<open>s\<close> only there, and that
  a status that changed is now \<open>Wip\<close>.
\<close>

definition unmarked :: "store \<Rightarrow> store" where
  "unmarked s =
     s\<lparr>queryStorages := (\<lambda>q. (queryStorages s q)\<lparr>status := Default, wipUpstreamSet := []\<rparr>),
       pendingLeafSet := []\<rparr>"

definition markFrame :: "store \<Rightarrow> store \<Rightarrow> bool" where
  "markFrame s s' \<longleftrightarrow>
     unmarked s' = unmarked s
     \<and> (\<forall>q. status (queryStorages s' q) = Wip
            \<or> status (queryStorages s' q) = status (queryStorages s q))"

text \<open>
  The stores that the operations build. Addresses held in the maps, the weak maps, the
  upstream sets, the sets of stale upstreams and \<^verbatim>\<open>pendingLeafSet\<close> are allocated, and a
  query found in a downstream set is allocated (\<open>allocated\<close>); a query found in the
  downstream set of a storage has that storage in its upstream set
  (\<open>downstreamRecorded\<close>).
\<close>

definition refAddr :: "ref \<Rightarrow> addr" where
  "refAddr r = (case r of StateRef a \<Rightarrow> a | EntityRef a \<Rightarrow> a | QueryRef a \<Rightarrow> a)"

definition allocated :: "store \<Rightarrow> bool" where
  "allocated s \<longleftrightarrow>
     (\<forall>k a. stateMap s k = Some a \<longrightarrow> a < uid s)
     \<and> (\<forall>k a. entityMap s k = Some a \<longrightarrow> a < uid s)
     \<and> (\<forall>k a. queryMap s k = Some a \<longrightarrow> a < uid s)
     \<and> (\<forall>k a. stateStorageWeakMap s k = Some a \<longrightarrow> a < uid s)
     \<and> (\<forall>k a. entityStorageWeakMap s k = Some a \<longrightarrow> a < uid s)
     \<and> (\<forall>k a. queryStorageWeakMap s k = Some a \<longrightarrow> a < uid s)
     \<and> (\<forall>q r. r \<in> set (upstreamSet (queryStorages s q)) \<longrightarrow> refAddr r < uid s)
     \<and> (\<forall>q r. r \<in> set (wipUpstreamSet (queryStorages s q)) \<longrightarrow> refAddr r < uid s)
     \<and> (\<forall>r q. q \<in> set (downstreamOf s r) \<longrightarrow> q < uid s)
     \<and> (\<forall>q \<in> set (pendingLeafSet s). q < uid s)"

definition downstreamRecorded :: "store \<Rightarrow> bool" where
  "downstreamRecorded s \<longleftrightarrow>
     (\<forall>r q. q \<in> set (downstreamOf s r) \<longrightarrow> r \<in> set (upstreamSet (queryStorages s q)))"

definition storeInv :: "store \<Rightarrow> bool" where
  "storeInv s \<longleftrightarrow> allocated s \<and> downstreamRecorded s"

text \<open>The converse of \<open>downstreamRecorded\<close>; with it, every edge is held in both directions.\<close>

definition upstreamRecorded :: "store \<Rightarrow> bool" where
  "upstreamRecorded s \<longleftrightarrow>
     (\<forall>q r. r \<in> set (upstreamSet (queryStorages s q)) \<longrightarrow> q \<in> set (downstreamOf s r))"

text \<open>
  What a call of the query functions may change, from the store \<open>s\<close> in which it starts to
  the store \<open>s'\<close> it leaves. For a query storage \<open>q\<close> that exists in \<open>s\<close>: as long as its
  \<^verbatim>\<open>upstreamSet\<close> is the same object, its value and its place in \<^verbatim>\<open>pendingEmitSet\<close> are the
  same, and (unless \<open>q\<close> is in \<open>XF\<close>, the query whose evaluation is reading) so are its
  upstream set and the downstream sets it is in; (unless \<open>q\<close> is in \<open>XG\<close>, the query
  being recomputed) a storage that is registered and not \<open>Wip\<close> is not recomputed; and a
  storage that has become \<open>Updated\<close> is queued for notification.
\<close>

definition frame :: "addr set \<Rightarrow> addr set \<Rightarrow> store \<Rightarrow> store \<Rightarrow> bool" where
  "frame XF XG s s' \<longleftrightarrow>
     uid s \<le> uid s'
     \<and> emitted s' = emitted s
     \<and> set (pendingEmitSet s) \<subseteq> set (pendingEmitSet s')
     \<and> (\<forall>k. queryMap s k \<noteq> None \<longrightarrow> queryMap s' k \<noteq> None)
     \<and> (\<forall>q < uid s.
           key (queryStorages s' q) = key (queryStorages s q)
           \<and> Query (queryStorages s' q) = Query (queryStorages s q)
           \<and> arg (queryStorages s' q) = arg (queryStorages s q)
           \<and> upstreamSetId (queryStorages s q) \<le> upstreamSetId (queryStorages s' q)
           \<and> (upstreamSetId (queryStorages s' q) = upstreamSetId (queryStorages s q) \<longrightarrow>
                 currentValue (queryStorages s' q) = currentValue (queryStorages s q)
                 \<and> (EmitQuery q \<in> set (pendingEmitSet s') \<longrightarrow> EmitQuery q \<in> set (pendingEmitSet s)))
           \<and> (q \<notin> XF \<longrightarrow>
                 upstreamSetId (queryStorages s' q) = upstreamSetId (queryStorages s q) \<longrightarrow>
                 upstreamSet (queryStorages s' q) = upstreamSet (queryStorages s q)
                 \<and> (\<forall>r. refAddr r < uid s \<longrightarrow> q \<in> set (downstreamOf s r)
                          \<longrightarrow> q \<in> set (downstreamOf s' r)))
           \<and> (q \<notin> XG \<longrightarrow> status (queryStorages s q) \<noteq> Wip \<longrightarrow>
                 queryMap s (key (queryStorages s q)) \<noteq> None \<longrightarrow>
                 upstreamSetId (queryStorages s' q) = upstreamSetId (queryStorages s q)
                 \<and> status (queryStorages s' q) \<noteq> Wip)
           \<and> (status (queryStorages s' q) = Updated \<longrightarrow>
                 status (queryStorages s q) = Updated
                 \<or> EmitQuery q \<in> set (pendingEmitSet s')))"

definition rel :: "addr set \<Rightarrow> addr set \<Rightarrow> store \<Rightarrow> store \<Rightarrow> bool" where
  "rel XF XG s s' \<longleftrightarrow> storeInv s' \<and> frame XF XG s s'"

text \<open>
  \<open>resultSat E P r\<close>: the store that the call \<open>r\<close> leaves, whether it returned or threw,
  satisfies \<open>E\<close>, and a returned value satisfies \<open>P\<close>.
\<close>

definition resultSat :: "(store \<Rightarrow> bool) \<Rightarrow> ('a \<Rightarrow> store \<Rightarrow> bool) \<Rightarrow> 'a result \<Rightarrow> bool" where
  "resultSat E P r =
     (case r of Ok a s \<Rightarrow> E s \<and> P a s | Err e s \<Rightarrow> E s | OutOfFuel \<Rightarrow> True)"

text \<open>The query storage that a context tracks reads for.\<close>

definition tracked :: "getContext \<Rightarrow> addr set" where
  "tracked ctx =
     (case ctx of
        CreateQueryContext q sid \<Rightarrow> {q}
      | UpdateQueryContext q sid \<Rightarrow> {q}
      | InjectedContext \<Rightarrow> {})"

text \<open>What is assumed of the calls a function makes, and proved of the function.\<close>

definition callsOk :: "calls \<Rightarrow> bool" where
  "callsOk c \<longleftrightarrow>
     (\<forall>qa s. storeInv s \<longrightarrow>
        resultSat (rel {} {} s) (\<lambda>u s'. u < uid s') (getQueryStorage_call c qa s))
     \<and> (\<forall>qa s. storeInv s \<longrightarrow>
        resultSat (rel {} {} s) (\<lambda>u s'. u < uid s') (createQueryStorage_call c qa s))
     \<and> (\<forall>q s. storeInv s \<longrightarrow> q < uid s \<longrightarrow>
        resultSat (rel {} {} s) (\<lambda>_ _. True) (restoreQueryStorage_call c q s))
     \<and> (\<forall>qa s. storeInv s \<longrightarrow>
        resultSat (rel {} {} s) (\<lambda>_ _. True) (getCurrentQueryValue_call c qa s))
     \<and> (\<forall>input s. storeInv s \<longrightarrow>
        resultSat (rel {} {} s) (\<lambda>_ _. True) (injectedGet_call c input s))
     \<and> (\<forall>ctx input s. storeInv s \<longrightarrow> (\<forall>q \<in> tracked ctx. q < uid s) \<longrightarrow>
        resultSat (rel (tracked ctx) {} s) (\<lambda>_ _. True) (contextGet_call c ctx input s))
     \<and> (\<forall>q s. storeInv s \<longrightarrow> q < uid s \<longrightarrow>
        resultSat (rel {} {} s) (\<lambda>_ _. True) (updateWipQueryStorage_call c q s))
     \<and> (\<forall>q i b s. storeInv s \<longrightarrow> q < uid s \<longrightarrow>
        resultSat (rel {} {} s) (\<lambda>_ _. True) (updateWipUpstreams_call c q i b s))
     \<and> (\<forall>q s. storeInv s \<longrightarrow> q < uid s \<longrightarrow>
        resultSat (\<lambda>s'. rel {} {q} s s'
                        \<and> upstreamSetId (queryStorages s q) < upstreamSetId (queryStorages s' q))
          (\<lambda>b s'. b \<longrightarrow> EmitQuery q \<in> set (pendingEmitSet s'))
          (updateQueryStorage_call c q s))"


text \<open>
  What every operation of the store keeps: the store it leaves satisfies the invariant, and
  nothing that was allocated is freed.
\<close>

definition kept :: "store \<Rightarrow> store \<Rightarrow> bool" where
  "kept s s' \<longleftrightarrow> storeInv s' \<and> uid s \<le> uid s'"

text \<open>
  The store in which the evaluation of a recomputed query starts: \<^verbatim>\<open>updateQueryStorage\<close> has
  removed the query from the downstream sets of its upstreams and has given it a new, empty
  \<^verbatim>\<open>upstreamSet\<close>.
\<close>

definition beforeEvaluation :: "addr \<Rightarrow> store \<Rightarrow> store" where
  "beforeEvaluation q s =
     updQuery q (\<lambda>st. st\<lparr>upstreamSet := [], upstreamSetId := Suc (upstreamSetId (queryStorages s q))\<rparr>)
       (fold (detachUpstream q) (upstreamSet (queryStorages s q)) s)"

text \<open>
  The nodes read during an evaluation: the storage that each \<^verbatim>\<open>get\<close> of the evaluation
  resolves its input to, in the store in which that \<^verbatim>\<open>get\<close> is called. \<open>resolveInput\<close> is
  the resolution (\<^verbatim>\<open>getStateStorage\<close>, \<^verbatim>\<open>getEntityStorage\<close>, \<^verbatim>\<open>getQueryStorage\<close>; of a query
  action there is none when resolving it throws), and \<open>evaluationReads\<close> follows the
  evaluation as \<open>runProg\<close> does.
\<close>

definition resolveInput :: "nat \<Rightarrow> decls \<Rightarrow> getInput \<Rightarrow> store \<Rightarrow> ref option" where
  "resolveInput n D input s =
     (case input of
        StateInput stateItem \<Rightarrow> Some (StateRef (fst (getStateStorage D stateItem s)))
      | EntityInput entityItem \<Rightarrow> Some (EntityRef (fst (getEntityStorage entityItem s)))
      | QueryInput queryAction \<Rightarrow>
          (case getQueryStorage n D queryAction s of
             Ok u s' \<Rightarrow> Some (QueryRef u)
           | _ \<Rightarrow> None))"

primrec evaluationReads ::
  "(getInput \<Rightarrow> store \<Rightarrow> ref option) \<Rightarrow> (getInput \<Rightarrow> store \<Rightarrow> jsval result) \<Rightarrow> 'r prog \<Rightarrow> store
     \<Rightarrow> ref list" where
  "evaluationReads resolve get (Done r) s = []"
| "evaluationReads resolve get (Raise e) s = []"
| "evaluationReads resolve get (Get input k) s =
     (case resolve input s of Some r \<Rightarrow> [r] | None \<Rightarrow> [])
     @ (case get input s of
          Ok v s' \<Rightarrow> evaluationReads resolve get (k (Inr v)) s'
        | Err e s' \<Rightarrow> evaluationReads resolve get (k (Inl e)) s'
        | OutOfFuel \<Rightarrow> [])"

text \<open>The query \<open>q\<close> is in the downstream set of each of its upstreams.\<close>

definition heldByUpstreams :: "addr \<Rightarrow> store \<Rightarrow> bool" where
  "heldByUpstreams q s \<longleftrightarrow>
     (\<forall>r \<in> set (upstreamSet (queryStorages s q)). q \<in> set (downstreamOf s r))"

text \<open>
  What the reads \<open>rs\<close> have done to the edges of \<open>q\<close> between the stores \<open>s\<close> and \<open>s'\<close>, as
  long as \<open>q\<close> has the \<^verbatim>\<open>upstreamSet\<close> object \<open>sid\<close>.
\<close>

definition readAdds :: "addr \<Rightarrow> nat \<Rightarrow> store \<Rightarrow> ref list \<Rightarrow> store \<Rightarrow> bool" where
  "readAdds q sid s rs s' \<longleftrightarrow>
     (upstreamSetId (queryStorages s' q) = sid \<longrightarrow>
        set (upstreamSet (queryStorages s' q)) = set (upstreamSet (queryStorages s q)) \<union> set rs
        \<and> (heldByUpstreams q s \<longrightarrow> heldByUpstreams q s'))"

text \<open>
  What a dispatch and the settling of stale queries may change, from the store \<open>s\<close> to the
  store \<open>s'\<close>. Nothing is emitted and nothing leaves \<^verbatim>\<open>pendingEmitSet\<close>; an entity storage
  stays in the entity map and in the weak map, with its key. For a query storage \<open>q\<close> that
  exists in \<open>s\<close>: while its \<^verbatim>\<open>upstreamSet\<close> is the same object, its value and its place in
  \<^verbatim>\<open>pendingEmitSet\<close> are the same; when it has been recomputed once, either its value is the
  same and it has not been queued, or its value is one that the query's \<^verbatim>\<open>compare\<close> finds
  different from the value in \<open>s\<close>, and it is queued.
\<close>

definition steady :: "decls \<Rightarrow> store \<Rightarrow> store \<Rightarrow> bool" where
  "steady D s s' \<longleftrightarrow>
     uid s \<le> uid s'
     \<and> emitted s' = emitted s
     \<and> set (pendingEmitSet s) \<subseteq> set (pendingEmitSet s')
     \<and> (\<forall>k a. entityMap s k = Some a \<longrightarrow> entityMap s' k = Some a)
     \<and> (\<forall>x a. entityStorageWeakMap s x = Some a \<longrightarrow> entityStorageWeakMap s' x = Some a)
     \<and> (\<forall>a < uid s. key (entityStorages s' a) = key (entityStorages s a))
     \<and> (\<forall>q < uid s.
           Query (queryStorages s' q) = Query (queryStorages s q)
           \<and> upstreamSetId (queryStorages s q) \<le> upstreamSetId (queryStorages s' q)
           \<and> (upstreamSetId (queryStorages s' q) = upstreamSetId (queryStorages s q) \<longrightarrow>
                 currentValue (queryStorages s' q) = currentValue (queryStorages s q)
                 \<and> (EmitQuery q \<in> set (pendingEmitSet s') \<longrightarrow> EmitQuery q \<in> set (pendingEmitSet s)))
           \<and> (upstreamSetId (queryStorages s' q) = Suc (upstreamSetId (queryStorages s q)) \<longrightarrow>
                 (currentValue (queryStorages s' q) = currentValue (queryStorages s q)
                  \<and> (EmitQuery q \<in> set (pendingEmitSet s') \<longrightarrow> EmitQuery q \<in> set (pendingEmitSet s)))
                 \<or> (\<not> queryCompare D (queryId (Query (queryStorages s q)))
                        (currentValue (queryStorages s q)) (currentValue (queryStorages s' q))
                     \<and> EmitQuery q \<in> set (pendingEmitSet s'))))"

text \<open>What is assumed of the calls a function makes, and proved of the function, for \<open>steady\<close>.\<close>

definition callsSteady :: "decls \<Rightarrow> calls \<Rightarrow> bool" where
  "callsSteady D c \<longleftrightarrow>
     (\<forall>qa s. resultSat (steady D s) (\<lambda>_ _. True) (getQueryStorage_call c qa s))
     \<and> (\<forall>qa s. resultSat (steady D s) (\<lambda>_ _. True) (createQueryStorage_call c qa s))
     \<and> (\<forall>q s. resultSat (steady D s) (\<lambda>_ _. True) (restoreQueryStorage_call c q s))
     \<and> (\<forall>qa s. resultSat (steady D s) (\<lambda>_ _. True) (getCurrentQueryValue_call c qa s))
     \<and> (\<forall>input s. resultSat (steady D s) (\<lambda>_ _. True) (injectedGet_call c input s))
     \<and> (\<forall>ctx input s. resultSat (steady D s) (\<lambda>_ _. True) (contextGet_call c ctx input s))
     \<and> (\<forall>q s. resultSat (steady D s) (\<lambda>_ _. True) (updateWipQueryStorage_call c q s))
     \<and> (\<forall>q i b s. resultSat (steady D s) (\<lambda>_ _. True) (updateWipUpstreams_call c q i b s))
     \<and> (\<forall>q s. resultSat (steady D s) (\<lambda>_ _. True) (updateQueryStorage_call c q s))"

text \<open>
  What the emitting pass of a commit may change besides the queue and the notifications sent:
  no query storage gets another value or another \<^verbatim>\<open>upstreamSet\<close> object, no key is added to
  the entity map, and an entity storage stays in the weak map, with its key.
\<close>

definition flushed :: "store \<Rightarrow> store \<Rightarrow> bool" where
  "flushed s s' \<longleftrightarrow>
     uid s \<le> uid s'
     \<and> (\<forall>q. currentValue (queryStorages s' q) = currentValue (queryStorages s q))
     \<and> (\<forall>q. upstreamSetId (queryStorages s' q) = upstreamSetId (queryStorages s q))
     \<and> (\<forall>k. entityMap s' k = None \<or> entityMap s' k = entityMap s k)
     \<and> (\<forall>x a. entityStorageWeakMap s x = Some a \<longrightarrow> entityStorageWeakMap s' x = Some a)
     \<and> (\<forall>a < uid s. key (entityStorages s' a) = key (entityStorages s a))"

text \<open>
  The pairs of allocated query storages \<open>q\<close> and \<open>d\<close> such that \<open>q\<close> is not yet among the stale
  upstreams of \<open>d\<close>. \<^verbatim>\<open>mark\<close> calls itself for a downstream only after it has added the storage
  to the stale upstreams of that downstream, so their number bounds the nesting of its calls.
\<close>

definition unmarkedEdges :: "store \<Rightarrow> (addr \<times> addr) set" where
  "unmarkedEdges s =
     {(q, d). q < uid s \<and> d < uid s \<and> QueryRef q \<notin> set (wipUpstreamSet (queryStorages s d))}"
section \<open>The equations of the query functions\<close>

lemmas call_defs = getQueryStorage_def createQueryStorage_def restoreQueryStorage_def
  getCurrentQueryValue_def injectedGet_def contextGet_def updateWipQueryStorage_def
  updateWipUpstreams_def updateQueryStorage_def

lemma calls_0 [simp]:
  "getQueryStorage 0 D qa s = OutOfFuel"
  "createQueryStorage 0 D qa s = OutOfFuel"
  "restoreQueryStorage 0 D q s = OutOfFuel"
  "getCurrentQueryValue 0 D qa s = OutOfFuel"
  "injectedGet 0 D input s = OutOfFuel"
  "contextGet 0 D ctx input s = OutOfFuel"
  "updateWipQueryStorage 0 D q s = OutOfFuel"
  "updateWipUpstreams 0 D q i b s = OutOfFuel"
  "updateQueryStorage 0 D q s = OutOfFuel"
  by (simp_all add: call_defs)

lemma getQueryStorage_Suc:
  "getQueryStorage (Suc n) D queryAction s =
     (case queryMap s (queryStorageKey queryAction) of
        Some queryStorage \<Rightarrow> Ok queryStorage s
      | None \<Rightarrow>
          (case queryStorageWeakMap s (qaObj queryAction) of
             Some cachedStorage \<Rightarrow>
               andThen (restoreQueryStorage n D cachedStorage s) (\<lambda>_ s'. Ok cachedStorage s')
           | None \<Rightarrow> createQueryStorage n D queryAction s))"
  unfolding call_defs by (simp add: getQueryStorage_body_def Let_def split: option.split)

lemma createQueryStorage_Suc:
  "createQueryStorage (Suc n) D queryAction s =
     (let q = uid s;
          s1 = s\<lparr>uid := Suc q,
                 queryStorages := (queryStorages s)(q := newQueryStorage queryAction)\<rparr>
      in andThen (runProg (contextGet n D (CreateQueryContext q 0))
                    (queryImpl D (queryId (qaQuery queryAction)) (qaArg queryAction)) s1)
           (\<lambda>v s2. Ok q ((updQuery q (\<lambda>st. st\<lparr>currentValue := v\<rparr>) s2)
                           \<lparr>queryMap := (queryMap s2)(queryStorageKey queryAction \<mapsto> q),
                            queryStorageWeakMap :=
                              (queryStorageWeakMap s2)(qaObj queryAction \<mapsto> q)\<rparr>)))"
  unfolding call_defs by (simp add: createQueryStorage_body_def Let_def)

lemma restoreQueryStorage_Suc:
  "restoreQueryStorage (Suc n) D q s =
     (if queryMap s (key (queryStorages s q)) \<noteq> None then Ok () s
      else
        (let s1 = (updQuery q (\<lambda>st. st\<lparr>status := Default\<rparr>) s)
                    \<lparr>queryMap := (queryMap s)(key (queryStorages s q) \<mapsto> q)\<rparr>
         in andThen (restoreUpstreams (restoreQueryStorage n D) D q
                       (upstreamSet (queryStorages s1 q)) s1)
              (\<lambda>_ s2. andThen (updateQueryStorage n D q s2) (\<lambda>_ s3. Ok () s3))))"
  unfolding call_defs by (simp add: restoreQueryStorage_body_def Let_def)

lemma getCurrentQueryValue_Suc:
  "getCurrentQueryValue (Suc n) D queryAction s =
     andThen (getQueryStorage n D queryAction s)
       (\<lambda>q s1. andThen (updateWipQueryStorage n D q s1)
          (\<lambda>_ s2. Ok (currentValue (queryStorages s2 q)) s2))"
  unfolding call_defs by (simp add: getCurrentQueryValue_body_def Let_def)

lemma injectedGet_Suc:
  "injectedGet (Suc n) D input s =
     (case input of
        StateInput stateItem \<Rightarrow> getCurrentState D stateItem s
      | QueryInput queryAction \<Rightarrow> getCurrentQueryValue n D queryAction s
      | EntityInput entityItem \<Rightarrow> getCurrentEntity entityItem s)"
  unfolding call_defs by (simp add: injectedGet_body_def Let_def split: getInput.split)

lemma contextGet_Suc:
  "contextGet (Suc n) D InjectedContext input s = injectedGet n D input s"
  "contextGet (Suc n) D (CreateQueryContext q sid) input s =
     (if upstreamSetId (queryStorages s q) \<noteq> sid then injectedGet n D input s
      else
        (case input of
           StateInput stateItem \<Rightarrow>
             (case getStateStorage D stateItem s of
                (u, s1) \<Rightarrow> injectedGet n D input (addEdge q (StateRef u) s1))
         | QueryInput queryAction \<Rightarrow>
             andThen (getQueryStorage n D queryAction s)
               (\<lambda>u s1. injectedGet n D input (addEdge q (QueryRef u) s1))
         | EntityInput entityItem \<Rightarrow> injectedGet n D input s))"
  "contextGet (Suc n) D (UpdateQueryContext q sid) input s =
     (if upstreamSetId (queryStorages s q) \<noteq> sid then injectedGet n D input s
      else
        (case input of
           StateInput stateItem \<Rightarrow>
             (case getStateStorage D stateItem s of
                (u, s1) \<Rightarrow> injectedGet n D input (addEdge q (StateRef u) s1))
         | EntityInput entityItem \<Rightarrow>
             (case getEntityStorage entityItem s of
                (u, s1) \<Rightarrow> injectedGet n D input (addEdge q (EntityRef u) s1))
         | QueryInput queryAction \<Rightarrow>
             andThen (getQueryStorage n D queryAction s)
               (\<lambda>u s1. injectedGet n D input (addEdge q (QueryRef u) s1))))"
  unfolding call_defs by (simp_all add: contextGet_body_def createQueryContext_get_def
        updateQueryContext_get_def Let_def split: getInput.split prod.split)

lemma updateWipQueryStorage_Suc:
  "updateWipQueryStorage (Suc n) D q s =
     (if status (queryStorages s q) \<noteq> Wip then Ok () s
      else
        andThen
          (if wipUpstreamSet (queryStorages s q) \<noteq> []
           then andThen (updateWipUpstreams n D q 0 False s)
                  (\<lambda>shouldUpdate s1.
                     Ok shouldUpdate (updQuery q (\<lambda>st. st\<lparr>wipUpstreamSet := []\<rparr>) s1))
           else Ok True s)
          (\<lambda>shouldUpdate s2.
             if \<not> shouldUpdate then Ok () (updQuery q (\<lambda>st. st\<lparr>status := Default\<rparr>) s2)
             else andThen (updateQueryStorage n D q s2)
                    (\<lambda>isUpdated s3.
                       Ok () (updQuery q
                         (\<lambda>st. st\<lparr>status := (if isUpdated then Updated else Default)\<rparr>) s3))))"
  unfolding call_defs by (simp add: updateWipQueryStorage_body_def Let_def)

lemma updateWipUpstreams_Suc:
  "updateWipUpstreams (Suc n) D q i shouldUpdate s =
     (if i < length (wipUpstreamSet (queryStorages s q))
      then
        (case wipUpstreamSet (queryStorages s q) ! i of
           StateRef u \<Rightarrow> updateWipUpstreams n D q (Suc i) True s
         | QueryRef u \<Rightarrow>
             andThen
               (if status (queryStorages s u) = Wip then updateWipQueryStorage n D u s
                else Ok () s)
               (\<lambda>_ s1. updateWipUpstreams n D q (Suc i)
                  (shouldUpdate \<or> status (queryStorages s1 u) = Updated) s1)
         | EntityRef u \<Rightarrow> updateWipUpstreams n D q (Suc i) shouldUpdate s)
      else Ok shouldUpdate s)"
  unfolding call_defs by (simp add: updateWipUpstreams_body_def Let_def split: ref.split)

lemma updateQueryStorage_Suc:
  "updateQueryStorage (Suc n) D q s =
     (let s1 = fold (detachUpstream q) (upstreamSet (queryStorages s q)) s;
          sid = Suc (upstreamSetId (queryStorages s1 q));
          s2 = updQuery q (\<lambda>st. st\<lparr>upstreamSet := [], upstreamSetId := sid\<rparr>) s1
      in andThen (runProg (contextGet n D (UpdateQueryContext q sid))
                    (queryImpl D (queryId (Query (queryStorages s q))) (arg (queryStorages s q))) s2)
           (\<lambda>newValue s3.
              if queryCompare D (queryId (Query (queryStorages s q)))
                   (currentValue (queryStorages s3 q)) newValue
              then Ok False s3
              else Ok True ((updQuery q (\<lambda>st. st\<lparr>currentValue := newValue\<rparr>) s3)
                     \<lparr>pendingEmitSet := setAdd (EmitQuery q) (pendingEmitSet s3)\<rparr>)))"
  unfolding call_defs by (simp add: updateQueryStorage_body_def Let_def)

text \<open>Evaluation unfolds these equations rather than the table of calls.\<close>

declare calls_0 [code] getQueryStorage_Suc [code] createQueryStorage_Suc [code]
  restoreQueryStorage_Suc [code] getCurrentQueryValue_Suc [code] injectedGet_Suc [code]
  contextGet_Suc [code] updateWipQueryStorage_Suc [code] updateWipUpstreams_Suc [code]
  updateQueryStorage_Suc [code]

section \<open>Basic facts\<close>

lemma andThen_simps [simp]:
  "andThen (Ok a s) f = f a s"
  "andThen (Err e s) f = Err e s"
  "andThen OutOfFuel f = OutOfFuel"
  by (simp_all add: andThen_def)

lemma andThen_assoc:
  "andThen (andThen r f) g = andThen r (\<lambda>a s. andThen (f a s) g)"
  by (cases r) simp_all

text \<open>
  With this congruence rule the simplifier evaluates the first call of a sequence before it
  looks at what follows, as the program does.
\<close>

lemma andThen_weak_cong: "r = r' \<Longrightarrow> andThen r f = andThen r' f"
  by simp

lemma case_OkD:
  "(case r of Ok a s \<Rightarrow> P a s | _ \<Rightarrow> False) \<Longrightarrow> \<exists>a s. r = Ok a s \<and> P a s"
  by (cases r) auto


lemmas eval_defs =
  getQueryStorage_Suc createQueryStorage_Suc restoreQueryStorage_Suc
  getCurrentQueryValue_Suc injectedGet_Suc contextGet_Suc updateWipQueryStorage_Suc
  updateWipUpstreams_Suc updateQueryStorage_Suc
  createStateStorage_def restoreStateStorage_def getStateStorage_def
  createEntityStorage_def restoreEntityStorage_def getEntityStorage_def
  getCurrentState_def getCurrentEntity_def addEdge_def detachUpstream_def
  newQueryStorage_def updState_def updEntity_def updQuery_def downstreamOf_def
  setDownstream_def setAdd_def setDelete_def getThen_def
  updateStateItem_def updateEntityItem_def deleteEntityItem_def clearStateStorage_def
  clearEntityStorage_def handleCommandAction_def shouldClearQueryStorage_def
  clearQueryStorageIfNeeded_def subjectNext_def emitItem_def commit_def send_def
  subscribeQuery_def unsubscribeQuery_def freshValue_def
  stateStorageKey_def entityStorageKey_def queryStorageKey_def argString_def nullish_def
  JSON_stringify_def Let_def eval_nat_numeral

section \<open>Field updates\<close>

lemma updQuery_fields [simp]:
  "queryStorages (updQuery q f s) p = (if p = q then f (queryStorages s q) else queryStorages s p)"
  "uid (updQuery q f s) = uid s"
  "stateStorages (updQuery q f s) = stateStorages s"
  "entityStorages (updQuery q f s) = entityStorages s"
  "stateMap (updQuery q f s) = stateMap s"
  "entityMap (updQuery q f s) = entityMap s"
  "queryMap (updQuery q f s) = queryMap s"
  "stateStorageWeakMap (updQuery q f s) = stateStorageWeakMap s"
  "entityStorageWeakMap (updQuery q f s) = entityStorageWeakMap s"
  "queryStorageWeakMap (updQuery q f s) = queryStorageWeakMap s"
  "pendingEmitSet (updQuery q f s) = pendingEmitSet s"
  "pendingLeafSet (updQuery q f s) = pendingLeafSet s"
  "pendingClearSet (updQuery q f s) = pendingClearSet s"
  "currentTick (updQuery q f s) = currentTick s"
  "microtasks (updQuery q f s) = microtasks s"
  "emitted (updQuery q f s) = emitted s"
  by (simp_all add: updQuery_def)

lemma updState_fields [simp]:
  "stateStorages (updState a f s) b = (if b = a then f (stateStorages s a) else stateStorages s b)"
  "uid (updState a f s) = uid s"
  "queryStorages (updState a f s) = queryStorages s"
  "entityStorages (updState a f s) = entityStorages s"
  "stateMap (updState a f s) = stateMap s"
  "entityMap (updState a f s) = entityMap s"
  "queryMap (updState a f s) = queryMap s"
  "stateStorageWeakMap (updState a f s) = stateStorageWeakMap s"
  "entityStorageWeakMap (updState a f s) = entityStorageWeakMap s"
  "queryStorageWeakMap (updState a f s) = queryStorageWeakMap s"
  "pendingEmitSet (updState a f s) = pendingEmitSet s"
  "pendingLeafSet (updState a f s) = pendingLeafSet s"
  "pendingClearSet (updState a f s) = pendingClearSet s"
  "currentTick (updState a f s) = currentTick s"
  "microtasks (updState a f s) = microtasks s"
  "emitted (updState a f s) = emitted s"
  by (simp_all add: updState_def)

lemma updEntity_fields [simp]:
  "entityStorages (updEntity a f s) b
     = (if b = a then f (entityStorages s a) else entityStorages s b)"
  "uid (updEntity a f s) = uid s"
  "queryStorages (updEntity a f s) = queryStorages s"
  "stateStorages (updEntity a f s) = stateStorages s"
  "stateMap (updEntity a f s) = stateMap s"
  "entityMap (updEntity a f s) = entityMap s"
  "queryMap (updEntity a f s) = queryMap s"
  "stateStorageWeakMap (updEntity a f s) = stateStorageWeakMap s"
  "entityStorageWeakMap (updEntity a f s) = entityStorageWeakMap s"
  "queryStorageWeakMap (updEntity a f s) = queryStorageWeakMap s"
  "pendingEmitSet (updEntity a f s) = pendingEmitSet s"
  "pendingLeafSet (updEntity a f s) = pendingLeafSet s"
  "pendingClearSet (updEntity a f s) = pendingClearSet s"
  "currentTick (updEntity a f s) = currentTick s"
  "microtasks (updEntity a f s) = microtasks s"
  "emitted (updEntity a f s) = emitted s"
  by (simp_all add: updEntity_def)

section \<open>Marking\<close>

lemma markFrame_refl [simp]: "markFrame s s"
  by (simp add: markFrame_def)

lemma markFrame_trans [trans]: "markFrame s t \<Longrightarrow> markFrame t u \<Longrightarrow> markFrame s u"
  by (auto simp: markFrame_def) metis

lemma unmarked_updQuery:
  assumes "\<And>st. (f st)\<lparr>status := Default, wipUpstreamSet := []\<rparr>
                 = st\<lparr>status := Default, wipUpstreamSet := []\<rparr>"
  shows "unmarked (updQuery q f s) = unmarked s"
proof -
  have "(\<lambda>p. (((queryStorages s)(q := f (queryStorages s q))) p)
                \<lparr>status := Default, wipUpstreamSet := []\<rparr>)
      = (\<lambda>p. (queryStorages s p)\<lparr>status := Default, wipUpstreamSet := []\<rparr>)"
    by (rule ext) (simp add: assms)
  then show ?thesis by (simp add: unmarked_def updQuery_def)
qed

lemma unmarked_updQuery_status [simp]:
  "unmarked (updQuery q (\<lambda>st. st\<lparr>status := x\<rparr>) s) = unmarked s"
  by (rule unmarked_updQuery) simp

lemma unmarked_updQuery_wip [simp]:
  "unmarked (updQuery q (\<lambda>st. st\<lparr>wipUpstreamSet := f st\<rparr>) s) = unmarked s"
  by (rule unmarked_updQuery) simp

lemma unmarked_pendingLeafSet [simp]:
  "unmarked (s\<lparr>pendingLeafSet := L\<rparr>) = unmarked s"
  by (simp add: unmarked_def)

lemma markFrame_fields:
  assumes "markFrame s s'"
  shows "uid s' = uid s" "stateStorages s' = stateStorages s"
    "entityStorages s' = entityStorages s"
    "stateMap s' = stateMap s" "entityMap s' = entityMap s" "queryMap s' = queryMap s"
    "stateStorageWeakMap s' = stateStorageWeakMap s"
    "entityStorageWeakMap s' = entityStorageWeakMap s"
    "queryStorageWeakMap s' = queryStorageWeakMap s"
    "pendingEmitSet s' = pendingEmitSet s" "pendingClearSet s' = pendingClearSet s"
    "currentTick s' = currentTick s" "microtasks s' = microtasks s" "emitted s' = emitted s"
proof -
  from assms have u: "unmarked s' = unmarked s" by (simp add: markFrame_def)
  show "uid s' = uid s" using arg_cong [OF u, of uid] by (simp add: unmarked_def)
  show "stateStorages s' = stateStorages s"
    using arg_cong [OF u, of stateStorages] by (simp add: unmarked_def)
  show "entityStorages s' = entityStorages s"
    using arg_cong [OF u, of entityStorages] by (simp add: unmarked_def)
  show "stateMap s' = stateMap s" using arg_cong [OF u, of stateMap] by (simp add: unmarked_def)
  show "entityMap s' = entityMap s"
    using arg_cong [OF u, of entityMap] by (simp add: unmarked_def)
  show "queryMap s' = queryMap s" using arg_cong [OF u, of queryMap] by (simp add: unmarked_def)
  show "stateStorageWeakMap s' = stateStorageWeakMap s"
    using arg_cong [OF u, of stateStorageWeakMap] by (simp add: unmarked_def)
  show "entityStorageWeakMap s' = entityStorageWeakMap s"
    using arg_cong [OF u, of entityStorageWeakMap] by (simp add: unmarked_def)
  show "queryStorageWeakMap s' = queryStorageWeakMap s"
    using arg_cong [OF u, of queryStorageWeakMap] by (simp add: unmarked_def)
  show "pendingEmitSet s' = pendingEmitSet s"
    using arg_cong [OF u, of pendingEmitSet] by (simp add: unmarked_def)
  show "pendingClearSet s' = pendingClearSet s"
    using arg_cong [OF u, of pendingClearSet] by (simp add: unmarked_def)
  show "currentTick s' = currentTick s"
    using arg_cong [OF u, of currentTick] by (simp add: unmarked_def)
  show "microtasks s' = microtasks s"
    using arg_cong [OF u, of microtasks] by (simp add: unmarked_def)
  show "emitted s' = emitted s" using arg_cong [OF u, of emitted] by (simp add: unmarked_def)
qed

lemma markFrame_query_fields:
  assumes "markFrame s s'"
  shows "key (queryStorages s' q) = key (queryStorages s q)"
    "downstreamSet (queryStorages s' q) = downstreamSet (queryStorages s q)"
    "Query (queryStorages s' q) = Query (queryStorages s q)"
    "arg (queryStorages s' q) = arg (queryStorages s q)"
    "currentValue (queryStorages s' q) = currentValue (queryStorages s q)"
    "upstreamSet (queryStorages s' q) = upstreamSet (queryStorages s q)"
    "upstreamSetId (queryStorages s' q) = upstreamSetId (queryStorages s q)"
    "refCount (queryStorages s' q) = refCount (queryStorages s q)"
proof -
  from assms have u: "unmarked s' = unmarked s" by (simp add: markFrame_def)
  have e: "(queryStorages s' q)\<lparr>status := Default, wipUpstreamSet := []\<rparr>
         = (queryStorages s q)\<lparr>status := Default, wipUpstreamSet := []\<rparr>"
    using arg_cong [OF u, of "\<lambda>t. queryStorages t q"] by (simp add: unmarked_def)
  show "key (queryStorages s' q) = key (queryStorages s q)"
    using arg_cong [OF e, of key] by simp
  show "downstreamSet (queryStorages s' q) = downstreamSet (queryStorages s q)"
    using arg_cong [OF e, of downstreamSet] by simp
  show "Query (queryStorages s' q) = Query (queryStorages s q)"
    using arg_cong [OF e, of Query] by simp
  show "arg (queryStorages s' q) = arg (queryStorages s q)"
    using arg_cong [OF e, of arg] by simp
  show "currentValue (queryStorages s' q) = currentValue (queryStorages s q)"
    using arg_cong [OF e, of currentValue] by simp
  show "upstreamSet (queryStorages s' q) = upstreamSet (queryStorages s q)"
    using arg_cong [OF e, of upstreamSet] by simp
  show "upstreamSetId (queryStorages s' q) = upstreamSetId (queryStorages s q)"
    using arg_cong [OF e, of upstreamSetId] by simp
  show "refCount (queryStorages s' q) = refCount (queryStorages s q)"
    using arg_cong [OF e, of refCount] by simp
qed

lemma markFrame_Wip:
  "markFrame s s' \<Longrightarrow> status (queryStorages s q) = Wip \<Longrightarrow> status (queryStorages s' q) = Wip"
  by (auto simp: markFrame_def)

lemma markFrame_setStatus:
  "markFrame s (updQuery q (\<lambda>st. st\<lparr>status := Wip\<rparr>) s)"
  by (simp add: markFrame_def)

lemma markFrame_setWip:
  "markFrame s (updQuery q (\<lambda>st. st\<lparr>wipUpstreamSet := f st\<rparr>) s)"
  by (simp add: markFrame_def)

lemma markFrame_pendingLeafSet: "markFrame s (s\<lparr>pendingLeafSet := L\<rparr>)"
  by (simp add: markFrame_def)

lemma markDownstreams_frame:
  assumes mk: "\<And>d t u t'. mk d t = Ok u t' \<Longrightarrow> markFrame t t'"
  shows "markDownstreams mk q ds s = Ok u s' \<Longrightarrow> markFrame s s'"
proof (induction ds arbitrary: s)
  case Nil
  then show ?case by simp
next
  case (Cons d ds)
  show ?case
  proof (cases "QueryRef q \<notin> set (wipUpstreamSet (queryStorages s d))")
    case True
    let ?t = "updQuery d (\<lambda>st. st\<lparr>wipUpstreamSet := setAdd (QueryRef q) (wipUpstreamSet st)\<rparr>) s"
    from Cons.prems True obtain t' where a: "mk d ?t = Ok () t'"
      and b: "markDownstreams mk q ds t' = Ok u s'"
      by (auto simp: andThen_def split: result.splits)
    have "markFrame s ?t" by (rule markFrame_setWip)
    also have "markFrame ?t t'" using a by (rule mk)
    also have "markFrame t' s'" using b by (rule Cons.IH)
    finally show ?thesis .
  next
    case False
    with Cons show ?thesis by simp
  qed
qed

lemma mark_frame: "mark n q s = Ok u s' \<Longrightarrow> markFrame s s'"
proof (induction n arbitrary: q s u s')
  case 0
  then show ?case by simp
next
  case (Suc n)
  let ?s1 = "updQuery q (\<lambda>st. st\<lparr>status := Wip\<rparr>) s"
  have f1: "markFrame s ?s1" by (rule markFrame_setStatus)
  show ?case
  proof (cases "downstreamSet (queryStorages ?s1 q) \<noteq> []")
    case True
    with Suc.prems
    have "markDownstreams (mark n) q (downstreamSet (queryStorages ?s1 q)) ?s1 = Ok u s'"
      by (simp add: Let_def)
    then have "markFrame ?s1 s'"
      by (rule markDownstreams_frame [rotated]) (rule Suc.IH)
    with f1 show ?thesis by (rule markFrame_trans)
  next
    case False
    with Suc.prems have "s' = ?s1\<lparr>pendingLeafSet := setAdd q (pendingLeafSet ?s1)\<rparr>"
      by (simp add: Let_def)
    then have "markFrame ?s1 s'" by (simp add: markFrame_pendingLeafSet)
    with f1 show ?thesis by (rule markFrame_trans)
  qed
qed

lemma mark_sets_Wip: "mark n q s = Ok u s' \<Longrightarrow> status (queryStorages s' q) = Wip"
proof (cases n)
  case 0
  then show "mark n q s = Ok u s' \<Longrightarrow> ?thesis" by simp
next
  case (Suc m)
  assume a: "mark n q s = Ok u s'"
  let ?s1 = "updQuery q (\<lambda>st. st\<lparr>status := Wip\<rparr>) s"
  have w: "status (queryStorages ?s1 q) = Wip" by simp
  show ?thesis
  proof (cases "downstreamSet (queryStorages ?s1 q) \<noteq> []")
    case True
    with a Suc
    have "markDownstreams (mark m) q (downstreamSet (queryStorages ?s1 q)) ?s1 = Ok u s'"
      by (simp add: Let_def)
    then have "markFrame ?s1 s'"
      by (rule markDownstreams_frame [rotated]) (rule mark_frame)
    then show ?thesis using w by (rule markFrame_Wip)
  next
    case False
    with a Suc have "s' = ?s1\<lparr>pendingLeafSet := setAdd q (pendingLeafSet ?s1)\<rparr>"
      by (simp add: Let_def)
    then show ?thesis by simp
  qed
qed

lemma mark_not_Err: "mark n q s \<noteq> Err e s'"
proof (induction n arbitrary: q s)
  case 0
  then show ?case by simp
next
  case (Suc n)
  have md: "markDownstreams (mark n) p ds t \<noteq> Err e s'" for p ds t
  proof (induction ds arbitrary: t)
    case Nil
    then show ?case by simp
  next
    case (Cons d ds)
    then show ?case using Suc by (auto simp: andThen_def split: result.splits)
  qed
  show ?case using md by (simp add: Let_def)
qed

lemma markEach_frame:
  "markEach n ds s = Ok u s' \<Longrightarrow>
   markFrame s s' \<and> (\<forall>d \<in> set ds. status (queryStorages s' d) = Wip)"
proof (induction ds arbitrary: s)
  case Nil
  then show ?case by simp
next
  case (Cons d ds)
  from Cons.prems obtain t where a: "mark n d s = Ok () t" and b: "markEach n ds t = Ok u s'"
    by (auto simp: andThen_def split: result.splits)
  from a have f: "markFrame s t" by (rule mark_frame)
  from a have w: "status (queryStorages t d) = Wip" by (rule mark_sets_Wip)
  from Cons.IH [OF b] have g: "markFrame t s'"
    and r: "\<forall>d \<in> set ds. status (queryStorages s' d) = Wip" by simp_all
  from g w have "status (queryStorages s' d) = Wip" by (rule markFrame_Wip)
  with r markFrame_trans [OF f g] show ?case by simp
qed

lemma markEach_not_Err: "markEach n ds s \<noteq> Err e s'"
  by (induction ds arbitrary: s) (auto simp: andThen_def mark_not_Err split: result.splits)

lemma markFrom_frame:
  "markFrom n r ds s = Ok u s' \<Longrightarrow>
   markFrame s s' \<and> (\<forall>d \<in> set ds. status (queryStorages s' d) = Wip)"
proof (induction ds arbitrary: s)
  case Nil
  then show ?case by simp
next
  case (Cons d ds)
  let ?t = "updQuery d (\<lambda>st. st\<lparr>wipUpstreamSet := setAdd r (wipUpstreamSet st)\<rparr>) s"
  from Cons.prems obtain t where a: "mark n d ?t = Ok () t" and b: "markFrom n r ds t = Ok u s'"
    by (auto simp: andThen_def split: result.splits)
  have "markFrame s ?t" by (rule markFrame_setWip)
  then have f: "markFrame s t" using mark_frame [OF a] by (rule markFrame_trans)
  from a have w: "status (queryStorages t d) = Wip" by (rule mark_sets_Wip)
  from Cons.IH [OF b] have g: "markFrame t s'"
    and r: "\<forall>d \<in> set ds. status (queryStorages s' d) = Wip" by simp_all
  from g w have "status (queryStorages s' d) = Wip" by (rule markFrame_Wip)
  with r markFrame_trans [OF f g] show ?case by simp
qed

lemma markFrom_not_Err: "markFrom n r ds s \<noteq> Err e s'"
  by (induction ds arbitrary: s) (auto simp: andThen_def mark_not_Err split: result.splits)

section \<open>Sets as lists, and edges\<close>

lemma set_setAdd [simp]: "set (setAdd x xs) = insert x (set xs)"
  by (auto simp: setAdd_def)

lemma set_setDelete [simp]: "set (setDelete x xs) = set xs - {x}"
  by (auto simp: setDelete_def)

lemma refAddr_simps [simp]:
  "refAddr (StateRef a) = a" "refAddr (EntityRef a) = a" "refAddr (QueryRef a) = a"
  by (simp_all add: refAddr_def)

lemma downstreamOf_simps:
  "downstreamOf s (StateRef a) = downstreamSet (stateStorages s a)"
  "downstreamOf s (EntityRef a) = downstreamSet (entityStorages s a)"
  "downstreamOf s (QueryRef a) = downstreamSet (queryStorages s a)"
  by (simp_all add: downstreamOf_def)

lemma downstreamOf_updQuery:
  "(\<And>st. downstreamSet (f st) = downstreamSet st) \<Longrightarrow>
   downstreamOf (updQuery q f s) r = downstreamOf s r"
  by (cases r) (simp_all add: downstreamOf_simps)

lemma downstreamOf_setDownstream [simp]:
  "downstreamOf (setDownstream r d s) r' = (if r' = r then d else downstreamOf s r')"
  by (cases r; cases r') (simp_all add: setDownstream_def downstreamOf_simps)

lemma setDownstream_fields [simp]:
  "uid (setDownstream r d s) = uid s"
  "stateMap (setDownstream r d s) = stateMap s"
  "entityMap (setDownstream r d s) = entityMap s"
  "queryMap (setDownstream r d s) = queryMap s"
  "stateStorageWeakMap (setDownstream r d s) = stateStorageWeakMap s"
  "entityStorageWeakMap (setDownstream r d s) = entityStorageWeakMap s"
  "queryStorageWeakMap (setDownstream r d s) = queryStorageWeakMap s"
  "pendingEmitSet (setDownstream r d s) = pendingEmitSet s"
  "pendingLeafSet (setDownstream r d s) = pendingLeafSet s"
  "pendingClearSet (setDownstream r d s) = pendingClearSet s"
  "currentTick (setDownstream r d s) = currentTick s"
  "microtasks (setDownstream r d s) = microtasks s"
  "emitted (setDownstream r d s) = emitted s"
  by (cases r; simp add: setDownstream_def)+

lemma setDownstream_query_fields [simp]:
  "key (queryStorages (setDownstream r d s) q) = key (queryStorages s q)"
  "Query (queryStorages (setDownstream r d s) q) = Query (queryStorages s q)"
  "arg (queryStorages (setDownstream r d s) q) = arg (queryStorages s q)"
  "currentValue (queryStorages (setDownstream r d s) q) = currentValue (queryStorages s q)"
  "upstreamSet (queryStorages (setDownstream r d s) q) = upstreamSet (queryStorages s q)"
  "upstreamSetId (queryStorages (setDownstream r d s) q) = upstreamSetId (queryStorages s q)"
  "refCount (queryStorages (setDownstream r d s) q) = refCount (queryStorages s q)"
  "status (queryStorages (setDownstream r d s) q) = status (queryStorages s q)"
  "wipUpstreamSet (queryStorages (setDownstream r d s) q) = wipUpstreamSet (queryStorages s q)"
  by (cases r; simp add: setDownstream_def)+

lemma setDownstream_other_fields [simp]:
  "key (stateStorages (setDownstream r d s) a) = key (stateStorages s a)"
  "State (stateStorages (setDownstream r d s) a) = State (stateStorages s a)"
  "currentState (stateStorages (setDownstream r d s) a) = currentState (stateStorages s a)"
  "key (entityStorages (setDownstream r d s) a) = key (entityStorages s a)"
  "Entity (entityStorages (setDownstream r d s) a) = Entity (entityStorages s a)"
  "currentEntity (entityStorages (setDownstream r d s) a) = currentEntity (entityStorages s a)"
  by (cases r; simp add: setDownstream_def)+

lemma addEdge_fields [simp]:
  "uid (addEdge q r s) = uid s"
  "stateMap (addEdge q r s) = stateMap s"
  "entityMap (addEdge q r s) = entityMap s"
  "queryMap (addEdge q r s) = queryMap s"
  "stateStorageWeakMap (addEdge q r s) = stateStorageWeakMap s"
  "entityStorageWeakMap (addEdge q r s) = entityStorageWeakMap s"
  "queryStorageWeakMap (addEdge q r s) = queryStorageWeakMap s"
  "pendingEmitSet (addEdge q r s) = pendingEmitSet s"
  "pendingLeafSet (addEdge q r s) = pendingLeafSet s"
  "pendingClearSet (addEdge q r s) = pendingClearSet s"
  "currentTick (addEdge q r s) = currentTick s"
  "microtasks (addEdge q r s) = microtasks s"
  "emitted (addEdge q r s) = emitted s"
  by (simp_all add: addEdge_def Let_def)

lemma addEdge_query_fields [simp]:
  "key (queryStorages (addEdge q r s) p) = key (queryStorages s p)"
  "Query (queryStorages (addEdge q r s) p) = Query (queryStorages s p)"
  "arg (queryStorages (addEdge q r s) p) = arg (queryStorages s p)"
  "currentValue (queryStorages (addEdge q r s) p) = currentValue (queryStorages s p)"
  "upstreamSetId (queryStorages (addEdge q r s) p) = upstreamSetId (queryStorages s p)"
  "refCount (queryStorages (addEdge q r s) p) = refCount (queryStorages s p)"
  "status (queryStorages (addEdge q r s) p) = status (queryStorages s p)"
  "wipUpstreamSet (queryStorages (addEdge q r s) p) = wipUpstreamSet (queryStorages s p)"
  "upstreamSet (queryStorages (addEdge q r s) p)
     = (if p = q then setAdd r (upstreamSet (queryStorages s q))
        else upstreamSet (queryStorages s p))"
  by (simp_all add: addEdge_def Let_def)

lemma addEdge_other_fields [simp]:
  "key (entityStorages (addEdge q r s) a) = key (entityStorages s a)"
  "currentEntity (entityStorages (addEdge q r s) a) = currentEntity (entityStorages s a)"
  "key (stateStorages (addEdge q r s) a) = key (stateStorages s a)"
  "currentState (stateStorages (addEdge q r s) a) = currentState (stateStorages s a)"
  by (simp_all add: addEdge_def Let_def)

lemma downstreamOf_addEdge [simp]:
  "downstreamOf (addEdge q r s) r'
     = (if r' = r then setAdd q (downstreamOf s r) else downstreamOf s r')"
  by (simp add: addEdge_def Let_def downstreamOf_updQuery)

lemma detachUpstream_fields [simp]:
  "uid (detachUpstream q r s) = uid s"
  "stateMap (detachUpstream q r s) = stateMap s"
  "entityMap (detachUpstream q r s) = entityMap s"
  "queryMap (detachUpstream q r s) = queryMap s"
  "stateStorageWeakMap (detachUpstream q r s) = stateStorageWeakMap s"
  "entityStorageWeakMap (detachUpstream q r s) = entityStorageWeakMap s"
  "queryStorageWeakMap (detachUpstream q r s) = queryStorageWeakMap s"
  "pendingEmitSet (detachUpstream q r s) = pendingEmitSet s"
  "pendingLeafSet (detachUpstream q r s) = pendingLeafSet s"
  "currentTick (detachUpstream q r s) = currentTick s"
  "microtasks (detachUpstream q r s) = microtasks s"
  "emitted (detachUpstream q r s) = emitted s"
  by (simp_all add: detachUpstream_def Let_def split: ref.splits)

lemma detachUpstream_query_fields [simp]:
  "key (queryStorages (detachUpstream q r s) p) = key (queryStorages s p)"
  "Query (queryStorages (detachUpstream q r s) p) = Query (queryStorages s p)"
  "arg (queryStorages (detachUpstream q r s) p) = arg (queryStorages s p)"
  "currentValue (queryStorages (detachUpstream q r s) p) = currentValue (queryStorages s p)"
  "upstreamSet (queryStorages (detachUpstream q r s) p) = upstreamSet (queryStorages s p)"
  "upstreamSetId (queryStorages (detachUpstream q r s) p) = upstreamSetId (queryStorages s p)"
  "refCount (queryStorages (detachUpstream q r s) p) = refCount (queryStorages s p)"
  "status (queryStorages (detachUpstream q r s) p) = status (queryStorages s p)"
  "wipUpstreamSet (queryStorages (detachUpstream q r s) p) = wipUpstreamSet (queryStorages s p)"
  by (simp_all add: detachUpstream_def Let_def split: ref.splits)

lemma downstreamOf_pendingClearSet [simp]:
  "downstreamOf (s\<lparr>pendingClearSet := x\<rparr>) r = downstreamOf s r"
  by (cases r) (simp_all add: downstreamOf_simps)

lemma downstreamOf_detachUpstream [simp]:
  "downstreamOf (detachUpstream q r s) r'
     = (if r' = r then setDelete q (downstreamOf s r) else downstreamOf s r')"
  by (simp add: detachUpstream_def Let_def split: ref.splits)

lemma fold_detach_fields [simp]:
  "uid (fold (detachUpstream q) rs s) = uid s"
  "stateMap (fold (detachUpstream q) rs s) = stateMap s"
  "entityMap (fold (detachUpstream q) rs s) = entityMap s"
  "queryMap (fold (detachUpstream q) rs s) = queryMap s"
  "stateStorageWeakMap (fold (detachUpstream q) rs s) = stateStorageWeakMap s"
  "entityStorageWeakMap (fold (detachUpstream q) rs s) = entityStorageWeakMap s"
  "queryStorageWeakMap (fold (detachUpstream q) rs s) = queryStorageWeakMap s"
  "pendingEmitSet (fold (detachUpstream q) rs s) = pendingEmitSet s"
  "pendingLeafSet (fold (detachUpstream q) rs s) = pendingLeafSet s"
  "currentTick (fold (detachUpstream q) rs s) = currentTick s"
  "microtasks (fold (detachUpstream q) rs s) = microtasks s"
  "emitted (fold (detachUpstream q) rs s) = emitted s"
  by (induction rs arbitrary: s; simp)+

lemma fold_detach_query_fields [simp]:
  "key (queryStorages (fold (detachUpstream q) rs s) p) = key (queryStorages s p)"
  "Query (queryStorages (fold (detachUpstream q) rs s) p) = Query (queryStorages s p)"
  "arg (queryStorages (fold (detachUpstream q) rs s) p) = arg (queryStorages s p)"
  "currentValue (queryStorages (fold (detachUpstream q) rs s) p) = currentValue (queryStorages s p)"
  "upstreamSet (queryStorages (fold (detachUpstream q) rs s) p) = upstreamSet (queryStorages s p)"
  "upstreamSetId (queryStorages (fold (detachUpstream q) rs s) p)
     = upstreamSetId (queryStorages s p)"
  "refCount (queryStorages (fold (detachUpstream q) rs s) p) = refCount (queryStorages s p)"
  "status (queryStorages (fold (detachUpstream q) rs s) p) = status (queryStorages s p)"
  "wipUpstreamSet (queryStorages (fold (detachUpstream q) rs s) p)
     = wipUpstreamSet (queryStorages s p)"
  by (induction rs arbitrary: s; simp)+

lemma set_downstreamOf_fold_detach:
  "set (downstreamOf (fold (detachUpstream q) rs s) r)
     = (if r \<in> set rs then set (downstreamOf s r) - {q} else set (downstreamOf s r))"
  by (induction rs arbitrary: s) auto

section \<open>The frame of the query functions\<close>

lemma frame_refl [simp]: "frame XF XG s s"
  by (simp add: frame_def)

lemma frame_mono: "frame XF XG s s' \<Longrightarrow> XF \<subseteq> XF' \<Longrightarrow> XG \<subseteq> XG' \<Longrightarrow> frame XF' XG' s s'"
  unfolding frame_def by (intro conjI allI impI; (elim conjE)?; blast)

lemma frame_uid: "frame XF XG s s' \<Longrightarrow> uid s \<le> uid s'"
  by (simp add: frame_def)

lemma frame_emitted: "frame XF XG s s' \<Longrightarrow> emitted s' = emitted s"
  by (simp add: frame_def)

lemma frame_pendingEmitSet: "frame XF XG s s' \<Longrightarrow> set (pendingEmitSet s) \<subseteq> set (pendingEmitSet s')"
  by (simp add: frame_def)

lemma frame_queryMap: "frame XF XG s s' \<Longrightarrow> queryMap s k \<noteq> None \<Longrightarrow> queryMap s' k \<noteq> None"
  by (simp add: frame_def)

lemma frame_query:
  assumes "frame XF XG s s'" and "q < uid s"
  shows "key (queryStorages s' q) = key (queryStorages s q)"
    and "Query (queryStorages s' q) = Query (queryStorages s q)"
    and "arg (queryStorages s' q) = arg (queryStorages s q)"
    and "upstreamSetId (queryStorages s q) \<le> upstreamSetId (queryStorages s' q)"
  using assms by (simp_all add: frame_def)

lemma frame_value:
  assumes "frame XF XG s s'" and "q < uid s"
    and "upstreamSetId (queryStorages s' q) = upstreamSetId (queryStorages s q)"
  shows "currentValue (queryStorages s' q) = currentValue (queryStorages s q)"
    and "EmitQuery q \<in> set (pendingEmitSet s') \<Longrightarrow> EmitQuery q \<in> set (pendingEmitSet s)"
  using assms by (simp_all add: frame_def)

lemma frame_edges:
  assumes "frame XF XG s s'" and "q < uid s" and "q \<notin> XF"
    and "upstreamSetId (queryStorages s' q) = upstreamSetId (queryStorages s q)"
  shows "upstreamSet (queryStorages s' q) = upstreamSet (queryStorages s q)"
    and "refAddr r < uid s \<Longrightarrow> q \<in> set (downstreamOf s r) \<Longrightarrow> q \<in> set (downstreamOf s' r)"
  using assms by (simp_all add: frame_def)

lemma frame_settled:
  assumes "frame XF XG s s'" and "q < uid s" and "q \<notin> XG"
    and "status (queryStorages s q) \<noteq> Wip" and "queryMap s (key (queryStorages s q)) \<noteq> None"
  shows "upstreamSetId (queryStorages s' q) = upstreamSetId (queryStorages s q)"
    and "status (queryStorages s' q) \<noteq> Wip"
    and "queryMap s' (key (queryStorages s' q)) \<noteq> None"
  using assms by (simp_all add: frame_def)

lemma frame_updated:
  assumes "frame XF XG s s'" and "q < uid s" and "status (queryStorages s' q) = Updated"
  shows "status (queryStorages s q) = Updated \<or> EmitQuery q \<in> set (pendingEmitSet s')"
  using assms by (simp add: frame_def)

lemma frameI:
  assumes "uid s \<le> uid s'" and "emitted s' = emitted s"
    and "set (pendingEmitSet s) \<subseteq> set (pendingEmitSet s')"
    and "\<And>k. queryMap s k \<noteq> None \<Longrightarrow> queryMap s' k \<noteq> None"
    and "\<And>q. q < uid s \<Longrightarrow> key (queryStorages s' q) = key (queryStorages s q)"
    and "\<And>q. q < uid s \<Longrightarrow> Query (queryStorages s' q) = Query (queryStorages s q)"
    and "\<And>q. q < uid s \<Longrightarrow> arg (queryStorages s' q) = arg (queryStorages s q)"
    and "\<And>q. q < uid s \<Longrightarrow>
           upstreamSetId (queryStorages s q) \<le> upstreamSetId (queryStorages s' q)"
    and "\<And>q. q < uid s \<Longrightarrow>
           upstreamSetId (queryStorages s' q) = upstreamSetId (queryStorages s q) \<Longrightarrow>
           currentValue (queryStorages s' q) = currentValue (queryStorages s q)"
    and "\<And>q. q < uid s \<Longrightarrow>
           upstreamSetId (queryStorages s' q) = upstreamSetId (queryStorages s q) \<Longrightarrow>
           EmitQuery q \<in> set (pendingEmitSet s') \<Longrightarrow> EmitQuery q \<in> set (pendingEmitSet s)"
    and "\<And>q. q < uid s \<Longrightarrow> q \<notin> XF \<Longrightarrow>
           upstreamSetId (queryStorages s' q) = upstreamSetId (queryStorages s q) \<Longrightarrow>
           upstreamSet (queryStorages s' q) = upstreamSet (queryStorages s q)"
    and "\<And>q r. q < uid s \<Longrightarrow> q \<notin> XF \<Longrightarrow>
           upstreamSetId (queryStorages s' q) = upstreamSetId (queryStorages s q) \<Longrightarrow>
           refAddr r < uid s \<Longrightarrow> q \<in> set (downstreamOf s r) \<Longrightarrow>
           q \<in> set (downstreamOf s' r)"
    and "\<And>q. q < uid s \<Longrightarrow> q \<notin> XG \<Longrightarrow> status (queryStorages s q) \<noteq> Wip \<Longrightarrow>
           queryMap s (key (queryStorages s q)) \<noteq> None \<Longrightarrow>
           upstreamSetId (queryStorages s' q) = upstreamSetId (queryStorages s q)
           \<and> status (queryStorages s' q) \<noteq> Wip"
    and "\<And>q. q < uid s \<Longrightarrow> status (queryStorages s' q) = Updated \<Longrightarrow>
           status (queryStorages s q) = Updated \<or> EmitQuery q \<in> set (pendingEmitSet s')"
  shows "frame XF XG s s'"
  unfolding frame_def using assms by blast

lemma frame_trans:
  assumes a: "frame XF XG s t" and b: "frame XF' XG' t u"
  shows "frame (XF \<union> XF') (XG \<union> XG') s u"
proof (rule frameI)
  show "uid s \<le> uid u" using frame_uid [OF a] frame_uid [OF b] by simp
  show "emitted u = emitted s" using frame_emitted [OF a] frame_emitted [OF b] by simp
  show "set (pendingEmitSet s) \<subseteq> set (pendingEmitSet u)"
    using frame_pendingEmitSet [OF a] frame_pendingEmitSet [OF b] by blast
  show "queryMap u k \<noteq> None" if "queryMap s k \<noteq> None" for k
    using that frame_queryMap [OF a] frame_queryMap [OF b] by blast
next
  fix q assume q: "q < uid s"
  then have q': "q < uid t" using frame_uid [OF a] by simp
  note A = frame_query [OF a q] and B = frame_query [OF b q']
  show "key (queryStorages u q) = key (queryStorages s q)" using A B by simp
  show "Query (queryStorages u q) = Query (queryStorages s q)" using A B by simp
  show "arg (queryStorages u q) = arg (queryStorages s q)" using A B by simp
  show "upstreamSetId (queryStorages s q) \<le> upstreamSetId (queryStorages u q)"
    using A B by simp
  {
    assume e: "upstreamSetId (queryStorages u q) = upstreamSetId (queryStorages s q)"
    then have e1: "upstreamSetId (queryStorages t q) = upstreamSetId (queryStorages s q)"
      and e2: "upstreamSetId (queryStorages u q) = upstreamSetId (queryStorages t q)"
      using A(4) B(4) by simp_all
    show "currentValue (queryStorages u q) = currentValue (queryStorages s q)"
      using frame_value(1) [OF a q e1] frame_value(1) [OF b q' e2] by simp
    show "EmitQuery q \<in> set (pendingEmitSet s)" if "EmitQuery q \<in> set (pendingEmitSet u)"
      using that frame_value(2) [OF a q e1] frame_value(2) [OF b q' e2] by blast
    {
      assume x: "q \<notin> XF \<union> XF'"
      then have x1: "q \<notin> XF" and x2: "q \<notin> XF'" by simp_all
      show "upstreamSet (queryStorages u q) = upstreamSet (queryStorages s q)"
        using frame_edges(1) [OF a q x1 e1] frame_edges(1) [OF b q' x2 e2] by simp
      show "q \<in> set (downstreamOf u r)"
        if "refAddr r < uid s" and "q \<in> set (downstreamOf s r)" for r
      proof -
        from that have "q \<in> set (downstreamOf t r)" by (rule frame_edges(2) [OF a q x1 e1])
        moreover from that(1) have "refAddr r < uid t" using frame_uid [OF a] by simp
        ultimately show ?thesis by (rule frame_edges(2) [OF b q' x2 e2, rotated])
      qed
    }
  }
  {
    assume x: "q \<notin> XG \<union> XG'" and w: "status (queryStorages s q) \<noteq> Wip"
      and m: "queryMap s (key (queryStorages s q)) \<noteq> None"
    then have x1: "q \<notin> XG" and x2: "q \<notin> XG'" by simp_all
    note S = frame_settled [OF a q x1 w m]
    note T = frame_settled [OF b q' x2 S(2) S(3)]
    show "upstreamSetId (queryStorages u q) = upstreamSetId (queryStorages s q)
           \<and> status (queryStorages u q) \<noteq> Wip"
      using S T by simp
  }
  show "status (queryStorages s q) = Updated \<or> EmitQuery q \<in> set (pendingEmitSet u)"
    if "status (queryStorages u q) = Updated"
    using frame_updated [OF b q' that] frame_updated [OF a q] frame_pendingEmitSet [OF b]
    by blast
qed

lemma frame_trans' :
  "frame XF XG s t \<Longrightarrow> frame XF XG t u \<Longrightarrow> frame XF XG s u"
  using frame_trans [of XF XG s t XF XG u] by simp

text \<open>A query that was given a new \<^verbatim>\<open>upstreamSet\<close> object, or did not exist, needs no exemption.\<close>

lemma frame_dropF:
  assumes a: "frame XF XG s s'"
    and x: "\<And>q. q \<in> XF \<Longrightarrow> q < uid s \<Longrightarrow>
              upstreamSetId (queryStorages s q) < upstreamSetId (queryStorages s' q)"
  shows "frame {} XG s s'"
proof (rule frameI)
  fix q assume q: "q < uid s"
  {
    assume e: "upstreamSetId (queryStorages s' q) = upstreamSetId (queryStorages s q)"
    then have n: "q \<notin> XF" using x [OF _ q] by fastforce
    show "upstreamSet (queryStorages s' q) = upstreamSet (queryStorages s q)"
      using frame_edges(1) [OF a q n e] .
    show "q \<in> set (downstreamOf s' r)"
      if "refAddr r < uid s" and "q \<in> set (downstreamOf s r)" for r
      using that by (rule frame_edges(2) [OF a q n e])
  }
qed (use a in \<open>simp_all add: frame_def\<close>)

lemma frame_dropG:
  assumes a: "frame XF XG s s'"
    and x: "\<And>q. q \<in> XG \<Longrightarrow> q < uid s \<Longrightarrow>
              status (queryStorages s q) = Wip \<or> queryMap s (key (queryStorages s q)) = None"
  shows "frame XF {} s s'"
proof (rule frameI)
  fix q assume q: "q < uid s" and w: "status (queryStorages s q) \<noteq> Wip"
    and m: "queryMap s (key (queryStorages s q)) \<noteq> None"
  have n: "q \<notin> XG" using x [OF _ q] w m by auto
  show "upstreamSetId (queryStorages s' q) = upstreamSetId (queryStorages s q)
        \<and> status (queryStorages s' q) \<noteq> Wip"
    using frame_settled(1,2) [OF a q n w m] by simp
qed (use a in \<open>simp_all add: frame_def\<close>)

section \<open>The stores that the operations build\<close>

lemma downstreamOf_record_updates [simp]:
  "downstreamOf (s\<lparr>uid := u\<rparr>) r = downstreamOf s r"
  "downstreamOf (s\<lparr>stateMap := m\<rparr>) r = downstreamOf s r"
  "downstreamOf (s\<lparr>entityMap := m\<rparr>) r = downstreamOf s r"
  "downstreamOf (s\<lparr>queryMap := m\<rparr>) r = downstreamOf s r"
  "downstreamOf (s\<lparr>stateStorageWeakMap := w\<rparr>) r = downstreamOf s r"
  "downstreamOf (s\<lparr>entityStorageWeakMap := w\<rparr>) r = downstreamOf s r"
  "downstreamOf (s\<lparr>queryStorageWeakMap := w\<rparr>) r = downstreamOf s r"
  "downstreamOf (s\<lparr>pendingEmitSet := e\<rparr>) r = downstreamOf s r"
  "downstreamOf (s\<lparr>pendingLeafSet := l\<rparr>) r = downstreamOf s r"
  "downstreamOf (s\<lparr>currentTick := t\<rparr>) r = downstreamOf s r"
  "downstreamOf (s\<lparr>microtasks := ms\<rparr>) r = downstreamOf s r"
  "downstreamOf (s\<lparr>emitted := ns\<rparr>) r = downstreamOf s r"
  by (cases r; simp add: downstreamOf_simps)+

lemma downstreamOf_updQuery_simps [simp]:
  "downstreamOf (updQuery q (\<lambda>st. st\<lparr>status := x\<rparr>) s) r = downstreamOf s r"
  "downstreamOf (updQuery q (\<lambda>st. st\<lparr>wipUpstreamSet := w\<rparr>) s) r = downstreamOf s r"
  "downstreamOf (updQuery q (\<lambda>st. st\<lparr>wipUpstreamSet := fw st\<rparr>) s) r = downstreamOf s r"
  "downstreamOf (updQuery q (\<lambda>st. st\<lparr>currentValue := v\<rparr>) s) r = downstreamOf s r"
  "downstreamOf (updQuery q (\<lambda>st. st\<lparr>upstreamSet := us, upstreamSetId := i\<rparr>) s) r
     = downstreamOf s r"
  "downstreamOf (updQuery q (\<lambda>st. st\<lparr>refCount := fr st\<rparr>) s) r = downstreamOf s r"
  by (simp_all add: downstreamOf_updQuery)

lemma downstreamOf_updState_value [simp]:
  "downstreamOf (updState a (\<lambda>st. st\<lparr>currentState := v st\<rparr>) s) r = downstreamOf s r"
  by (cases r) (simp_all add: downstreamOf_simps)

lemma downstreamOf_updEntity_value [simp]:
  "downstreamOf (updEntity a (\<lambda>st. st\<lparr>currentEntity := v st\<rparr>) s) r = downstreamOf s r"
  by (cases r) (simp_all add: downstreamOf_simps)

lemma storeInv_D:
  assumes "storeInv s"
  shows "stateMap s k = Some a \<Longrightarrow> a < uid s"
    and "entityMap s k = Some a \<Longrightarrow> a < uid s"
    and "queryMap s k = Some a \<Longrightarrow> a < uid s"
    and "stateStorageWeakMap s n = Some a \<Longrightarrow> a < uid s"
    and "entityStorageWeakMap s n = Some a \<Longrightarrow> a < uid s"
    and "queryStorageWeakMap s n = Some a \<Longrightarrow> a < uid s"
    and "r \<in> set (upstreamSet (queryStorages s q)) \<Longrightarrow> refAddr r < uid s"
    and "r \<in> set (wipUpstreamSet (queryStorages s q)) \<Longrightarrow> refAddr r < uid s"
    and "q \<in> set (downstreamOf s r) \<Longrightarrow> q < uid s"
    and "q \<in> set (pendingLeafSet s) \<Longrightarrow> q < uid s"
    and "q \<in> set (downstreamOf s r) \<Longrightarrow> r \<in> set (upstreamSet (queryStorages s q))"
proof -
  have a: "allocated s" and d: "downstreamRecorded s" using assms by (simp_all add: storeInv_def)
  show "stateMap s k = Some a \<Longrightarrow> a < uid s" using a unfolding allocated_def by (elim conjE) fast
  show "entityMap s k = Some a \<Longrightarrow> a < uid s" using a unfolding allocated_def by (elim conjE) fast
  show "queryMap s k = Some a \<Longrightarrow> a < uid s" using a unfolding allocated_def by (elim conjE) fast
  show "stateStorageWeakMap s n = Some a \<Longrightarrow> a < uid s"
    using a unfolding allocated_def by (elim conjE) fast
  show "entityStorageWeakMap s n = Some a \<Longrightarrow> a < uid s"
    using a unfolding allocated_def by (elim conjE) fast
  show "queryStorageWeakMap s n = Some a \<Longrightarrow> a < uid s"
    using a unfolding allocated_def by (elim conjE) fast
  show "r \<in> set (upstreamSet (queryStorages s q)) \<Longrightarrow> refAddr r < uid s"
    using a unfolding allocated_def by (elim conjE) fast
  show "r \<in> set (wipUpstreamSet (queryStorages s q)) \<Longrightarrow> refAddr r < uid s"
    using a unfolding allocated_def by (elim conjE) fast
  show "q \<in> set (downstreamOf s r) \<Longrightarrow> q < uid s"
    using a unfolding allocated_def by (elim conjE) fast
  show "q \<in> set (pendingLeafSet s) \<Longrightarrow> q < uid s"
    using a unfolding allocated_def by (elim conjE) fast
  show "q \<in> set (downstreamOf s r) \<Longrightarrow> r \<in> set (upstreamSet (queryStorages s q))"
    using d unfolding downstreamRecorded_def by fast
qed

lemma storeInvI:
  assumes "\<And>k a. stateMap s k = Some a \<Longrightarrow> a < uid s"
    and "\<And>k a. entityMap s k = Some a \<Longrightarrow> a < uid s"
    and "\<And>k a. queryMap s k = Some a \<Longrightarrow> a < uid s"
    and "\<And>n a. stateStorageWeakMap s n = Some a \<Longrightarrow> a < uid s"
    and "\<And>n a. entityStorageWeakMap s n = Some a \<Longrightarrow> a < uid s"
    and "\<And>n a. queryStorageWeakMap s n = Some a \<Longrightarrow> a < uid s"
    and "\<And>q r. r \<in> set (upstreamSet (queryStorages s q)) \<Longrightarrow> refAddr r < uid s"
    and "\<And>q r. r \<in> set (wipUpstreamSet (queryStorages s q)) \<Longrightarrow> refAddr r < uid s"
    and "\<And>q r. q \<in> set (downstreamOf s r) \<Longrightarrow> q < uid s"
    and "\<And>q. q \<in> set (pendingLeafSet s) \<Longrightarrow> q < uid s"
    and "\<And>q r. q \<in> set (downstreamOf s r) \<Longrightarrow> r \<in> set (upstreamSet (queryStorages s q))"
  shows "storeInv s"
  unfolding storeInv_def allocated_def downstreamRecorded_def
  by (intro conjI allI impI ballI) (erule assms)+

text \<open>Operations that touch no query storage.\<close>

lemma frame_untouched:
  assumes "queryStorages s' = queryStorages s" and "queryMap s' = queryMap s"
    and "pendingEmitSet s' = pendingEmitSet s" and "emitted s' = emitted s"
    and "uid s \<le> uid s'"
    and "\<And>r. refAddr r < uid s \<Longrightarrow> downstreamOf s' r = downstreamOf s r"
  shows "frame XF XG s s'"
  by (rule frameI) (simp_all add: assms)

lemma downstreamOf_createStateStorage:
  "downstreamOf (snd (createStateStorage D stateItem s)) r
     = (if r = StateRef (uid s) then [] else downstreamOf s r)"
  by (cases r) (simp_all add: createStateStorage_def Let_def downstreamOf_simps)

lemma downstreamOf_createEntityStorage:
  "downstreamOf (snd (createEntityStorage entityItem s)) r
     = (if r = EntityRef (uid s) then [] else downstreamOf s r)"
  by (cases r) (simp_all add: createEntityStorage_def Let_def downstreamOf_simps)

lemma storeInv_createStateStorage:
  assumes "storeInv s"
  shows "storeInv (snd (createStateStorage D stateItem s))"
proof (rule storeInvI)
  note I = storeInv_D [OF assms]
  let ?s = "snd (createStateStorage D stateItem s)"
  have f: "uid ?s = Suc (uid s)" "queryStorages ?s = queryStorages s"
    "entityMap ?s = entityMap s" "queryMap ?s = queryMap s"
    "entityStorageWeakMap ?s = entityStorageWeakMap s"
    "queryStorageWeakMap ?s = queryStorageWeakMap s"
    "pendingLeafSet ?s = pendingLeafSet s"
    "stateMap ?s = (stateMap s)(stateStorageKey stateItem \<mapsto> uid s)"
    "stateStorageWeakMap ?s = (stateStorageWeakMap s)(siObj stateItem \<mapsto> uid s)"
    by (simp_all add: createStateStorage_def Let_def)
  show "a < uid ?s" if "stateMap ?s k = Some a" for k a
    using that I(1) by (auto simp: f less_Suc_eq split: if_splits)
  show "a < uid ?s" if "entityMap ?s k = Some a" for k a
    using that I(2) by (auto simp: f less_Suc_eq)
  show "a < uid ?s" if "queryMap ?s k = Some a" for k a
    using that I(3) by (auto simp: f less_Suc_eq)
  show "a < uid ?s" if "stateStorageWeakMap ?s k = Some a" for k a
    using that I(4) by (auto simp: f less_Suc_eq split: if_splits)
  show "a < uid ?s" if "entityStorageWeakMap ?s k = Some a" for k a
    using that I(5) by (auto simp: f less_Suc_eq)
  show "a < uid ?s" if "queryStorageWeakMap ?s k = Some a" for k a
    using that I(6) by (auto simp: f less_Suc_eq)
  show "refAddr r < uid ?s" if "r \<in> set (upstreamSet (queryStorages ?s q))" for q r
    using that I(7) by (auto simp: f less_Suc_eq)
  show "refAddr r < uid ?s" if "r \<in> set (wipUpstreamSet (queryStorages ?s q))" for q r
    using that I(8) by (auto simp: f less_Suc_eq)
  show "q < uid ?s" if "q \<in> set (downstreamOf ?s r)" for q r
    using that I(9) by (auto simp: f less_Suc_eq downstreamOf_createStateStorage split: if_splits)
  show "q < uid ?s" if "q \<in> set (pendingLeafSet ?s)" for q
    using that I(10) by (auto simp: f less_Suc_eq)
  show "r \<in> set (upstreamSet (queryStorages ?s q))" if "q \<in> set (downstreamOf ?s r)" for q r
    using that I(11) by (auto simp: f downstreamOf_createStateStorage split: if_splits)
qed

lemma storeInv_createEntityStorage:
  assumes "storeInv s"
  shows "storeInv (snd (createEntityStorage entityItem s))"
proof (rule storeInvI)
  note I = storeInv_D [OF assms]
  let ?s = "snd (createEntityStorage entityItem s)"
  have f: "uid ?s = Suc (uid s)" "queryStorages ?s = queryStorages s"
    "stateMap ?s = stateMap s" "queryMap ?s = queryMap s"
    "stateStorageWeakMap ?s = stateStorageWeakMap s"
    "queryStorageWeakMap ?s = queryStorageWeakMap s"
    "pendingLeafSet ?s = pendingLeafSet s"
    "entityMap ?s = (entityMap s)(entityStorageKey entityItem \<mapsto> uid s)"
    "entityStorageWeakMap ?s = (entityStorageWeakMap s)(eiObj entityItem \<mapsto> uid s)"
    by (simp_all add: createEntityStorage_def Let_def)
  show "a < uid ?s" if "stateMap ?s k = Some a" for k a
    using that I(1) by (auto simp: f less_Suc_eq)
  show "a < uid ?s" if "entityMap ?s k = Some a" for k a
    using that I(2) by (auto simp: f less_Suc_eq split: if_splits)
  show "a < uid ?s" if "queryMap ?s k = Some a" for k a
    using that I(3) by (auto simp: f less_Suc_eq)
  show "a < uid ?s" if "stateStorageWeakMap ?s k = Some a" for k a
    using that I(4) by (auto simp: f less_Suc_eq)
  show "a < uid ?s" if "entityStorageWeakMap ?s k = Some a" for k a
    using that I(5) by (auto simp: f less_Suc_eq split: if_splits)
  show "a < uid ?s" if "queryStorageWeakMap ?s k = Some a" for k a
    using that I(6) by (auto simp: f less_Suc_eq)
  show "refAddr r < uid ?s" if "r \<in> set (upstreamSet (queryStorages ?s q))" for q r
    using that I(7) by (auto simp: f less_Suc_eq)
  show "refAddr r < uid ?s" if "r \<in> set (wipUpstreamSet (queryStorages ?s q))" for q r
    using that I(8) by (auto simp: f less_Suc_eq)
  show "q < uid ?s" if "q \<in> set (downstreamOf ?s r)" for q r
    using that I(9) by (auto simp: f less_Suc_eq downstreamOf_createEntityStorage split: if_splits)
  show "q < uid ?s" if "q \<in> set (pendingLeafSet ?s)" for q
    using that I(10) by (auto simp: f less_Suc_eq)
  show "r \<in> set (upstreamSet (queryStorages ?s q))" if "q \<in> set (downstreamOf ?s r)" for q r
    using that I(11) by (auto simp: f downstreamOf_createEntityStorage split: if_splits)
qed

lemma storeInv_restoreStateStorage:
  assumes "storeInv s" and "a < uid s"
  shows "storeInv (restoreStateStorage D a s)"
  by (rule storeInvI)
     (auto simp: restoreStateStorage_def Let_def assms(2) intro: storeInv_D [OF assms(1)]
        split: if_splits)

lemma storeInv_restoreEntityStorage:
  assumes "storeInv s" and "a < uid s"
  shows "storeInv (restoreEntityStorage a s)"
  by (rule storeInvI)
     (auto simp: restoreEntityStorage_def Let_def assms(2) intro: storeInv_D [OF assms(1)]
        split: if_splits)

lemma frame_restoreStateStorage: "frame XF XG s (restoreStateStorage D a s)"
  by (rule frame_untouched) (simp_all add: restoreStateStorage_def Let_def)

lemma frame_restoreEntityStorage: "frame XF XG s (restoreEntityStorage a s)"
  by (rule frame_untouched) (simp_all add: restoreEntityStorage_def Let_def)

lemma frame_createStateStorage: "frame XF XG s (snd (createStateStorage D stateItem s))"
  by (rule frame_untouched)
     (auto simp: downstreamOf_createStateStorage, simp_all add: createStateStorage_def Let_def)

lemma frame_createEntityStorage: "frame XF XG s (snd (createEntityStorage entityItem s))"
  by (rule frame_untouched)
     (auto simp: downstreamOf_createEntityStorage, simp_all add: createEntityStorage_def Let_def)

lemma getStateStorage_rel:
  assumes "storeInv s" and "getStateStorage D stateItem s = (a, s')"
  shows "rel XF XG s s'" and "a < uid s'"
proof -
  note I = storeInv_D [OF assms(1)]
  have "rel XF XG s s' \<and> a < uid s'"
  proof (cases "stateMap s (stateStorageKey stateItem)")
    case (Some b)
    then show ?thesis using assms I(1) by (auto simp: getStateStorage_def rel_def)
  next
    case None
    show ?thesis
    proof (cases "stateStorageWeakMap s (siObj stateItem)")
      case (Some b)
      then have "b < uid s" by (rule I(4))
      then show ?thesis
        using assms None Some
        by (auto simp: getStateStorage_def rel_def storeInv_restoreStateStorage
              frame_restoreStateStorage)
           (simp add: restoreStateStorage_def Let_def)
    next
      case N: None
      have s': "s' = snd (createStateStorage D stateItem s)" and a: "a = uid s"
        using assms(2) None N by (auto simp: getStateStorage_def createStateStorage_def Let_def)
      show ?thesis unfolding s' a rel_def
        using storeInv_createStateStorage [OF assms(1)]
        by (simp add: frame_createStateStorage) (simp add: createStateStorage_def Let_def)
    qed
  qed
  then show "rel XF XG s s'" and "a < uid s'" by simp_all
qed

lemma getEntityStorage_rel:
  assumes "storeInv s" and "getEntityStorage entityItem s = (a, s')"
  shows "rel XF XG s s'" and "a < uid s'"
proof -
  note I = storeInv_D [OF assms(1)]
  have "rel XF XG s s' \<and> a < uid s'"
  proof (cases "entityMap s (entityStorageKey entityItem)")
    case (Some b)
    then show ?thesis using assms I(2) by (auto simp: getEntityStorage_def rel_def)
  next
    case None
    show ?thesis
    proof (cases "entityStorageWeakMap s (eiObj entityItem)")
      case (Some b)
      then have "b < uid s" by (rule I(5))
      then show ?thesis
        using assms None Some
        by (auto simp: getEntityStorage_def rel_def storeInv_restoreEntityStorage
              frame_restoreEntityStorage)
           (simp add: restoreEntityStorage_def Let_def)
    next
      case N: None
      have s': "s' = snd (createEntityStorage entityItem s)" and a: "a = uid s"
        using assms(2) None N by (auto simp: getEntityStorage_def createEntityStorage_def Let_def)
      show ?thesis unfolding s' a rel_def
        using storeInv_createEntityStorage [OF assms(1)]
        by (simp add: frame_createEntityStorage) (simp add: createEntityStorage_def Let_def)
    qed
  qed
  then show "rel XF XG s s'" and "a < uid s'" by simp_all
qed

section \<open>The steps of the query functions\<close>

text \<open>A tracked read: the edge is added in both directions.\<close>

lemma storeInv_addEdge:
  assumes "storeInv s" and "q < uid s" and "refAddr r < uid s"
  shows "storeInv (addEdge q r s)"
  by (rule storeInvI)
     (auto simp: assms(2,3) intro: storeInv_D [OF assms(1)] split: if_splits)

lemma frame_addEdge: "frame {q} XG s (addEdge q r s)"
  by (rule frameI) (auto split: if_splits)

lemma rel_addEdge:
  "storeInv s \<Longrightarrow> q < uid s \<Longrightarrow> refAddr r < uid s \<Longrightarrow> rel {q} XG s (addEdge q r s)"
  by (simp add: rel_def storeInv_addEdge frame_addEdge)

text \<open>\<^verbatim>\<open>createQueryStorage\<close>: the new storage, and its registration once the value is there.\<close>

lemma downstreamOf_newQuery:
  "downstreamOf (s\<lparr>uid := u, queryStorages := (queryStorages s)(q := newQueryStorage qa)\<rparr>) r
     = (if r = QueryRef q then [] else downstreamOf s r)"
  by (cases r) (simp_all add: downstreamOf_simps newQueryStorage_def)

lemma storeInv_newQuery:
  assumes "storeInv s"
  shows "storeInv (s\<lparr>uid := Suc (uid s),
                     queryStorages := (queryStorages s)(uid s := newQueryStorage qa)\<rparr>)"
proof (rule storeInvI)
  note I = storeInv_D [OF assms]
  let ?s = "s\<lparr>uid := Suc (uid s), queryStorages := (queryStorages s)(uid s := newQueryStorage qa)\<rparr>"
  have n: "upstreamSet (newQueryStorage qa) = []" "wipUpstreamSet (newQueryStorage qa) = []"
    by (simp_all add: newQueryStorage_def)
  show "a < uid ?s" if "stateMap ?s k = Some a" for k a
    using that I(1) by (auto simp: less_Suc_eq)
  show "a < uid ?s" if "entityMap ?s k = Some a" for k a
    using that I(2) by (auto simp: less_Suc_eq)
  show "a < uid ?s" if "queryMap ?s k = Some a" for k a
    using that I(3) by (auto simp: less_Suc_eq)
  show "a < uid ?s" if "stateStorageWeakMap ?s k = Some a" for k a
    using that I(4) by (auto simp: less_Suc_eq)
  show "a < uid ?s" if "entityStorageWeakMap ?s k = Some a" for k a
    using that I(5) by (auto simp: less_Suc_eq)
  show "a < uid ?s" if "queryStorageWeakMap ?s k = Some a" for k a
    using that I(6) by (auto simp: less_Suc_eq)
  show "refAddr r < uid ?s" if "r \<in> set (upstreamSet (queryStorages ?s q))" for q r
    using that I(7) by (auto simp: less_Suc_eq n split: if_splits)
  show "refAddr r < uid ?s" if "r \<in> set (wipUpstreamSet (queryStorages ?s q))" for q r
    using that I(8) by (auto simp: less_Suc_eq n split: if_splits)
  show "q < uid ?s" if "q \<in> set (downstreamOf ?s r)" for q r
    using that I(9) by (auto simp: less_Suc_eq downstreamOf_newQuery split: if_splits)
  show "q < uid ?s" if "q \<in> set (pendingLeafSet ?s)" for q
    using that I(10) by (auto simp: less_Suc_eq)
  show "r \<in> set (upstreamSet (queryStorages ?s q))" if "q \<in> set (downstreamOf ?s r)" for q r
  proof -
    from that have d: "q \<in> set (downstreamOf s r)"
      by (auto simp: downstreamOf_newQuery split: if_splits)
    then have "q \<noteq> uid s" using I(9) by fastforce
    then show ?thesis using I(11) [OF d] by simp
  qed
qed

lemma frame_newQuery:
  "frame XF XG s (s\<lparr>uid := Suc (uid s),
                     queryStorages := (queryStorages s)(uid s := newQueryStorage qa)\<rparr>)"
  by (rule frameI) (auto simp: downstreamOf_newQuery)

lemma storeInv_register:
  assumes "storeInv s" and "q < uid s"
  shows "storeInv ((updQuery q (\<lambda>st. st\<lparr>currentValue := v\<rparr>) s)
                     \<lparr>queryMap := (queryMap s)(k \<mapsto> q),
                      queryStorageWeakMap := (queryStorageWeakMap s)(n \<mapsto> q)\<rparr>)"
  by (rule storeInvI)
     (auto simp: assms(2) intro: storeInv_D [OF assms(1)] split: if_splits)

text \<open>A step after a call, seen from the store in which the call started.\<close>

lemma frame_then:
  assumes a: "frame XF XG s t"
    and "uid t \<le> uid t'" and "emitted t' = emitted t"
    and "set (pendingEmitSet t) \<subseteq> set (pendingEmitSet t')"
    and "\<And>k. queryMap t k \<noteq> None \<Longrightarrow> queryMap t' k \<noteq> None"
    and "\<And>p. p < uid s \<Longrightarrow> key (queryStorages t' p) = key (queryStorages t p)"
    and "\<And>p. p < uid s \<Longrightarrow> Query (queryStorages t' p) = Query (queryStorages t p)"
    and "\<And>p. p < uid s \<Longrightarrow> arg (queryStorages t' p) = arg (queryStorages t p)"
    and "\<And>p. p < uid s \<Longrightarrow>
           upstreamSetId (queryStorages t' p) = upstreamSetId (queryStorages t p)"
    and "\<And>p. p < uid s \<Longrightarrow>
           upstreamSetId (queryStorages t p) = upstreamSetId (queryStorages s p) \<Longrightarrow>
           currentValue (queryStorages t' p) = currentValue (queryStorages t p)"
    and "\<And>p. p < uid s \<Longrightarrow>
           upstreamSetId (queryStorages t p) = upstreamSetId (queryStorages s p) \<Longrightarrow>
           EmitQuery p \<in> set (pendingEmitSet t') \<Longrightarrow> EmitQuery p \<in> set (pendingEmitSet t)"
    and "\<And>p. p < uid s \<Longrightarrow> upstreamSet (queryStorages t' p) = upstreamSet (queryStorages t p)"
    and "\<And>p r. p < uid s \<Longrightarrow> p \<in> set (downstreamOf t r) \<Longrightarrow> p \<in> set (downstreamOf t' r)"
    and "\<And>p. p < uid s \<Longrightarrow> status (queryStorages t p) \<noteq> Wip \<Longrightarrow>
           status (queryStorages t' p) \<noteq> Wip"
    and "\<And>p. p < uid s \<Longrightarrow> status (queryStorages t' p) = Updated \<Longrightarrow>
           status (queryStorages t p) = Updated"
  shows "frame XF XG s t'"
proof (rule frameI)
  show "uid s \<le> uid t'" using frame_uid [OF a] assms(2) by simp
  show "emitted t' = emitted s" using frame_emitted [OF a] assms(3) by simp
  show "set (pendingEmitSet s) \<subseteq> set (pendingEmitSet t')"
    using frame_pendingEmitSet [OF a] assms(4) by blast
  show "queryMap t' k \<noteq> None" if "queryMap s k \<noteq> None" for k
    using that frame_queryMap [OF a] assms(5) by blast
next
  fix p assume p: "p < uid s"
  note A = frame_query [OF a p]
  show "key (queryStorages t' p) = key (queryStorages s p)" using A assms(6) [OF p] by simp
  show "Query (queryStorages t' p) = Query (queryStorages s p)" using A assms(7) [OF p] by simp
  show "arg (queryStorages t' p) = arg (queryStorages s p)" using A assms(8) [OF p] by simp
  show "upstreamSetId (queryStorages s p) \<le> upstreamSetId (queryStorages t' p)"
    using A assms(9) [OF p] by simp
  {
    assume "upstreamSetId (queryStorages t' p) = upstreamSetId (queryStorages s p)"
    then have e: "upstreamSetId (queryStorages t p) = upstreamSetId (queryStorages s p)"
      using assms(9) [OF p] by simp
    show "currentValue (queryStorages t' p) = currentValue (queryStorages s p)"
      using frame_value(1) [OF a p e] assms(10) [OF p e] by simp
    show "EmitQuery p \<in> set (pendingEmitSet s)" if "EmitQuery p \<in> set (pendingEmitSet t')"
      using frame_value(2) [OF a p e] assms(11) [OF p e that] by blast
    {
      assume x: "p \<notin> XF"
      show "upstreamSet (queryStorages t' p) = upstreamSet (queryStorages s p)"
        using frame_edges(1) [OF a p x e] assms(12) [OF p] by simp
      show "p \<in> set (downstreamOf t' r)"
        if "refAddr r < uid s" and "p \<in> set (downstreamOf s r)" for r
        using frame_edges(2) [OF a p x e that] assms(13) [OF p] by blast
    }
  }
  {
    assume x: "p \<notin> XG" and w: "status (queryStorages s p) \<noteq> Wip"
      and m: "queryMap s (key (queryStorages s p)) \<noteq> None"
    note S = frame_settled [OF a p x w m]
    show "upstreamSetId (queryStorages t' p) = upstreamSetId (queryStorages s p)
           \<and> status (queryStorages t' p) \<noteq> Wip"
      using S assms(9) [OF p] assms(14) [OF p S(2)] by simp
  }
  show "status (queryStorages s p) = Updated \<or> EmitQuery p \<in> set (pendingEmitSet t')"
    if "status (queryStorages t' p) = Updated"
    using frame_updated [OF a p assms(15) [OF p that]] assms(4) by blast
qed

lemma frame_register:
  assumes "frame XF XG s t" and "\<not> q < uid s"
  shows "frame XF XG s ((updQuery q (\<lambda>st. st\<lparr>currentValue := v\<rparr>) t)
                          \<lparr>queryMap := (queryMap t)(k \<mapsto> q),
                           queryStorageWeakMap := (queryStorageWeakMap t)(n \<mapsto> q)\<rparr>)"
  by (rule frame_then [OF assms(1)]) (use assms(2) in auto)

text \<open>
  \<^verbatim>\<open>updateQueryStorage\<close>: the old edges are removed and a new \<^verbatim>\<open>upstreamSet\<close> is made; after
  the evaluation, the value is assigned and queued.
\<close>

lemma storeInv_beginUpdate:
  assumes "storeInv s"
  shows "storeInv (updQuery q (\<lambda>st. st\<lparr>upstreamSet := [], upstreamSetId := i\<rparr>)
                     (fold (detachUpstream q) (upstreamSet (queryStorages s q)) s))"
proof (rule storeInvI)
  note I = storeInv_D [OF assms]
  let ?s = "updQuery q (\<lambda>st. st\<lparr>upstreamSet := [], upstreamSetId := i\<rparr>)
              (fold (detachUpstream q) (upstreamSet (queryStorages s q)) s)"
  have d: "set (downstreamOf ?s r)
      = (if r \<in> set (upstreamSet (queryStorages s q)) then set (downstreamOf s r) - {q}
         else set (downstreamOf s r))" for r
    by (simp add: set_downstreamOf_fold_detach)
  show "a < uid ?s" if "stateMap ?s k = Some a" for k a using that I(1) by auto
  show "a < uid ?s" if "entityMap ?s k = Some a" for k a using that I(2) by auto
  show "a < uid ?s" if "queryMap ?s k = Some a" for k a using that I(3) by auto
  show "a < uid ?s" if "stateStorageWeakMap ?s k = Some a" for k a using that I(4) by auto
  show "a < uid ?s" if "entityStorageWeakMap ?s k = Some a" for k a using that I(5) by auto
  show "a < uid ?s" if "queryStorageWeakMap ?s k = Some a" for k a using that I(6) by auto
  show "refAddr r < uid ?s" if "r \<in> set (upstreamSet (queryStorages ?s p))" for p r
    using that I(7) by (auto split: if_splits)
  show "refAddr r < uid ?s" if "r \<in> set (wipUpstreamSet (queryStorages ?s p))" for p r
    using that I(8) by (auto split: if_splits)
  show "p < uid ?s" if "p \<in> set (downstreamOf ?s r)" for p r
    using that I(9) unfolding d by (auto split: if_splits)
  show "p < uid ?s" if "p \<in> set (pendingLeafSet ?s)" for p using that I(10) by auto
  show "r \<in> set (upstreamSet (queryStorages ?s p))" if "p \<in> set (downstreamOf ?s r)" for p r
  proof -
    from that have p: "p \<in> set (downstreamOf s r)" unfolding d by (auto split: if_splits)
    have "p \<noteq> q" using that I(11) [OF p] unfolding d by (auto split: if_splits)
    then show ?thesis using I(11) [OF p] by simp
  qed
qed

lemma frame_beginUpdate:
  assumes "upstreamSetId (queryStorages s q) < i"
  shows "frame XF {q} s (updQuery q (\<lambda>st. st\<lparr>upstreamSet := [], upstreamSetId := i\<rparr>)
                            (fold (detachUpstream q) (upstreamSet (queryStorages s q)) s))"
  using assms by (intro frameI) (auto simp: set_downstreamOf_fold_detach split: if_splits)

lemma storeInv_assign:
  assumes "storeInv s"
  shows "storeInv ((updQuery q (\<lambda>st. st\<lparr>currentValue := v\<rparr>) s)\<lparr>pendingEmitSet := e\<rparr>)"
  by (rule storeInvI) (auto intro: storeInv_D [OF assms] split: if_splits)

lemma frame_assign:
  assumes "frame XF XG s t"
    and "q < uid s \<Longrightarrow> upstreamSetId (queryStorages s q) < upstreamSetId (queryStorages t q)"
  shows "frame XF XG s ((updQuery q (\<lambda>st. st\<lparr>currentValue := v\<rparr>) t)
                          \<lparr>pendingEmitSet := setAdd (EmitQuery q) (pendingEmitSet t)\<rparr>)"
  by (rule frame_then [OF assms(1)]) (use assms(2) in \<open>auto split: if_splits\<close>)

text \<open>\<^verbatim>\<open>updateWipQueryStorage\<close>: the stale upstreams are forgotten and the status is set.\<close>

lemma storeInv_status:
  assumes "storeInv s"
  shows "storeInv (updQuery q (\<lambda>st. st\<lparr>status := x\<rparr>) s)"
  by (rule storeInvI) (auto intro: storeInv_D [OF assms] split: if_splits)

lemma storeInv_wipUpstreamSet:
  assumes "storeInv s"
  shows "storeInv (updQuery q (\<lambda>st. st\<lparr>wipUpstreamSet := []\<rparr>) s)"
  by (rule storeInvI) (auto intro: storeInv_D [OF assms] split: if_splits)

lemma frame_status:
  "x \<noteq> Wip \<Longrightarrow> (x = Updated \<Longrightarrow> EmitQuery q \<in> set (pendingEmitSet s)) \<Longrightarrow>
   frame XF XG s (updQuery q (\<lambda>st. st\<lparr>status := x\<rparr>) s)"
  by (rule frameI) (auto split: if_splits)

lemma frame_wipUpstreamSet:
  "frame XF XG s (updQuery q (\<lambda>st. st\<lparr>wipUpstreamSet := []\<rparr>) s)"
  by (rule frameI) (auto split: if_splits)

text \<open>\<^verbatim>\<open>restoreQueryStorage\<close>: the storage is registered again and put back in the downstream
  sets of its upstreams.\<close>

lemma storeInv_restoreBegin:
  assumes "storeInv s" and "q < uid s"
  shows "storeInv ((updQuery q (\<lambda>st. st\<lparr>status := Default\<rparr>) s)
                     \<lparr>queryMap := (queryMap s)(k \<mapsto> q)\<rparr>)"
  by (rule storeInvI) (auto simp: assms(2) intro: storeInv_D [OF assms(1)] split: if_splits)

lemma frame_restoreBegin:
  "frame XF XG s ((updQuery q (\<lambda>st. st\<lparr>status := Default\<rparr>) s)
                    \<lparr>queryMap := (queryMap s)(k \<mapsto> q)\<rparr>)"
  by (rule frameI) (auto split: if_splits)

lemma storeInv_restoreEdge:
  assumes "storeInv s" and "q < uid s" and "r \<in> set (upstreamSet (queryStorages s q))"
  shows "storeInv (setDownstream r (setAdd q (downstreamOf s r)) s)"
  by (rule storeInvI)
     (auto simp: assms(2,3) intro: storeInv_D [OF assms(1)] split: if_splits)

lemma frame_restoreEdge: "frame XF XG s (setDownstream r (setAdd q (downstreamOf s r)) s)"
  by (rule frameI) (auto split: if_splits)

section \<open>Outcomes of calls\<close>

lemma resultSat_simps [simp]:
  "resultSat E P (Ok a s) \<longleftrightarrow> E s \<and> P a s"
  "resultSat E P (Err e s) \<longleftrightarrow> E s"
  "resultSat E P OutOfFuel"
  by (simp_all add: resultSat_def)

lemma resultSat_mono:
  assumes "resultSat E P r"
    and "\<And>s. E s \<Longrightarrow> E' s" and "\<And>a s. E s \<Longrightarrow> P a s \<Longrightarrow> P' a s"
  shows "resultSat E' P' r"
  using assms by (cases r) auto

lemma resultSat_andThen:
  assumes "resultSat E P r"
    and "\<And>e s. r = Err e s \<Longrightarrow> E s \<Longrightarrow> E' s"
    and "\<And>a s. r = Ok a s \<Longrightarrow> E s \<Longrightarrow> P a s \<Longrightarrow> resultSat E' P' (f a s)"
  shows "resultSat E' P' (andThen r f)"
  using assms by (cases r) auto

lemma rel_refl: "storeInv s \<Longrightarrow> rel XF XG s s"
  by (simp add: rel_def)

lemma rel_storeInv: "rel XF XG s s' \<Longrightarrow> storeInv s'"
  by (simp add: rel_def)

lemma rel_frame: "rel XF XG s s' \<Longrightarrow> frame XF XG s s'"
  by (simp add: rel_def)

lemma rel_uid: "rel XF XG s s' \<Longrightarrow> uid s \<le> uid s'"
  by (auto simp: rel_def intro: frame_uid)

lemma rel_less: "rel XF XG s s' \<Longrightarrow> a < uid s \<Longrightarrow> a < uid s'"
  using rel_uid [of XF XG s s'] by simp

lemma rel_trans:
  "rel XF XG s t \<Longrightarrow> rel XF' XG' t u \<Longrightarrow> rel (XF \<union> XF') (XG \<union> XG') s u"
  by (auto simp: rel_def intro: frame_trans)

lemma rel_mono: "rel XF XG s s' \<Longrightarrow> XF \<subseteq> XF' \<Longrightarrow> XG \<subseteq> XG' \<Longrightarrow> rel XF' XG' s s'"
  by (auto simp: rel_def intro: frame_mono)

lemma rel_trans_left: "rel {} {} s t \<Longrightarrow> rel XF XG t u \<Longrightarrow> rel XF XG s u"
  using rel_trans [of "{}" "{}" s t XF XG u] by simp

lemma rel_trans_right: "rel XF XG s t \<Longrightarrow> rel {} {} t u \<Longrightarrow> rel XF XG s u"
  using rel_trans [of XF XG s t "{}" "{}" u] by simp

lemma rel_trans_same: "rel XF XG s t \<Longrightarrow> rel XF XG t u \<Longrightarrow> rel XF XG s u"
  using rel_trans [of XF XG s t XF XG u] by simp

lemma rel_step: "rel XF XG s t \<Longrightarrow> storeInv u \<Longrightarrow> frame XF XG t u \<Longrightarrow> rel XF XG s u"
  by (rule rel_trans_same) (simp_all add: rel_def)

lemma resultSat_rel_after:
  assumes "rel XF XG s t" and "resultSat (rel XF XG t) P r"
  shows "resultSat (rel XF XG s) P r"
  using assms(2) by (rule resultSat_mono) (auto intro: rel_trans_same [OF assms(1)])

lemma resultSat_rel_mono:
  assumes "resultSat (rel XF XG s) P r" and "XF \<subseteq> XF'" and "XG \<subseteq> XG'"
  shows "resultSat (rel XF' XG' s) P r"
  using assms(1) by (rule resultSat_mono) (simp_all add: rel_mono [OF _ assms(2,3)])

text \<open>A registered storage that is not stale keeps its upstream set through a call.\<close>

lemma rel_settled:
  assumes "rel {} XG s s'" and "q < uid s" and "q \<notin> XG"
    and "status (queryStorages s q) \<noteq> Wip"
    and "queryMap s (key (queryStorages s q)) \<noteq> None"
  shows "upstreamSet (queryStorages s' q) = upstreamSet (queryStorages s q)"
    and "status (queryStorages s' q) \<noteq> Wip"
    and "queryMap s' (key (queryStorages s' q)) \<noteq> None"
proof -
  note f = rel_frame [OF assms(1)]
  note S = frame_settled [OF f assms(2-5)]
  show "upstreamSet (queryStorages s' q) = upstreamSet (queryStorages s q)"
    using frame_edges(1) [OF f assms(2) _ S(1)] by simp
  show "status (queryStorages s' q) \<noteq> Wip" by (rule S(2))
  show "queryMap s' (key (queryStorages s' q)) \<noteq> None" by (rule S(3))
qed

text \<open>User code, run against a \<^verbatim>\<open>get\<close> that keeps the invariant.\<close>

lemma runProg_rel:
  assumes get: "\<And>input t. storeInv t \<Longrightarrow> \<forall>q \<in> X. q < uid t \<Longrightarrow>
                  resultSat (rel X {} t) (\<lambda>_ _. True) (get input t)"
  shows "storeInv s \<Longrightarrow> \<forall>q \<in> X. q < uid s \<Longrightarrow>
         resultSat (rel X {} s) (\<lambda>_ _. True) (runProg get prog s)"
proof (induction prog arbitrary: s)
  case (Done r)
  then show ?case by (simp add: rel_refl)
next
  case (Raise e)
  then show ?case by (simp add: rel_refl)
next
  case (Get input k)
  note g = get [of s input, OF Get.prems]
  show ?case
  proof (cases "get input s")
    case (Ok v s')
    then have r: "rel X {} s s'" using g by simp
    have "resultSat (rel X {} s') (\<lambda>_ _. True) (runProg get (k (Inr v)) s')"
      using Get.prems(2) rel_less [OF r] by (intro Get.IH rel_storeInv [OF r]) auto
    then show ?thesis using Ok by (simp add: resultSat_rel_after [OF r])
  next
    case (Err e s')
    then have r: "rel X {} s s'" using g by simp
    have "resultSat (rel X {} s') (\<lambda>_ _. True) (runProg get (k (Inl e)) s')"
      using Get.prems(2) rel_less [OF r] by (intro Get.IH rel_storeInv [OF r]) auto
    then show ?thesis using Err by (simp add: resultSat_rel_after [OF r])
  next
    case OutOfFuel
    then show ?thesis by simp
  qed
qed

lemma restoreUpstreams_rel:
  assumes restore: "\<And>u t. storeInv t \<Longrightarrow> u < uid t \<Longrightarrow>
                      resultSat (rel {} {} t) (\<lambda>_ _. True) (restoreQuery u t)"
  shows "storeInv s \<Longrightarrow> q < uid s \<Longrightarrow> set rs \<subseteq> set (upstreamSet (queryStorages s q)) \<Longrightarrow>
         status (queryStorages s q) \<noteq> Wip \<Longrightarrow> queryMap s (key (queryStorages s q)) \<noteq> None \<Longrightarrow>
         resultSat (rel {} {} s) (\<lambda>_ _. True) (restoreUpstreams restoreQuery D q rs s)"
proof (induction rs arbitrary: s)
  case Nil
  then show ?case by (simp add: rel_refl)
next
  case (Cons r rest)
  let ?s1 = "setDownstream r (setAdd q (downstreamOf s r)) s"
  have r: "r \<in> set (upstreamSet (queryStorages s q))" using Cons.prems(3) by simp
  have i1: "storeInv ?s1" using Cons.prems(1,2) r by (rule storeInv_restoreEdge)
  have r1: "rel {} {} s ?s1" using i1 by (simp add: rel_def frame_restoreEdge)
  have a: "refAddr r < uid s" using storeInv_D(7) [OF Cons.prems(1) r] .
  have step: "resultSat (rel {} {} s) (\<lambda>_ _. True) (restoreUpstreams restoreQuery D q rest t)"
    if t: "rel {} {} s t" for t
  proof -
    note S = rel_settled [OF t Cons.prems(2) _ Cons.prems(4,5)]
    have "resultSat (rel {} {} t) (\<lambda>_ _. True) (restoreUpstreams restoreQuery D q rest t)"
      using Cons.prems(3) S rel_less [OF t Cons.prems(2)]
      by (intro Cons.IH rel_storeInv [OF t]) auto
    then show ?thesis by (rule resultSat_rel_after [OF t])
  qed
  show ?case
  proof (cases r)
    case (StateRef u)
    have "rel {} {} ?s1 (restoreStateStorage D u ?s1)"
      using a StateRef i1 by (simp add: rel_def storeInv_restoreStateStorage frame_restoreStateStorage)
    then have "rel {} {} s (restoreStateStorage D u ?s1)" by (rule rel_trans_same [OF r1])
    then show ?thesis using StateRef by (simp add: Let_def step)
  next
    case (EntityRef u)
    then show ?thesis using r1 by (simp add: Let_def)
  next
    case (QueryRef u)
    have "resultSat (rel {} {} ?s1) (\<lambda>_ _. True) (restoreQuery u ?s1)"
      using a QueryRef by (intro restore i1) simp
    then have "resultSat (rel {} {} s) (\<lambda>_ _. True) (restoreQuery u ?s1)"
      by (rule resultSat_rel_after [OF r1])
    then have "resultSat (rel {} {} s) (\<lambda>_ _. True)
                 (andThen (restoreQuery u ?s1) (\<lambda>_. restoreUpstreams restoreQuery D q rest))"
      by (rule resultSat_andThen) (simp_all add: step)
    then show ?thesis using QueryRef by (simp add: Let_def)
  qed
qed

section \<open>The invariant and the frame of the query functions\<close>

lemma callsOkD:
  assumes "callsOk c"
  shows "storeInv s \<Longrightarrow>
           resultSat (rel {} {} s) (\<lambda>u s'. u < uid s') (getQueryStorage_call c qa s)"
    and "storeInv s \<Longrightarrow>
           resultSat (rel {} {} s) (\<lambda>u s'. u < uid s') (createQueryStorage_call c qa s)"
    and "storeInv s \<Longrightarrow> q < uid s \<Longrightarrow>
           resultSat (rel {} {} s) (\<lambda>_ _. True) (restoreQueryStorage_call c q s)"
    and "storeInv s \<Longrightarrow>
           resultSat (rel {} {} s) (\<lambda>_ _. True) (getCurrentQueryValue_call c qa s)"
    and "storeInv s \<Longrightarrow>
           resultSat (rel {} {} s) (\<lambda>_ _. True) (injectedGet_call c input s)"
    and "storeInv s \<Longrightarrow> \<forall>q \<in> tracked ctx. q < uid s \<Longrightarrow>
           resultSat (rel (tracked ctx) {} s) (\<lambda>_ _. True) (contextGet_call c ctx input s)"
    and "storeInv s \<Longrightarrow> q < uid s \<Longrightarrow>
           resultSat (rel {} {} s) (\<lambda>_ _. True) (updateWipQueryStorage_call c q s)"
    and "storeInv s \<Longrightarrow> q < uid s \<Longrightarrow>
           resultSat (rel {} {} s) (\<lambda>_ _. True) (updateWipUpstreams_call c q j b s)"
    and "storeInv s \<Longrightarrow> q < uid s \<Longrightarrow>
           resultSat (\<lambda>s'. rel {} {q} s s'
                           \<and> upstreamSetId (queryStorages s q) < upstreamSetId (queryStorages s' q))
             (\<lambda>b s'. b \<longrightarrow> EmitQuery q \<in> set (pendingEmitSet s'))
             (updateQueryStorage_call c q s)"
  using assms by (simp_all add: callsOk_def)

lemma getQueryStorage_body_rel:
  assumes c: "callsOk c" and i: "storeInv s"
  shows "resultSat (rel {} {} s) (\<lambda>u s'. u < uid s') (getQueryStorage_body c qa s)"
proof (cases "queryMap s (queryStorageKey qa)")
  case (Some q)
  then show ?thesis
    using storeInv_D(3) [OF i Some] i by (simp add: getQueryStorage_body_def rel_refl)
next
  case None
  show ?thesis
  proof (cases "queryStorageWeakMap s (qaObj qa)")
    case (Some q)
    have q: "q < uid s" using storeInv_D(6) [OF i Some] .
    have "resultSat (rel {} {} s) (\<lambda>u s'. u < uid s')
            (andThen (restoreQueryStorage_call c q s) (\<lambda>_ s'. Ok q s'))"
      by (rule resultSat_andThen [OF callsOkD(3) [OF c i q]]) (auto intro: rel_less q)
    then show ?thesis using None Some by (simp add: getQueryStorage_body_def)
  next
    case N: None
    then show ?thesis using None callsOkD(2) [OF c i] by (simp add: getQueryStorage_body_def)
  qed
qed

lemma createQueryStorage_body_rel:
  assumes c: "callsOk c" and i: "storeInv s"
  shows "resultSat (rel {} {} s) (\<lambda>u s'. u < uid s') (createQueryStorage_body c D qa s)"
proof -
  let ?s1 = "s\<lparr>uid := Suc (uid s),
               queryStorages := (queryStorages s)(uid s := newQueryStorage qa)\<rparr>"
  have i1: "storeInv ?s1" using i by (rule storeInv_newQuery)
  have r1: "rel {} {} s ?s1" using i1 by (simp add: rel_def frame_newQuery)
  have run: "resultSat (rel {uid s} {} ?s1) (\<lambda>_ _. True)
               (runProg (contextGet_call c (CreateQueryContext (uid s) 0)) prog ?s1)" for prog :: "jsval prog"
  proof (rule runProg_rel)
    show "resultSat (rel {uid s} {} t) (\<lambda>_ _. True)
            (contextGet_call c (CreateQueryContext (uid s) 0) input t)"
      if "storeInv t" and "\<forall>q \<in> {uid s}. q < uid t" for input t
      using callsOkD(6) [OF c that(1), of "CreateQueryContext (uid s) 0" input] that(2)
      by (simp add: tracked_def)
  qed (simp_all add: i1)
  have drop: "rel {} {} s t" if t: "rel {uid s} {} ?s1 t" for t
  proof -
    have "rel {uid s} {} s t" using rel_trans_left [OF r1 t] .
    then show ?thesis using frame_dropF [of "{uid s}" "{}" s t] by (simp add: rel_def)
  qed
  show ?thesis unfolding createQueryStorage_body_def Let_def
  proof (rule resultSat_andThen [OF run])
    fix e t assume "rel {uid s} {} ?s1 t"
    then show "rel {} {} s t" by (rule drop)
  next
    fix v t assume t: "rel {uid s} {} ?s1 t"
    have q: "uid s < uid t" using rel_less [OF t, of "uid s"] by simp
    have f: "frame {} {} s t" using drop [OF t] by (rule rel_frame)
    show "resultSat (rel {} {} s) (\<lambda>u s'. u < uid s')
            (Ok (uid s) ((updQuery (uid s) (\<lambda>st. st\<lparr>currentValue := v\<rparr>) t)
               \<lparr>queryMap := (queryMap t)(queryStorageKey qa \<mapsto> uid s),
                queryStorageWeakMap := (queryStorageWeakMap t)(qaObj qa \<mapsto> uid s)\<rparr>))"
      using q by (simp add: rel_def storeInv_register [OF rel_storeInv [OF t] q]
                    frame_register [OF f])
  qed
qed

lemma restoreQueryStorage_body_rel:
  assumes c: "callsOk c" and i: "storeInv s" and q: "q < uid s"
  shows "resultSat (rel {} {} s) (\<lambda>_ _. True) (restoreQueryStorage_body c D q s)"
proof (cases "queryMap s (key (queryStorages s q)) \<noteq> None")
  case True
  then show ?thesis using i by (simp add: restoreQueryStorage_body_def rel_refl)
next
  case False
  let ?s1 = "(updQuery q (\<lambda>st. st\<lparr>status := Default\<rparr>) s)
               \<lparr>queryMap := (queryMap s)(key (queryStorages s q) \<mapsto> q)\<rparr>"
  have i1: "storeInv ?s1" using i q by (rule storeInv_restoreBegin)
  have r1: "rel {} {} s ?s1" using i1 by (simp add: rel_def frame_restoreBegin)
  have loop: "resultSat (rel {} {} ?s1) (\<lambda>_ _. True)
                (restoreUpstreams (restoreQueryStorage_call c) D q
                   (upstreamSet (queryStorages ?s1 q)) ?s1)"
    by (rule restoreUpstreams_rel) (use callsOkD(3) [OF c] i1 q in simp_all)
  have upd: "resultSat (rel {} {} s) (\<lambda>_ _. True)
               (andThen (updateQueryStorage_call c q t) (\<lambda>_ s3. Ok () s3))"
    if t: "rel {} {} ?s1 t" for t
  proof -
    have st: "rel {} {} s t" by (rule rel_trans_same [OF r1 t])
    have qt: "q < uid t" using rel_less [OF st q] .
    note u = callsOkD(9) [OF c rel_storeInv [OF t] qt]
    have drop: "rel {} {} s u" if "rel {} {q} t u" for u
    proof -
      have "rel {} {q} s u" using rel_trans_left [OF st that] .
      then show ?thesis using False frame_dropG [of "{}" "{q}" s u] by (simp add: rel_def)
    qed
    show ?thesis by (rule resultSat_andThen [OF u]) (auto intro: drop)
  qed
  have "resultSat (rel {} {} s) (\<lambda>_ _. True)
          (andThen (restoreUpstreams (restoreQueryStorage_call c) D q
                      (upstreamSet (queryStorages ?s1 q)) ?s1)
             (\<lambda>_ s2. andThen (updateQueryStorage_call c q s2) (\<lambda>_ s3. Ok () s3)))"
    by (rule resultSat_andThen [OF loop]) (auto intro: rel_trans_same [OF r1] upd)
  then show ?thesis using False by (simp add: restoreQueryStorage_body_def Let_def)
qed

lemma getCurrentQueryValue_body_rel:
  assumes c: "callsOk c" and i: "storeInv s"
  shows "resultSat (rel {} {} s) (\<lambda>_ _. True) (getCurrentQueryValue_body c qa s)"
  unfolding getCurrentQueryValue_body_def
proof (rule resultSat_andThen [OF callsOkD(1) [OF c i]])
  fix q t assume t: "rel {} {} s t" and q: "q < uid t"
  have "resultSat (rel {} {} s) (\<lambda>_ _. True) (updateWipQueryStorage_call c q t)"
    using callsOkD(7) [OF c rel_storeInv [OF t] q] by (rule resultSat_rel_after [OF t])
  then show "resultSat (rel {} {} s) (\<lambda>_ _. True)
               (andThen (updateWipQueryStorage_call c q t)
                  (\<lambda>_ s2. Ok (currentValue (queryStorages s2 q)) s2))"
    by (rule resultSat_andThen) simp_all
qed simp

lemma getCurrentState_rel:
  assumes "storeInv s"
  shows "resultSat (rel {} {} s) (\<lambda>_ _. True) (getCurrentState D stateItem s)"
proof -
  obtain a s' where g: "getStateStorage D stateItem s = (a, s')" by (cases "getStateStorage D stateItem s")
  show ?thesis using getStateStorage_rel(1) [OF assms g] by (simp add: getCurrentState_def g)
qed

lemma getCurrentEntity_rel:
  assumes "storeInv s"
  shows "resultSat (rel {} {} s) (\<lambda>_ _. True) (getCurrentEntity entityItem s)"
proof -
  obtain a s' where g: "getEntityStorage entityItem s = (a, s')" by (cases "getEntityStorage entityItem s")
  show ?thesis using getEntityStorage_rel(1) [OF assms g] by (simp add: getCurrentEntity_def g)
qed

lemma injectedGet_body_rel:
  assumes c: "callsOk c" and i: "storeInv s"
  shows "resultSat (rel {} {} s) (\<lambda>_ _. True) (injectedGet_body c D input s)"
  by (cases input)
     (simp_all add: injectedGet_body_def getCurrentState_rel [OF i] getCurrentEntity_rel [OF i]
        callsOkD(4) [OF c i])

text \<open>A tracked read: the edge is added, then the value is read as an untracked read does.\<close>

lemma trackedRead_rel:
  assumes c: "callsOk c" and t: "rel {} {} s t" and q: "q < uid s" and r: "refAddr r < uid t"
  shows "resultSat (rel {q} {} s) (\<lambda>_ _. True) (injectedGet_call c input (addEdge q r t))"
proof -
  have qt: "q < uid t" using rel_less [OF t q] .
  have e: "rel {q} {} t (addEdge q r t)" using rel_storeInv [OF t] qt r by (rule rel_addEdge)
  have se: "rel {q} {} s (addEdge q r t)" using rel_trans_left [OF t e] .
  have "resultSat (rel {} {} (addEdge q r t)) (\<lambda>_ _. True)
          (injectedGet_call c input (addEdge q r t))"
    using callsOkD(5) [OF c rel_storeInv [OF e]] .
  then show ?thesis
    by (rule resultSat_mono) (auto intro: rel_trans_right [OF se])
qed

lemma createQueryContext_get_rel:
  assumes c: "callsOk c" and i: "storeInv s" and q: "q < uid s"
  shows "resultSat (rel {q} {} s) (\<lambda>_ _. True) (createQueryContext_get c D q sid input s)"
proof -
  have inj: "resultSat (rel {q} {} s) (\<lambda>_ _. True) (injectedGet_call c input s)"
    using callsOkD(5) [OF c i] by (rule resultSat_rel_mono) simp_all
  show ?thesis
  proof (cases "upstreamSetId (queryStorages s q) \<noteq> sid")
    case True
    then show ?thesis using inj by (simp add: createQueryContext_get_def)
  next
    case False
    show ?thesis
    proof (cases input)
      case (StateInput stateItem)
      obtain u t where g: "getStateStorage D stateItem s = (u, t)"
        by (cases "getStateStorage D stateItem s")
      note G = getStateStorage_rel(1) [OF i g, of "{}" "{}"] getStateStorage_rel(2) [OF i g]
      show ?thesis using False StateInput trackedRead_rel [OF c G(1) q, of "StateRef u"] G(2)
        by (simp add: createQueryContext_get_def g)
    next
      case (EntityInput entityItem)
      then show ?thesis using False inj by (simp add: createQueryContext_get_def)
    next
      case (QueryInput queryAction)
      have "resultSat (rel {q} {} s) (\<lambda>_ _. True)
              (andThen (getQueryStorage_call c queryAction s)
                 (\<lambda>u s1. injectedGet_call c input (addEdge q (QueryRef u) s1)))"
      proof (rule resultSat_andThen [OF callsOkD(1) [OF c i]])
        fix u t assume t: "rel {} {} s t" and u: "u < uid t"
        show "resultSat (rel {q} {} s) (\<lambda>_ _. True)
                (injectedGet_call c input (addEdge q (QueryRef u) t))"
          using trackedRead_rel [OF c t q, of "QueryRef u"] u by simp
      qed (auto intro: rel_mono)
      then show ?thesis using False QueryInput by (simp add: createQueryContext_get_def)
    qed
  qed
qed

lemma updateQueryContext_get_rel:
  assumes c: "callsOk c" and i: "storeInv s" and q: "q < uid s"
  shows "resultSat (rel {q} {} s) (\<lambda>_ _. True) (updateQueryContext_get c D q sid input s)"
proof -
  have inj: "resultSat (rel {q} {} s) (\<lambda>_ _. True) (injectedGet_call c input s)"
    using callsOkD(5) [OF c i] by (rule resultSat_rel_mono) simp_all
  show ?thesis
  proof (cases "upstreamSetId (queryStorages s q) \<noteq> sid")
    case True
    then show ?thesis using inj by (simp add: updateQueryContext_get_def)
  next
    case False
    show ?thesis
    proof (cases input)
      case (StateInput stateItem)
      obtain u t where g: "getStateStorage D stateItem s = (u, t)"
        by (cases "getStateStorage D stateItem s")
      note G = getStateStorage_rel(1) [OF i g, of "{}" "{}"] getStateStorage_rel(2) [OF i g]
      show ?thesis using False StateInput trackedRead_rel [OF c G(1) q, of "StateRef u"] G(2)
        by (simp add: updateQueryContext_get_def g)
    next
      case (EntityInput entityItem)
      obtain u t where g: "getEntityStorage entityItem s = (u, t)"
        by (cases "getEntityStorage entityItem s")
      note G = getEntityStorage_rel(1) [OF i g, of "{}" "{}"] getEntityStorage_rel(2) [OF i g]
      show ?thesis using False EntityInput trackedRead_rel [OF c G(1) q, of "EntityRef u"] G(2)
        by (simp add: updateQueryContext_get_def g)
    next
      case (QueryInput queryAction)
      have "resultSat (rel {q} {} s) (\<lambda>_ _. True)
              (andThen (getQueryStorage_call c queryAction s)
                 (\<lambda>u s1. injectedGet_call c input (addEdge q (QueryRef u) s1)))"
      proof (rule resultSat_andThen [OF callsOkD(1) [OF c i]])
        fix u t assume t: "rel {} {} s t" and u: "u < uid t"
        show "resultSat (rel {q} {} s) (\<lambda>_ _. True)
                (injectedGet_call c input (addEdge q (QueryRef u) t))"
          using trackedRead_rel [OF c t q, of "QueryRef u"] u by simp
      qed (auto intro: rel_mono)
      then show ?thesis using False QueryInput by (simp add: updateQueryContext_get_def)
    qed
  qed
qed

lemma contextGet_body_rel:
  assumes c: "callsOk c" and i: "storeInv s" and q: "\<forall>q \<in> tracked ctx. q < uid s"
  shows "resultSat (rel (tracked ctx) {} s) (\<lambda>_ _. True) (contextGet_body c D ctx input s)"
proof (cases ctx)
  case (CreateQueryContext p sid)
  then show ?thesis using q createQueryContext_get_rel [OF c i, of p]
    by (simp add: contextGet_body_def tracked_def)
next
  case (UpdateQueryContext p sid)
  then show ?thesis using q updateQueryContext_get_rel [OF c i, of p]
    by (simp add: contextGet_body_def tracked_def)
next
  case InjectedContext
  then show ?thesis using callsOkD(5) [OF c i] by (simp add: contextGet_body_def tracked_def)
qed

lemma updateWipUpstreams_body_rel:
  assumes c: "callsOk c" and i: "storeInv s" and q: "q < uid s"
  shows "resultSat (rel {} {} s) (\<lambda>_ _. True) (updateWipUpstreams_body c q j b s)"
proof (cases "j < length (wipUpstreamSet (queryStorages s q))")
  case False
  then show ?thesis using i by (simp add: updateWipUpstreams_body_def rel_refl)
next
  case True
  let ?r = "wipUpstreamSet (queryStorages s q) ! j"
  have r: "refAddr ?r < uid s" using True by (intro storeInv_D(8) [OF i, of _ q]) simp
  show ?thesis
  proof (cases ?r)
    case (StateRef u)
    then show ?thesis using True callsOkD(8) [OF c i q]
      by (simp add: updateWipUpstreams_body_def)
  next
    case (EntityRef u)
    then show ?thesis using True callsOkD(8) [OF c i q]
      by (simp add: updateWipUpstreams_body_def)
  next
    case (QueryRef u)
    then have u: "u < uid s" using r by simp
    have first: "resultSat (rel {} {} s) (\<lambda>_ _. True)
            (if status (queryStorages s u) = Wip then updateWipQueryStorage_call c u s
             else Ok () s)"
      using callsOkD(7) [OF c i u] i by (simp add: rel_refl)
    have "resultSat (rel {} {} s) (\<lambda>_ _. True)
            (andThen (if status (queryStorages s u) = Wip then updateWipQueryStorage_call c u s
                      else Ok () s)
               (\<lambda>_ s1. updateWipUpstreams_call c q (Suc j)
                  (b \<or> status (queryStorages s1 u) = Updated) s1))"
    proof (rule resultSat_andThen [OF first])
      fix t assume t: "rel {} {} s t"
      show "resultSat (rel {} {} s) (\<lambda>_ _. True)
              (updateWipUpstreams_call c q (Suc j) (b \<or> status (queryStorages t u) = Updated) t)"
        using callsOkD(8) [OF c rel_storeInv [OF t] rel_less [OF t q]]
        by (rule resultSat_rel_after [OF t])
    qed simp
    then show ?thesis using True QueryRef by (simp add: updateWipUpstreams_body_def)
  qed
qed

lemma updateWipQueryStorage_body_rel:
  assumes c: "callsOk c" and i: "storeInv s" and q: "q < uid s"
  shows "resultSat (rel {} {} s) (\<lambda>_ _. True) (updateWipQueryStorage_body c q s)"
proof (cases "status (queryStorages s q) \<noteq> Wip")
  case True
  then show ?thesis using i by (simp add: updateWipQueryStorage_body_def rel_refl)
next
  case False
  have first: "resultSat (rel {} {} s) (\<lambda>_ _. True)
      (if wipUpstreamSet (queryStorages s q) \<noteq> []
       then andThen (updateWipUpstreams_call c q 0 False s)
              (\<lambda>shouldUpdate s1.
                 Ok shouldUpdate (updQuery q (\<lambda>st. st\<lparr>wipUpstreamSet := []\<rparr>) s1))
       else Ok True s)"
  proof (cases "wipUpstreamSet (queryStorages s q) \<noteq> []")
    case True
    have "resultSat (rel {} {} s) (\<lambda>_ _. True)
            (andThen (updateWipUpstreams_call c q 0 False s)
               (\<lambda>shouldUpdate s1.
                  Ok shouldUpdate (updQuery q (\<lambda>st. st\<lparr>wipUpstreamSet := []\<rparr>) s1)))"
    proof (rule resultSat_andThen [OF callsOkD(8) [OF c i q]])
      fix b :: bool and t assume t: "rel {} {} s t"
      show "resultSat (rel {} {} s) (\<lambda>_ _. True)
              (Ok b (updQuery q (\<lambda>st. st\<lparr>wipUpstreamSet := []\<rparr>) t))"
        using rel_step [OF t storeInv_wipUpstreamSet [OF rel_storeInv [OF t]] frame_wipUpstreamSet]
        by simp
    qed simp
    then show ?thesis using True by simp
  next
    case False
    then show ?thesis using i by (simp add: rel_refl)
  qed
  have second: "resultSat (rel {} {} s) (\<lambda>_ _. True)
      (if \<not> b then Ok () (updQuery q (\<lambda>st. st\<lparr>status := Default\<rparr>) t)
       else andThen (updateQueryStorage_call c q t)
              (\<lambda>isUpdated s3.
                 Ok () (updQuery q
                   (\<lambda>st. st\<lparr>status := (if isUpdated then Updated else Default)\<rparr>) s3)))"
    if t: "rel {} {} s t" for b t
  proof (cases b)
    case False
    have "rel {} {} s (updQuery q (\<lambda>st. st\<lparr>status := Default\<rparr>) t)"
      by (rule rel_step [OF t storeInv_status [OF rel_storeInv [OF t]] frame_status]) simp_all
    then show ?thesis using False by simp
  next
    case True
    note u = callsOkD(9) [OF c rel_storeInv [OF t] rel_less [OF t q]]
    have drop: "rel {} {} s u" if "rel {} {q} t u" for u
    proof -
      have "rel {} {q} s u" using rel_trans_left [OF t that] .
      then show ?thesis using False frame_dropG [of "{}" "{q}" s u] by (simp add: rel_def)
    qed
    have "resultSat (rel {} {} s) (\<lambda>_ _. True)
            (andThen (updateQueryStorage_call c q t)
               (\<lambda>isUpdated s3.
                  Ok () (updQuery q
                    (\<lambda>st. st\<lparr>status := (if isUpdated then Updated else Default)\<rparr>) s3)))"
    proof (rule resultSat_andThen [OF u])
      fix e u assume "rel {} {q} t u \<and>
        upstreamSetId (queryStorages t q) < upstreamSetId (queryStorages u q)"
      then show "rel {} {} s u" using drop by simp
    next
      fix isUpdated u assume "rel {} {q} t u \<and>
        upstreamSetId (queryStorages t q) < upstreamSetId (queryStorages u q)"
        and e: "isUpdated \<longrightarrow> EmitQuery q \<in> set (pendingEmitSet u)"
      then have u: "rel {} {} s u" using drop by simp
      have "rel {} {} s (updQuery q
              (\<lambda>st. st\<lparr>status := (if isUpdated then Updated else Default)\<rparr>) u)"
        by (rule rel_step [OF u storeInv_status [OF rel_storeInv [OF u]] frame_status])
           (use e in \<open>simp_all split: if_splits\<close>)
      then show "resultSat (rel {} {} s) (\<lambda>_ _. True)
              (Ok () (updQuery q
                 (\<lambda>st. st\<lparr>status := (if isUpdated then Updated else Default)\<rparr>) u))"
        by simp
    qed
    then show ?thesis using True by simp
  qed
  show ?thesis using False unfolding updateWipQueryStorage_body_def
    by (simp only: if_False) (rule resultSat_andThen [OF first], simp, rule second)
qed

lemma updateQueryStorage_body_rel:
  assumes c: "callsOk c" and i: "storeInv s" and q: "q < uid s"
  shows "resultSat (\<lambda>s'. rel {} {q} s s'
                        \<and> upstreamSetId (queryStorages s q) < upstreamSetId (queryStorages s' q))
           (\<lambda>b s'. b \<longrightarrow> EmitQuery q \<in> set (pendingEmitSet s'))
           (updateQueryStorage_body c D q s)"
proof -
  let ?sid = "Suc (upstreamSetId (queryStorages s q))"
  let ?s2 = "updQuery q (\<lambda>st. st\<lparr>upstreamSet := [], upstreamSetId := ?sid\<rparr>)
               (fold (detachUpstream q) (upstreamSet (queryStorages s q)) s)"
  let ?E = "\<lambda>s'. rel {} {q} s s'
              \<and> upstreamSetId (queryStorages s q) < upstreamSetId (queryStorages s' q)"
  have i2: "storeInv ?s2" using i by (rule storeInv_beginUpdate)
  have r2: "rel {} {q} s ?s2" using i2 by (simp add: rel_def frame_beginUpdate)
  have id2: "upstreamSetId (queryStorages ?s2 q) = ?sid" by simp
  have run: "resultSat (rel {q} {} ?s2) (\<lambda>_ _. True)
               (runProg (contextGet_call c (UpdateQueryContext q ?sid)) prog ?s2)"
    for prog :: "jsval prog"
  proof (rule runProg_rel)
    show "resultSat (rel {q} {} t) (\<lambda>_ _. True)
            (contextGet_call c (UpdateQueryContext q ?sid) input t)"
      if "storeInv t" and "\<forall>p \<in> {q}. p < uid t" for input t
      using callsOkD(6) [OF c that(1), of "UpdateQueryContext q ?sid" input] that(2)
      by (simp add: tracked_def)
  qed (simp_all add: i2 q)
  have after: "?E t" if t: "rel {q} {} ?s2 t" for t
  proof -
    have "upstreamSetId (queryStorages ?s2 q) \<le> upstreamSetId (queryStorages t q)"
      using frame_query(4) [OF rel_frame [OF t], of q] q by simp
    then have lt: "upstreamSetId (queryStorages s q) < upstreamSetId (queryStorages t q)"
      unfolding id2 by simp
    have "rel ({} \<union> {q}) ({q} \<union> {}) s t" using r2 t by (rule rel_trans)
    then have "rel {q} {q} s t" by simp
    then have "rel {} {q} s t"
      using lt frame_dropF [of "{q}" "{q}" s t] by (simp add: rel_def)
    then show ?thesis using lt by simp
  qed
  have "resultSat ?E (\<lambda>b s'. b \<longrightarrow> EmitQuery q \<in> set (pendingEmitSet s'))
          (andThen (runProg (contextGet_call c (UpdateQueryContext q ?sid))
                      (queryImpl D (queryId (Query (queryStorages s q))) (arg (queryStorages s q)))
                      ?s2)
             (\<lambda>newValue s3.
                if queryCompare D (queryId (Query (queryStorages s q)))
                     (currentValue (queryStorages s3 q)) newValue
                then Ok False s3
                else Ok True ((updQuery q (\<lambda>st. st\<lparr>currentValue := newValue\<rparr>) s3)
                       \<lparr>pendingEmitSet := setAdd (EmitQuery q) (pendingEmitSet s3)\<rparr>)))"
  proof (rule resultSat_andThen [OF run])
    fix e t assume "rel {q} {} ?s2 t"
    then show "?E t" by (rule after)
  next
    fix v t assume t: "rel {q} {} ?s2 t"
    note E = after [OF t]
    have "rel {} {q} s ((updQuery q (\<lambda>st. st\<lparr>currentValue := v\<rparr>) t)
                          \<lparr>pendingEmitSet := setAdd (EmitQuery q) (pendingEmitSet t)\<rparr>)"
      using E by (simp add: rel_def storeInv_assign frame_assign)
    then show "resultSat ?E (\<lambda>b s'. b \<longrightarrow> EmitQuery q \<in> set (pendingEmitSet s'))
            (if queryCompare D (queryId (Query (queryStorages s q)))
                  (currentValue (queryStorages t q)) v
             then Ok False t
             else Ok True ((updQuery q (\<lambda>st. st\<lparr>currentValue := v\<rparr>) t)
                    \<lparr>pendingEmitSet := setAdd (EmitQuery q) (pendingEmitSet t)\<rparr>))"
      using E by simp
  qed
  then show ?thesis by (simp add: updateQueryStorage_body_def Let_def)
qed

text \<open>With any number of nested calls allowed, the query functions keep the invariant and
  stay within the frame.\<close>

lemma callsOk_callsAt: "callsOk (callsAt n D)"
proof (induction n)
  case 0
  show ?case by (simp add: callsOk_def)
next
  case (Suc n)
  show ?case
    unfolding callsOk_def callsAt.simps Let_def calls.simps
    by (intro conjI allI impI)
       (simp_all add: getQueryStorage_body_rel createQueryStorage_body_rel
          restoreQueryStorage_body_rel getCurrentQueryValue_body_rel injectedGet_body_rel
          contextGet_body_rel updateWipQueryStorage_body_rel updateWipUpstreams_body_rel
          updateQueryStorage_body_rel Suc.IH)
qed

section \<open>The query functions keep the invariant\<close>

lemma getQueryStorage_rel:
  "storeInv s \<Longrightarrow> resultSat (rel {} {} s) (\<lambda>u s'. u < uid s') (getQueryStorage n D qa s)"
  unfolding getQueryStorage_def by (rule callsOkD(1) [OF callsOk_callsAt])

lemma createQueryStorage_rel:
  "storeInv s \<Longrightarrow> resultSat (rel {} {} s) (\<lambda>u s'. u < uid s') (createQueryStorage n D qa s)"
  unfolding createQueryStorage_def by (rule callsOkD(2) [OF callsOk_callsAt])

lemma restoreQueryStorage_rel:
  "storeInv s \<Longrightarrow> q < uid s \<Longrightarrow>
   resultSat (rel {} {} s) (\<lambda>_ _. True) (restoreQueryStorage n D q s)"
  unfolding restoreQueryStorage_def by (rule callsOkD(3) [OF callsOk_callsAt])


lemma injectedGet_rel:
  "storeInv s \<Longrightarrow> resultSat (rel {} {} s) (\<lambda>_ _. True) (injectedGet n D input s)"
  unfolding injectedGet_def by (rule callsOkD(5) [OF callsOk_callsAt])

lemma contextGet_rel:
  "storeInv s \<Longrightarrow> \<forall>q \<in> tracked ctx. q < uid s \<Longrightarrow>
   resultSat (rel (tracked ctx) {} s) (\<lambda>_ _. True) (contextGet n D ctx input s)"
  unfolding contextGet_def by (rule callsOkD(6) [OF callsOk_callsAt])

lemma updateWipQueryStorage_rel:
  "storeInv s \<Longrightarrow> q < uid s \<Longrightarrow>
   resultSat (rel {} {} s) (\<lambda>_ _. True) (updateWipQueryStorage n D q s)"
  unfolding updateWipQueryStorage_def by (rule callsOkD(7) [OF callsOk_callsAt])

lemma updateWipUpstreams_rel:
  "storeInv s \<Longrightarrow> q < uid s \<Longrightarrow>
   resultSat (rel {} {} s) (\<lambda>_ _. True) (updateWipUpstreams n D q j b s)"
  unfolding updateWipUpstreams_def by (rule callsOkD(8) [OF callsOk_callsAt])

lemma updateQueryStorage_rel:
  "storeInv s \<Longrightarrow> q < uid s \<Longrightarrow>
   resultSat (\<lambda>s'. rel {} {q} s s'
                   \<and> upstreamSetId (queryStorages s q) < upstreamSetId (queryStorages s' q))
     (\<lambda>b s'. b \<longrightarrow> EmitQuery q \<in> set (pendingEmitSet s')) (updateQueryStorage n D q s)"
  unfolding updateQueryStorage_def by (rule callsOkD(9) [OF callsOk_callsAt])

text \<open>The evaluation of a query, from the store in which it starts.\<close>

lemma evaluation_rel:
  assumes "storeInv s" and "q < uid s"
  shows "resultSat (rel {q} {} s) (\<lambda>_ _. True)
           (runProg (contextGet n D (UpdateQueryContext q sid)) prog s)"
proof (rule runProg_rel)
  show "resultSat (rel {q} {} t) (\<lambda>_ _. True) (contextGet n D (UpdateQueryContext q sid) input t)"
    if "storeInv t" and "\<forall>p \<in> {q}. p < uid t" for input t
    using contextGet_rel [OF that(1), of "UpdateQueryContext q sid" n D input] that(2)
    by (simp add: tracked_def)
qed (simp_all add: assms)

lemma resultSat_OkD: "resultSat E P r \<Longrightarrow> r = Ok a s \<Longrightarrow> E s \<and> P a s"
  by simp

lemma resultSat_ErrD: "resultSat E P r \<Longrightarrow> r = Err e s \<Longrightarrow> E s"
  by simp

section \<open>Dispatch and commit keep the invariant\<close>

lemma kept_refl: "storeInv s \<Longrightarrow> kept s s"
  by (simp add: kept_def)

lemma kept_trans: "kept s t \<Longrightarrow> kept t u \<Longrightarrow> kept s u"
  by (auto simp: kept_def)

lemma rel_kept: "rel XF XG s s' \<Longrightarrow> kept s s'"
  by (auto simp: kept_def rel_def intro: frame_uid)

lemma kept_storeInv: "kept s s' \<Longrightarrow> storeInv s'"
  by (simp add: kept_def)

lemma kept_less: "kept s s' \<Longrightarrow> a < uid s \<Longrightarrow> a < uid s'"
  by (simp add: kept_def)

lemma kept_step: "kept s t \<Longrightarrow> storeInv u \<Longrightarrow> uid u = uid t \<Longrightarrow> kept s u"
  by (simp add: kept_def)

lemma resultSat_kept_after:
  assumes "kept s t" and "resultSat (kept t) P r"
  shows "resultSat (kept s) P r"
  using assms(2) by (rule resultSat_mono) (auto intro: kept_trans [OF assms(1)])

lemma resultSat_rel_kept:
  assumes "resultSat (rel XF XG s) P r"
  shows "resultSat (kept s) P r"
  using assms by (rule resultSat_mono) (auto intro: rel_kept)

lemma storeInv_pendingLeafSet:
  assumes "storeInv s" and "q < uid s"
  shows "storeInv (s\<lparr>pendingLeafSet := setAdd q (pendingLeafSet s)\<rparr>)"
  by (rule storeInvI) (auto simp: assms(2) intro: storeInv_D [OF assms(1)])

lemma storeInv_pendingLeafSet_empty:
  assumes "storeInv s"
  shows "storeInv (s\<lparr>pendingLeafSet := []\<rparr>)"
  by (rule storeInvI) (auto intro: storeInv_D [OF assms(1)])

lemma storeInv_pendingClearSet:
  assumes "storeInv s"
  shows "storeInv (s\<lparr>pendingClearSet := x\<rparr>)"
  by (rule storeInvI) (auto intro: storeInv_D [OF assms(1)])

lemma storeInv_pendingEmitSet:
  assumes "storeInv s"
  shows "storeInv (s\<lparr>pendingEmitSet := x\<rparr>)"
  by (rule storeInvI) (auto intro: storeInv_D [OF assms(1)])

lemma storeInv_subjectNext:
  assumes "storeInv s"
  shows "storeInv (subjectNext x s)"
  unfolding subjectNext_def by (rule storeInvI) (auto intro: storeInv_D [OF assms(1)])

lemma storeInv_wipAdd:
  assumes "storeInv s" and "refAddr r < uid s"
  shows "storeInv (updQuery d (\<lambda>st. st\<lparr>wipUpstreamSet := setAdd r (wipUpstreamSet st)\<rparr>) s)"
  by (rule storeInvI) (auto simp: assms(2) intro: storeInv_D [OF assms(1)] split: if_splits)

lemma storeInv_refCount:
  assumes "storeInv s"
  shows "storeInv (updQuery q (\<lambda>st. st\<lparr>refCount := f st\<rparr>) s)"
  by (rule storeInvI) (auto intro: storeInv_D [OF assms(1)] split: if_splits)

lemma storeInv_currentState:
  assumes "storeInv s"
  shows "storeInv ((updState a (\<lambda>st. st\<lparr>currentState := v\<rparr>) s)\<lparr>pendingEmitSet := x\<rparr>)"
  by (rule storeInvI) (auto intro: storeInv_D [OF assms(1)])

lemma storeInv_currentEntity:
  assumes "storeInv s"
  shows "storeInv (updEntity a (\<lambda>st. st\<lparr>currentEntity := v\<rparr>) s)"
  by (rule storeInvI) (auto intro: storeInv_D [OF assms(1)])

lemma downstreamOf_entity_cleared:
  "downstreamOf (updEntity a (\<lambda>st. st\<lparr>downstreamSet := []\<rparr>) s) r
     = (if r = EntityRef a then [] else downstreamOf s r)"
  "downstreamOf (updEntity a (\<lambda>st. st\<lparr>downstreamSet := [], currentEntity := v\<rparr>) s) r
     = (if r = EntityRef a then [] else downstreamOf s r)"
  by (cases r; simp add: downstreamOf_simps)+


lemma storeInv_entity_cleared:
  assumes "storeInv s"
  shows "storeInv (updEntity a (\<lambda>st. st\<lparr>downstreamSet := []\<rparr>) s)"
    and "storeInv (updEntity a (\<lambda>st. st\<lparr>downstreamSet := [], currentEntity := v\<rparr>) s)"
  by (rule storeInvI;
      auto simp: downstreamOf_entity_cleared intro: storeInv_D [OF assms(1)] split: if_splits)+

lemma storeInv_entityMap_delete:
  assumes "storeInv s"
  shows "storeInv (s\<lparr>entityMap := (entityMap s)(k := None)\<rparr>)"
  by (rule storeInvI) (auto intro: storeInv_D [OF assms(1)] split: if_splits)

lemma storeInv_queryMap_delete:
  assumes "storeInv s"
  shows "storeInv (s\<lparr>queryMap := (queryMap s)(k := None)\<rparr>)"
  by (rule storeInvI) (auto intro: storeInv_D [OF assms(1)] split: if_splits)


lemma storeInv_removeDownstream:
  assumes "storeInv s"
  shows "storeInv (setDownstream r (setDelete q (downstreamOf s r)) s)"
  by (rule storeInvI) (auto intro: storeInv_D [OF assms(1)] split: if_splits)

text \<open>Marking.\<close>

lemma markDownstreams_kept:
  assumes mk: "\<And>d t. storeInv t \<Longrightarrow> d < uid t \<Longrightarrow> resultSat (kept t) (\<lambda>_ _. True) (mk d t)"
  shows "storeInv s \<Longrightarrow> q < uid s \<Longrightarrow> \<forall>d \<in> set ds. d < uid s \<Longrightarrow>
         resultSat (kept s) (\<lambda>_ _. True) (markDownstreams mk q ds s)"
proof (induction ds arbitrary: s)
  case Nil
  then show ?case by (simp add: kept_refl)
next
  case (Cons d rest)
  show ?case
  proof (cases "QueryRef q \<notin> set (wipUpstreamSet (queryStorages s d))")
    case False
    then show ?thesis using Cons by simp
  next
    case True
    let ?s1 = "updQuery d (\<lambda>st. st\<lparr>wipUpstreamSet := setAdd (QueryRef q) (wipUpstreamSet st)\<rparr>) s"
    have i1: "storeInv ?s1" using Cons.prems(1,2) by (intro storeInv_wipAdd) simp_all
    have k1: "kept s ?s1" using i1 by (simp add: kept_def)
    have "resultSat (kept ?s1) (\<lambda>_ _. True) (mk d ?s1)"
      using Cons.prems(3) by (intro mk i1) simp
    then have m: "resultSat (kept s) (\<lambda>_ _. True) (mk d ?s1)"
      by (rule resultSat_kept_after [OF k1])
    have "resultSat (kept s) (\<lambda>_ _. True)
            (andThen (mk d ?s1) (\<lambda>_ s1. markDownstreams mk q rest s1))"
    proof (rule resultSat_andThen [OF m])
      fix t assume t: "kept s t"
      have "resultSat (kept t) (\<lambda>_ _. True) (markDownstreams mk q rest t)"
        using Cons.prems(2,3) kept_less [OF t] by (intro Cons.IH kept_storeInv [OF t]) auto
      then show "resultSat (kept s) (\<lambda>_ _. True) (markDownstreams mk q rest t)"
        by (rule resultSat_kept_after [OF t])
    qed simp
    then show ?thesis using True by simp
  qed
qed

lemma mark_kept:
  "storeInv s \<Longrightarrow> q < uid s \<Longrightarrow> resultSat (kept s) (\<lambda>_ _. True) (mark n q s)"
proof (induction n arbitrary: q s)
  case 0
  then show ?case by simp
next
  case (Suc n)
  let ?s1 = "updQuery q (\<lambda>st. st\<lparr>status := Wip\<rparr>) s"
  have i1: "storeInv ?s1" using Suc.prems(1) by (rule storeInv_status)
  have k1: "kept s ?s1" using i1 by (simp add: kept_def)
  show ?case
  proof (cases "downstreamSet (queryStorages ?s1 q) \<noteq> []")
    case False
    have "storeInv (?s1\<lparr>pendingLeafSet := setAdd q (pendingLeafSet ?s1)\<rparr>)"
      using i1 Suc.prems(2) by (intro storeInv_pendingLeafSet) simp_all
    then show ?thesis using False by (simp add: kept_def)
  next
    case True
    have d: "\<forall>d \<in> set (downstreamSet (queryStorages ?s1 q)). d < uid ?s1"
      using storeInv_D(9) [OF Suc.prems(1), of _ "QueryRef q"] by (simp add: downstreamOf_simps)
    have "resultSat (kept ?s1) (\<lambda>_ _. True)
            (markDownstreams (mark n) q (downstreamSet (queryStorages ?s1 q)) ?s1)"
      using Suc.prems(2) by (intro markDownstreams_kept Suc.IH i1 d) simp_all
    then have "resultSat (kept s) (\<lambda>_ _. True)
            (markDownstreams (mark n) q (downstreamSet (queryStorages ?s1 q)) ?s1)"
      by (rule resultSat_kept_after [OF k1])
    then show ?thesis using True by (simp add: Let_def)
  qed
qed

lemma markFrom_kept:
  "storeInv s \<Longrightarrow> refAddr r < uid s \<Longrightarrow> \<forall>d \<in> set ds. d < uid s \<Longrightarrow>
   resultSat (kept s) (\<lambda>_ _. True) (markFrom n r ds s)"
proof (induction ds arbitrary: s)
  case Nil
  then show ?case by (simp add: kept_refl)
next
  case (Cons d rest)
  let ?s1 = "updQuery d (\<lambda>st. st\<lparr>wipUpstreamSet := setAdd r (wipUpstreamSet st)\<rparr>) s"
  have i1: "storeInv ?s1" using Cons.prems(1,2) by (rule storeInv_wipAdd)
  have k1: "kept s ?s1" using i1 by (simp add: kept_def)
  have "resultSat (kept ?s1) (\<lambda>_ _. True) (mark n d ?s1)"
    using Cons.prems(3) by (intro mark_kept i1) simp
  then have m: "resultSat (kept s) (\<lambda>_ _. True) (mark n d ?s1)"
    by (rule resultSat_kept_after [OF k1])
  have "resultSat (kept s) (\<lambda>_ _. True)
          (andThen (mark n d ?s1) (\<lambda>_ s1. markFrom n r rest s1))"
  proof (rule resultSat_andThen [OF m])
    fix t assume t: "kept s t"
    have "resultSat (kept t) (\<lambda>_ _. True) (markFrom n r rest t)"
      using Cons.prems(2,3) kept_less [OF t] by (intro Cons.IH kept_storeInv [OF t]) auto
    then show "resultSat (kept s) (\<lambda>_ _. True) (markFrom n r rest t)"
      by (rule resultSat_kept_after [OF t])
  qed simp
  then show ?case by simp
qed

lemma markEach_kept:
  "storeInv s \<Longrightarrow> \<forall>d \<in> set ds. d < uid s \<Longrightarrow>
   resultSat (kept s) (\<lambda>_ _. True) (markEach n ds s)"
proof (induction ds arbitrary: s)
  case Nil
  then show ?case by (simp add: kept_refl)
next
  case (Cons d rest)
  have m: "resultSat (kept s) (\<lambda>_ _. True) (mark n d s)"
    using Cons.prems by (intro mark_kept) simp_all
  have "resultSat (kept s) (\<lambda>_ _. True) (andThen (mark n d s) (\<lambda>_ s1. markEach n rest s1))"
  proof (rule resultSat_andThen [OF m])
    fix t assume t: "kept s t"
    have "resultSat (kept t) (\<lambda>_ _. True) (markEach n rest t)"
      using Cons.prems(2) kept_less [OF t] by (intro Cons.IH kept_storeInv [OF t]) auto
    then show "resultSat (kept s) (\<lambda>_ _. True) (markEach n rest t)"
      by (rule resultSat_kept_after [OF t])
  qed simp
  then show ?case by simp
qed

text \<open>Dispatch.\<close>

lemma updateStateItem_kept:
  assumes i: "storeInv s"
  shows "resultSat (kept s) (\<lambda>_ _. True) (updateStateItem n D stateItem v s)"
proof -
  obtain a s1 where g: "getStateStorage D stateItem s = (a, s1)"
    by (cases "getStateStorage D stateItem s")
  note r1 = getStateStorage_rel(1) [OF i g, of "{}" "{}"] and a = getStateStorage_rel(2) [OF i g]
  note k1 = rel_kept [OF r1] and i1 = rel_storeInv [OF r1]
  let ?s2 = "(updState a (\<lambda>st. st\<lparr>currentState := v\<rparr>) s1)
               \<lparr>pendingEmitSet := setAdd (EmitState a) (pendingEmitSet s1)\<rparr>"
  have i2: "storeInv ?s2" using i1 by (rule storeInv_currentState)
  have k2: "kept s ?s2" using k1 i2 by (simp add: kept_def)
  have d: "\<forall>d \<in> set (downstreamSet (stateStorages ?s2 a)). d < uid ?s2"
    using storeInv_D(9) [OF i2, of _ "StateRef a"] by (simp add: downstreamOf_simps)
  have "resultSat (kept ?s2) (\<lambda>_ _. True)
          (markFrom n (StateRef a) (downstreamSet (stateStorages ?s2 a)) ?s2)"
    using a by (intro markFrom_kept i2 d) simp
  then have "resultSat (kept s) (\<lambda>_ _. True)
          (markFrom n (StateRef a) (downstreamSet (stateStorages ?s2 a)) ?s2)"
    by (rule resultSat_kept_after [OF k2])
  then show ?thesis using k1 by (simp add: updateStateItem_def g Let_def)
qed

lemma updateEntityItem_kept:
  assumes i: "storeInv s"
  shows "resultSat (kept s) (\<lambda>_ _. True) (updateEntityItem n D entityItem v s)"
proof -
  obtain a s1 where g: "getEntityStorage entityItem s = (a, s1)"
    by (cases "getEntityStorage entityItem s")
  note r1 = getEntityStorage_rel(1) [OF i g, of "{}" "{}"] and a = getEntityStorage_rel(2) [OF i g]
  note k1 = rel_kept [OF r1] and i1 = rel_storeInv [OF r1]
  let ?s2 = "(updEntity a (\<lambda>st. st\<lparr>currentEntity := v\<rparr>) s1)
               \<lparr>pendingEmitSet := setAdd (EmitEntity a) (pendingEmitSet s1)\<rparr>"
  have i2': "storeInv (updEntity a (\<lambda>st. st\<lparr>currentEntity := v\<rparr>) s1)"
    using i1 by (rule storeInv_currentEntity)
  then have i2: "storeInv ?s2" by (rule storeInv_pendingEmitSet)
  have k2': "kept s (updEntity a (\<lambda>st. st\<lparr>currentEntity := v\<rparr>) s1)"
    using k1 i2' by (simp add: kept_def)
  have k2: "kept s ?s2" using k1 i2 by (simp add: kept_def)
  have d: "\<forall>d \<in> set (downstreamSet (entityStorages ?s2 a)). d < uid ?s2"
    using storeInv_D(9) [OF i2, of _ "EntityRef a"] by (simp add: downstreamOf_simps)
  have "resultSat (kept ?s2) (\<lambda>_ _. True)
          (markFrom n (EntityRef a) (downstreamSet (entityStorages ?s2 a)) ?s2)"
    using a by (intro markFrom_kept i2 d) simp
  then have "resultSat (kept s) (\<lambda>_ _. True)
          (markFrom n (EntityRef a) (downstreamSet (entityStorages ?s2 a)) ?s2)"
    by (rule resultSat_kept_after [OF k2])
  then show ?thesis using k1 k2' by (simp add: updateEntityItem_def g Let_def)
qed

lemma deleteEntityItem_kept:
  assumes i: "storeInv s"
  shows "resultSat (kept s) (\<lambda>_ _. True) (deleteEntityItem n payload s)"
proof -
  obtain a s1 where g: "getEntityStorage (dpEntityItem payload) s = (a, s1)"
    by (cases "getEntityStorage (dpEntityItem payload) s")
  note r1 = getEntityStorage_rel(1) [OF i g, of "{}" "{}"]
  note k1 = rel_kept [OF r1] and i1 = rel_storeInv [OF r1]
  let ?s2 = "updEntity a (\<lambda>st. st\<lparr>currentEntity := JNull\<rparr>) s1"
  have i2: "storeInv ?s2" using i1 by (rule storeInv_currentEntity)
  have k2: "kept s ?s2" using k1 i2 by (simp add: kept_def)
  have d: "\<forall>d \<in> set (downstreamSet (entityStorages ?s2 a)). d < uid ?s2"
    using storeInv_D(9) [OF i2, of _ "EntityRef a"] by (simp add: downstreamOf_simps)
  have m: "resultSat (kept s) (\<lambda>_ _. True) (markEach n (downstreamSet (entityStorages ?s2 a)) ?s2)"
    by (rule resultSat_kept_after [OF k2]) (intro markEach_kept i2 d)
  have "resultSat (kept s) (\<lambda>_ _. True)
          (andThen (markEach n (downstreamSet (entityStorages ?s2 a)) ?s2)
             (\<lambda>_ s3. Ok ()
                ((updEntity a (\<lambda>st. st\<lparr>downstreamSet := []\<rparr>) s3)
                   \<lparr>pendingEmitSet := setAdd (EmitDelete payload) (pendingEmitSet s3)\<rparr>)))"
  proof (rule resultSat_andThen [OF m])
    fix t assume t: "kept s t"
    have "storeInv ((updEntity a (\<lambda>st. st\<lparr>downstreamSet := []\<rparr>) t)
                      \<lparr>pendingEmitSet := setAdd (EmitDelete payload) (pendingEmitSet t)\<rparr>)"
      by (intro storeInv_pendingEmitSet storeInv_entity_cleared kept_storeInv [OF t])
    then show "resultSat (kept s) (\<lambda>_ _. True)
                 (Ok () ((updEntity a (\<lambda>st. st\<lparr>downstreamSet := []\<rparr>) t)
                    \<lparr>pendingEmitSet := setAdd (EmitDelete payload) (pendingEmitSet t)\<rparr>))"
      using t by (simp add: kept_def)
  qed simp
  then show ?thesis by (simp add: deleteEntityItem_def g Let_def)
qed

lemma clearEntityStorage_kept:
  assumes i: "storeInv s"
  shows "resultSat (kept s) (\<lambda>_ _. True) (clearEntityStorage n a s)"
proof (cases "entityMap s (key (entityStorages s a)) = None")
  case True
  then show ?thesis using i by (simp add: clearEntityStorage_def kept_refl)
next
  case False
  let ?s1 = "s\<lparr>entityMap := (entityMap s)(key (entityStorages s a) := None)\<rparr>"
  have i1: "storeInv ?s1" using i by (rule storeInv_entityMap_delete)
  have k1: "kept s ?s1" using i1 by (simp add: kept_def)
  have d: "\<forall>d \<in> set (downstreamSet (entityStorages ?s1 a)). d < uid ?s1"
    using storeInv_D(9) [OF i1, of _ "EntityRef a"] by (simp add: downstreamOf_simps)
  have m: "resultSat (kept s) (\<lambda>_ _. True) (markEach n (downstreamSet (entityStorages ?s1 a)) ?s1)"
    by (rule resultSat_kept_after [OF k1]) (intro markEach_kept i1 d)
  have "resultSat (kept s) (\<lambda>_ _. True)
          (andThen (markEach n (downstreamSet (entityStorages ?s1 a)) ?s1)
             (\<lambda>_ s2. Ok ()
                (updEntity a (\<lambda>st. st\<lparr>downstreamSet := [], currentEntity := JNull\<rparr>) s2)))"
  proof (rule resultSat_andThen [OF m])
    fix t assume t: "kept s t"
    have "storeInv (updEntity a (\<lambda>st. st\<lparr>downstreamSet := [], currentEntity := JNull\<rparr>) t)"
      by (intro storeInv_entity_cleared kept_storeInv [OF t])
    then show "resultSat (kept s) (\<lambda>_ _. True)
                 (Ok () (updEntity a (\<lambda>st. st\<lparr>downstreamSet := [], currentEntity := JNull\<rparr>) t))"
      using t by (simp add: kept_def)
  qed simp
  then show ?thesis using False by (auto simp: clearEntityStorage_def Let_def)
qed

lemma handleEach_kept:
  assumes h: "\<And>item t. storeInv t \<Longrightarrow> resultSat (kept t) (\<lambda>_ _. True) (h item t)"
  shows "storeInv s \<Longrightarrow> resultSat (kept s) (\<lambda>_ _. True) (handleEach h items s)"
proof (induction items arbitrary: s)
  case Nil
  then show ?case by (simp add: kept_refl)
next
  case (Cons item rest)
  have "resultSat (kept s) (\<lambda>_ _. True) (andThen (h item s) (\<lambda>_ s1. handleEach h rest s1))"
  proof (rule resultSat_andThen [OF h [OF Cons.prems]])
    fix t assume t: "kept s t"
    show "resultSat (kept s) (\<lambda>_ _. True) (handleEach h rest t)"
      by (rule resultSat_kept_after [OF t]) (rule Cons.IH [OF kept_storeInv [OF t]])
  qed simp
  then show ?case by simp
qed

lemma injected_run_rel:
  assumes "storeInv s"
  shows "resultSat (rel {} {} s) (\<lambda>_ _. True) (runProg (injectedGet n D) prog s)"
  by (rule runProg_rel) (simp_all add: injectedGet_rel assms)

lemma handleCommandAction_kept:
  assumes h: "\<And>out t. storeInv t \<Longrightarrow> resultSat (kept t) (\<lambda>_ _. True) (h out t)"
    and i: "storeInv s"
  shows "resultSat (kept s) (\<lambda>_ _. True) (handleCommandAction h n D commandAction s)"
proof -
  let ?s1 = "s\<lparr>pendingEmitSet := setAdd (EmitCommand commandAction) (pendingEmitSet s)\<rparr>"
  have i1: "storeInv ?s1" using i by (rule storeInv_pendingEmitSet)
  have k1: "kept s ?s1" using i1 by (simp add: kept_def)
  have run: "resultSat (kept s) (\<lambda>_ _. True)
               (runProg (injectedGet n D)
                  (commandImpl D (commandId (caCommand commandAction)) (caArg commandAction)) ?s1)"
    by (rule resultSat_kept_after [OF k1]) (rule resultSat_rel_kept [OF injected_run_rel [OF i1]])
  have "resultSat (kept s) (\<lambda>_ _. True)
          (andThen (runProg (injectedGet n D)
                      (commandImpl D (commandId (caCommand commandAction)) (caArg commandAction))
                      ?s1) h)"
  proof (rule resultSat_andThen [OF run])
    fix out t assume t: "kept s t"
    show "resultSat (kept s) (\<lambda>_ _. True) (h out t)"
      by (rule resultSat_kept_after [OF t]) (rule h [OF kept_storeInv [OF t]])
  qed simp
  then show ?thesis by (simp add: handleCommandAction_def Let_def)
qed

lemma handleCommandOutput_kept:
  "storeInv s \<Longrightarrow> resultSat (kept s) (\<lambda>_ _. True) (handleCommandOutput n D out s)"
proof (induction n arbitrary: out s)
  case 0
  then show ?case by simp
next
  case (Suc n)
  show ?case
  proof (cases out)
    case NoOutput
    then show ?thesis using Suc.prems by (simp add: kept_refl)
  next
    case (OutputList items)
    then show ?thesis using handleEach_kept [of "handleCommandOutput n D", OF Suc.IH Suc.prems]
      by simp
  next
    case (CommandActionOutput commandAction)
    then show ?thesis
      using handleCommandAction_kept [of "handleCommandOutput n D", OF Suc.IH Suc.prems] by simp
  next
    case (StateItemUpdatePayload stateItem v)
    then show ?thesis using updateStateItem_kept [OF Suc.prems] by simp
  next
    case (EntityItemUpdatePayload entityItem v)
    then show ?thesis using updateEntityItem_kept [OF Suc.prems] by simp
  next
    case (EntityItemDeletePayload payload)
    then show ?thesis using deleteEntityItem_kept [OF Suc.prems] by simp
  next
    case (EventActionOutput eventAction)
    then show ?thesis using storeInv_pendingEmitSet [OF Suc.prems] by (simp add: kept_def)
  qed
qed

text \<open>Collection.\<close>

lemma clearUpstreams_kept:
  assumes c: "\<And>u t. storeInv t \<Longrightarrow> resultSat (kept t) (\<lambda>_ _. True) (clearIfNeeded u t)"
  shows "storeInv s \<Longrightarrow> resultSat (kept s) (\<lambda>_ _. True) (clearUpstreams clearIfNeeded q rs s)"
proof (induction rs arbitrary: s)
  case Nil
  then show ?case by (simp add: kept_refl)
next
  case (Cons r rest)
  let ?s1 = "setDownstream r (setDelete q (downstreamOf s r)) s"
  have i1: "storeInv ?s1" using Cons.prems by (rule storeInv_removeDownstream)
  have k1: "kept s ?s1" using i1 by (simp add: kept_def)
  have rest: "resultSat (kept s) (\<lambda>_ _. True) (clearUpstreams clearIfNeeded q rest t)"
    if t: "kept s t" for t
    by (rule resultSat_kept_after [OF t]) (rule Cons.IH [OF kept_storeInv [OF t]])
  show ?case
  proof (cases r)
    case (QueryRef u)
    have "resultSat (kept s) (\<lambda>_ _. True)
            (andThen (clearIfNeeded u ?s1) (\<lambda>_ s2. clearUpstreams clearIfNeeded q rest s2))"
      by (rule resultSat_andThen [OF resultSat_kept_after [OF k1 c [OF i1]]]) (simp_all add: rest)
    then show ?thesis using QueryRef by (simp add: Let_def)
  next
    case (StateRef u)
    then show ?thesis using rest [OF k1] by (simp add: Let_def)
  next
    case (EntityRef u)
    then show ?thesis using rest [OF k1] by (simp add: Let_def)
  qed
qed

lemma clearQueryStorage_kept:
  "storeInv s \<Longrightarrow> resultSat (kept s) (\<lambda>_ _. True) (clearQueryStorage n q s)"
proof (induction n arbitrary: q s)
  case 0
  then show ?case by simp
next
  case (Suc n)
  show ?case
  proof (cases "queryMap s (key (queryStorages s q)) = None")
    case True
    then show ?thesis using Suc.prems by (simp add: kept_refl)
  next
    case False
    let ?s1 = "s\<lparr>queryMap := (queryMap s)(key (queryStorages s q) := None)\<rparr>"
    have i1: "storeInv ?s1" using Suc.prems by (rule storeInv_queryMap_delete)
    have k1: "kept s ?s1" using i1 by (simp add: kept_def)
    have "resultSat (kept ?s1) (\<lambda>_ _. True)
            (clearUpstreams
               (\<lambda>u t. if shouldClearQueryStorage t u then clearQueryStorage n u t else Ok () t)
               q (upstreamSet (queryStorages ?s1 q)) ?s1)"
      by (rule clearUpstreams_kept [OF _ i1]) (simp add: Suc.IH kept_refl)
    then have "resultSat (kept s) (\<lambda>_ _. True)
            (clearUpstreams
               (\<lambda>u t. if shouldClearQueryStorage t u then clearQueryStorage n u t else Ok () t)
               q (upstreamSet (queryStorages ?s1 q)) ?s1)"
      by (rule resultSat_kept_after [OF k1])
    then show ?thesis using False by (auto simp: Let_def)
  qed
qed

lemma clearQueryStorageIfNeeded_kept:
  "storeInv s \<Longrightarrow> resultSat (kept s) (\<lambda>_ _. True) (clearQueryStorageIfNeeded n q s)"
  by (simp add: clearQueryStorageIfNeeded_def clearQueryStorage_kept kept_refl)

text \<open>Commit.\<close>

lemma updateWipEach_rel:
  "storeInv s \<Longrightarrow> \<forall>q \<in> set qs. q < uid s \<Longrightarrow>
   resultSat (rel {} {} s) (\<lambda>_ _. True) (updateWipEach n D qs s)"
proof (induction qs arbitrary: s)
  case Nil
  then show ?case by (simp add: rel_refl)
next
  case (Cons q rest)
  have u: "resultSat (rel {} {} s) (\<lambda>_ _. True) (updateWipQueryStorage n D q s)"
    using Cons.prems by (intro updateWipQueryStorage_rel) simp_all
  have "resultSat (rel {} {} s) (\<lambda>_ _. True)
          (andThen (updateWipQueryStorage n D q s) (\<lambda>_ s1. updateWipEach n D rest s1))"
  proof (rule resultSat_andThen [OF u])
    fix t assume t: "rel {} {} s t"
    have "resultSat (rel {} {} t) (\<lambda>_ _. True) (updateWipEach n D rest t)"
      using Cons.prems(2) rel_less [OF t] by (intro Cons.IH rel_storeInv [OF t]) auto
    then show "resultSat (rel {} {} s) (\<lambda>_ _. True) (updateWipEach n D rest t)"
      by (rule resultSat_rel_after [OF t])
  qed simp
  then show ?case by simp
qed

lemma frame_pendingLeafSet: "frame XF XG s (s\<lparr>pendingLeafSet := x\<rparr>)"
  by (rule frameI) simp_all

lemma clearPendingLeafSetIfNeeded_rel:
  "storeInv s \<Longrightarrow> resultSat (rel {} {} s) (\<lambda>_ _. True) (clearPendingLeafSetIfNeeded n D s)"
proof (induction n arbitrary: s)
  case 0
  then show ?case by simp
next
  case (Suc n)
  show ?case
  proof (cases "pendingLeafSet s = []")
    case True
    then show ?thesis using Suc.prems by (simp add: rel_refl)
  next
    case False
    let ?s1 = "s\<lparr>pendingLeafSet := []\<rparr>"
    have i1: "storeInv ?s1" using Suc.prems by (rule storeInv_pendingLeafSet_empty)
    have r1: "rel {} {} s ?s1" using i1 by (simp add: rel_def frame_pendingLeafSet)
    have "resultSat (rel {} {} ?s1) (\<lambda>_ _. True) (updateWipEach n D (pendingLeafSet s) ?s1)"
      using storeInv_D(10) [OF Suc.prems] by (intro updateWipEach_rel i1) simp
    then have u: "resultSat (rel {} {} s) (\<lambda>_ _. True) (updateWipEach n D (pendingLeafSet s) ?s1)"
      by (rule resultSat_rel_after [OF r1])
    have "resultSat (rel {} {} s) (\<lambda>_ _. True)
            (andThen (updateWipEach n D (pendingLeafSet s) ?s1)
               (\<lambda>_ s1. clearPendingLeafSetIfNeeded n D s1))"
    proof (rule resultSat_andThen [OF u])
      fix t assume t: "rel {} {} s t"
      show "resultSat (rel {} {} s) (\<lambda>_ _. True) (clearPendingLeafSetIfNeeded n D t)"
        by (rule resultSat_rel_after [OF t]) (rule Suc.IH [OF rel_storeInv [OF t]])
    qed simp
    then show ?thesis using False by simp
  qed
qed

lemma clearEach_kept:
  "storeInv s \<Longrightarrow> resultSat (kept s) (\<lambda>_ _. True) (clearEach n qs s)"
proof (induction qs arbitrary: s)
  case Nil
  then show ?case by (simp add: kept_refl)
next
  case (Cons q rest)
  have "resultSat (kept s) (\<lambda>_ _. True)
          (andThen (clearQueryStorageIfNeeded n q s) (\<lambda>_ s1. clearEach n rest s1))"
  proof (rule resultSat_andThen [OF clearQueryStorageIfNeeded_kept [OF Cons.prems]])
    fix t assume t: "kept s t"
    show "resultSat (kept s) (\<lambda>_ _. True) (clearEach n rest t)"
      by (rule resultSat_kept_after [OF t]) (rule Cons.IH [OF kept_storeInv [OF t]])
  qed simp
  then show ?case by simp
qed

lemma clearPendingStorageSetIfNeeded_kept:
  "storeInv s \<Longrightarrow> resultSat (kept s) (\<lambda>_ _. True) (clearPendingStorageSetIfNeeded n s)"
proof (induction n arbitrary: s)
  case 0
  then show ?case by simp
next
  case (Suc n)
  show ?case
  proof (cases "pendingClearSet s = []")
    case True
    then show ?thesis using Suc.prems by (simp add: kept_refl)
  next
    case False
    let ?s1 = "s\<lparr>pendingClearSet := []\<rparr>"
    have i1: "storeInv ?s1" using Suc.prems by (rule storeInv_pendingClearSet)
    have k1: "kept s ?s1" using i1 by (simp add: kept_def)
    have c: "resultSat (kept s) (\<lambda>_ _. True) (clearEach n (pendingClearSet s) ?s1)"
      by (rule resultSat_kept_after [OF k1]) (rule clearEach_kept [OF i1])
    have "resultSat (kept s) (\<lambda>_ _. True)
            (andThen (clearEach n (pendingClearSet s) ?s1)
               (\<lambda>_ s1. clearPendingStorageSetIfNeeded n s1))"
    proof (rule resultSat_andThen [OF c])
      fix t assume t: "kept s t"
      show "resultSat (kept s) (\<lambda>_ _. True) (clearPendingStorageSetIfNeeded n t)"
        by (rule resultSat_kept_after [OF t]) (rule Suc.IH [OF kept_storeInv [OF t]])
    qed simp
    then show ?thesis using False by simp
  qed
qed

lemma emitItem_kept:
  assumes i: "storeInv s"
  shows "resultSat (kept s) (\<lambda>_ _. True) (emitItem n item s)"
proof (cases item)
  case (EmitDelete payload)
  obtain a s1 where g: "getEntityStorage (dpEntityItem payload) s = (a, s1)"
    by (cases "getEntityStorage (dpEntityItem payload) s")
  note r1 = getEntityStorage_rel(1) [OF i g, of "{}" "{}"]
  have "resultSat (kept s) (\<lambda>_ _. True) (clearEntityStorage n a s1)"
    by (rule resultSat_kept_after [OF rel_kept [OF r1]])
       (rule clearEntityStorage_kept [OF rel_storeInv [OF r1]])
  then show ?thesis using EmitDelete by (simp add: emitItem_def g)
qed (use storeInv_subjectNext [OF i] in \<open>simp_all add: emitItem_def kept_def subjectNext_def\<close>)

lemma emitEach_kept:
  "storeInv s \<Longrightarrow> resultSat (kept s) (\<lambda>_ _. True) (emitEach n items s)"
proof (induction items arbitrary: s)
  case Nil
  then show ?case by (simp add: kept_refl)
next
  case (Cons item rest)
  have "resultSat (kept s) (\<lambda>_ _. True)
          (andThen (emitItem n item s) (\<lambda>_ s1. emitEach n rest s1))"
  proof (rule resultSat_andThen [OF emitItem_kept [OF Cons.prems]])
    fix t assume t: "kept s t"
    show "resultSat (kept s) (\<lambda>_ _. True) (emitEach n rest t)"
      by (rule resultSat_kept_after [OF t]) (rule Cons.IH [OF kept_storeInv [OF t]])
  qed simp
  then show ?case using Cons.IH [OF Cons.prems] by simp
qed

lemma clearPendingEmitSetIfNeeded_kept:
  "storeInv s \<Longrightarrow> resultSat (kept s) (\<lambda>_ _. True) (clearPendingEmitSetIfNeeded n s)"
proof (induction n arbitrary: s)
  case 0
  then show ?case by simp
next
  case (Suc n)
  show ?case
  proof (cases "pendingEmitSet s = []")
    case True
    then show ?thesis using Suc.prems by (simp add: kept_refl)
  next
    case False
    let ?s1 = "s\<lparr>pendingEmitSet := []\<rparr>"
    have i1: "storeInv ?s1" using Suc.prems by (rule storeInv_pendingEmitSet)
    have k1: "kept s ?s1" using i1 by (simp add: kept_def)
    have c: "resultSat (kept s) (\<lambda>_ _. True) (emitEach n (pendingEmitSet s) ?s1)"
      by (rule resultSat_kept_after [OF k1]) (rule emitEach_kept [OF i1])
    have "resultSat (kept s) (\<lambda>_ _. True)
            (andThen (emitEach n (pendingEmitSet s) ?s1)
               (\<lambda>_ s1. clearPendingEmitSetIfNeeded n s1))"
    proof (rule resultSat_andThen [OF c])
      fix t assume t: "kept s t"
      show "resultSat (kept s) (\<lambda>_ _. True) (clearPendingEmitSetIfNeeded n t)"
        by (rule resultSat_kept_after [OF t]) (rule Suc.IH [OF kept_storeInv [OF t]])
    qed simp
    then show ?thesis using False by simp
  qed
qed

lemma commit_kept:
  assumes "storeInv s"
  shows "resultSat (kept s) (\<lambda>_ _. True) (commit n D s)"
  unfolding commit_def
proof (rule resultSat_andThen [OF resultSat_rel_kept [OF clearPendingLeafSetIfNeeded_rel [OF assms]]])
  fix t assume t: "kept s t"
  have c: "resultSat (kept s) (\<lambda>_ _. True) (clearPendingStorageSetIfNeeded n t)"
    by (rule resultSat_kept_after [OF t])
       (rule clearPendingStorageSetIfNeeded_kept [OF kept_storeInv [OF t]])
  show "resultSat (kept s) (\<lambda>_ _. True)
          (andThen (clearPendingStorageSetIfNeeded n t) (\<lambda>_ s2. clearPendingEmitSetIfNeeded n s2))"
  proof (rule resultSat_andThen [OF c])
    fix u assume u: "kept s u"
    show "resultSat (kept s) (\<lambda>_ _. True) (clearPendingEmitSetIfNeeded n u)"
      by (rule resultSat_kept_after [OF u])
         (rule clearPendingEmitSetIfNeeded_kept [OF kept_storeInv [OF u]])
  qed simp
qed simp

lemma send_kept:
  assumes "storeInv s"
  shows "resultSat (kept s) (\<lambda>_ _. True) (send n D out s)"
  unfolding send_def
proof (rule resultSat_andThen [OF handleCommandOutput_kept [OF assms]])
  fix t assume t: "kept s t"
  show "resultSat (kept s) (\<lambda>_ _. True) (commit n D t)"
    by (rule resultSat_kept_after [OF t]) (rule commit_kept [OF kept_storeInv [OF t]])
qed simp

lemma subscribeQuery_kept:
  assumes "storeInv s"
  shows "resultSat (kept s) (\<lambda>q s'. q < uid s') (subscribeQuery n D queryAction s)"
  unfolding subscribeQuery_def
proof (rule resultSat_andThen [OF getQueryStorage_rel [OF assms]])
  fix q t assume t: "rel {} {} s t" and q: "q < uid t"
  have "storeInv (updQuery q (\<lambda>st. st\<lparr>refCount := refCount st + 1\<rparr>) t)"
    by (rule storeInv_refCount [OF rel_storeInv [OF t]])
  then show "resultSat (kept s) (\<lambda>q s'. q < uid s')
               (Ok q (updQuery q (\<lambda>st. st\<lparr>refCount := refCount st + 1\<rparr>) t))"
    using rel_kept [OF t] q by (simp add: kept_def)
qed (auto intro: rel_kept)


text \<open>The stores of the scenarios are built from the empty store by these operations.\<close>

lemma storeInv_initialStore: "storeInv initialStore"
  by (rule storeInvI) (simp_all add: initialStore_def downstreamOf_def split: ref.splits)

lemma storeInv_resultStore:
  assumes "resultSat (kept s) P r"
  shows "storeInv (resultStore r)"
  using assms by (cases r) (simp_all add: resultStore_def kept_def storeInv_initialStore)

section \<open>The stores of the scenarios\<close>




lemma storeInv_labelSubscribed: "storeInv labelSubscribed"
  unfolding labelSubscribed_def
  by (rule storeInv_resultStore [OF subscribeQuery_kept [OF storeInv_initialStore]])

lemma storeInv_labelStore: "storeInv labelStore"
  unfolding labelStore_def
  by (rule storeInv_resultStore [OF send_kept [OF storeInv_labelSubscribed]])

lemma storeInv_labelStale: "storeInv labelStale"
  unfolding labelStale_def
  by (rule storeInv_resultStore [OF handleCommandOutput_kept [OF storeInv_labelStore]])

lemma storeInv_switchSubscribed: "storeInv switchSubscribed"
  unfolding switchSubscribed_def
  by (rule storeInv_resultStore [OF subscribeQuery_kept [OF storeInv_initialStore]])

lemma storeInv_switchStale: "storeInv (switchStale v)"
  unfolding switchStale_def
  by (rule storeInv_resultStore [OF handleCommandOutput_kept [OF storeInv_switchSubscribed]])

lemmas label_defs = labelSubscribed_def labelFirst_def labelStore_def labelStale_def
  labelSettled_def resultStore_def initialStore_def labelDecls_def CountState_def Positive_def
  Label_def

lemmas switch_defs = switchSubscribed_def switchStale_def resultStore_def initialStore_def
  switchDecls_def CountState_def OtherState_def Switch_def

section \<open>What dispatch and settling leave alone\<close>


lemma steady_refl [simp]: "steady D s s"
  by (simp add: steady_def)

lemma steadyI:
  assumes "uid s \<le> uid s'" and "emitted s' = emitted s"
    and "set (pendingEmitSet s) \<subseteq> set (pendingEmitSet s')"
    and "\<And>k a. entityMap s k = Some a \<Longrightarrow> entityMap s' k = Some a"
    and "\<And>x a. entityStorageWeakMap s x = Some a \<Longrightarrow> entityStorageWeakMap s' x = Some a"
    and "\<And>a. a < uid s \<Longrightarrow> key (entityStorages s' a) = key (entityStorages s a)"
    and "\<And>q. q < uid s \<Longrightarrow> Query (queryStorages s' q) = Query (queryStorages s q)"
    and "\<And>q. q < uid s \<Longrightarrow> upstreamSetId (queryStorages s q) \<le> upstreamSetId (queryStorages s' q)"
    and "\<And>q. q < uid s \<Longrightarrow> upstreamSetId (queryStorages s' q) = upstreamSetId (queryStorages s q) \<Longrightarrow>
               currentValue (queryStorages s' q) = currentValue (queryStorages s q)"
    and "\<And>q. q < uid s \<Longrightarrow> upstreamSetId (queryStorages s' q) = upstreamSetId (queryStorages s q) \<Longrightarrow>
               EmitQuery q \<in> set (pendingEmitSet s') \<Longrightarrow> EmitQuery q \<in> set (pendingEmitSet s)"
    and "\<And>q. q < uid s \<Longrightarrow>
               upstreamSetId (queryStorages s' q) = Suc (upstreamSetId (queryStorages s q)) \<Longrightarrow>
               (currentValue (queryStorages s' q) = currentValue (queryStorages s q)
                  \<and> (EmitQuery q \<in> set (pendingEmitSet s') \<longrightarrow> EmitQuery q \<in> set (pendingEmitSet s)))
                 \<or> (\<not> queryCompare D (queryId (Query (queryStorages s q)))
                        (currentValue (queryStorages s q)) (currentValue (queryStorages s' q))
                     \<and> EmitQuery q \<in> set (pendingEmitSet s'))"
  shows "steady D s s'"
  unfolding steady_def
  apply (intro conjI allI impI)
  using assms(1) apply assumption
  using assms(2) apply assumption
  using assms(3) apply assumption
  using assms(4) apply blast
  using assms(5) apply blast
  using assms(6) apply blast
  using assms(7) apply blast
  using assms(8) apply blast
  using assms(9) apply blast
  using assms(10) apply blast
  using assms(11) apply blast
  done

lemma steadyD:
  assumes "steady D s s'"
  shows "uid s \<le> uid s'" and "emitted s' = emitted s"
    and "set (pendingEmitSet s) \<subseteq> set (pendingEmitSet s')"
    and "entityMap s k = Some a \<Longrightarrow> entityMap s' k = Some a"
    and "entityStorageWeakMap s x = Some a \<Longrightarrow> entityStorageWeakMap s' x = Some a"
    and "a < uid s \<Longrightarrow> key (entityStorages s' a) = key (entityStorages s a)"
  using assms unfolding steady_def by blast+

lemma steady_query:
  assumes "steady D s s'" and "q < uid s"
  shows "Query (queryStorages s' q) = Query (queryStorages s q)"
    and "upstreamSetId (queryStorages s q) \<le> upstreamSetId (queryStorages s' q)"
  using assms unfolding steady_def by blast+

lemma steady_same:
  assumes "steady D s s'" and "q < uid s"
    and "upstreamSetId (queryStorages s' q) = upstreamSetId (queryStorages s q)"
  shows "currentValue (queryStorages s' q) = currentValue (queryStorages s q)"
    and "EmitQuery q \<in> set (pendingEmitSet s') \<Longrightarrow> EmitQuery q \<in> set (pendingEmitSet s)"
  using assms unfolding steady_def by blast+

lemma steady_once:
  assumes "steady D s s'" and "q < uid s"
    and "upstreamSetId (queryStorages s' q) = Suc (upstreamSetId (queryStorages s q))"
  shows "(currentValue (queryStorages s' q) = currentValue (queryStorages s q)
           \<and> (EmitQuery q \<in> set (pendingEmitSet s') \<longrightarrow> EmitQuery q \<in> set (pendingEmitSet s)))
         \<or> (\<not> queryCompare D (queryId (Query (queryStorages s q)))
                (currentValue (queryStorages s q)) (currentValue (queryStorages s' q))
             \<and> EmitQuery q \<in> set (pendingEmitSet s'))"
  using assms unfolding steady_def by blast

lemma steady_less: "steady D s s' \<Longrightarrow> a < uid s \<Longrightarrow> a < uid s'"
  using steadyD(1) [of D s s'] by simp

lemma steady_trans:
  assumes st: "steady D s t" and tu: "steady D t u"
  shows "steady D s u"
proof (rule steadyI)
  show "uid s \<le> uid u" using steadyD(1) [OF st] steadyD(1) [OF tu] by simp
  show "emitted u = emitted s" using steadyD(2) [OF st] steadyD(2) [OF tu] by simp
  show "set (pendingEmitSet s) \<subseteq> set (pendingEmitSet u)"
    using steadyD(3) [OF st] steadyD(3) [OF tu] by blast
  show "entityMap u k = Some a" if "entityMap s k = Some a" for k a
    using that by (intro steadyD(4) [OF tu] steadyD(4) [OF st])
  show "entityStorageWeakMap u x = Some a" if "entityStorageWeakMap s x = Some a" for x a
    using that by (intro steadyD(5) [OF tu] steadyD(5) [OF st])
  show "key (entityStorages u a) = key (entityStorages s a)" if "a < uid s" for a
    using steadyD(6) [OF st that] steadyD(6) [OF tu steady_less [OF st that]] by simp
next
  fix q assume q: "q < uid s"
  have qt: "q < uid t" using steady_less [OF st q] .
  note A = steady_query [OF st q] and B = steady_query [OF tu qt]
  show "Query (queryStorages u q) = Query (queryStorages s q)" using A(1) B(1) by simp
  show "upstreamSetId (queryStorages s q) \<le> upstreamSetId (queryStorages u q)"
    using A(2) B(2) by simp
  {
    assume e: "upstreamSetId (queryStorages u q) = upstreamSetId (queryStorages s q)"
    then have e1: "upstreamSetId (queryStorages t q) = upstreamSetId (queryStorages s q)"
      and e2: "upstreamSetId (queryStorages u q) = upstreamSetId (queryStorages t q)"
      using A(2) B(2) by simp_all
    show "currentValue (queryStorages u q) = currentValue (queryStorages s q)"
      using steady_same(1) [OF st q e1] steady_same(1) [OF tu qt e2] by simp
    show "EmitQuery q \<in> set (pendingEmitSet s)" if "EmitQuery q \<in> set (pendingEmitSet u)"
      using that by (intro steady_same(2) [OF st q e1] steady_same(2) [OF tu qt e2])
  }
  assume e: "upstreamSetId (queryStorages u q) = Suc (upstreamSetId (queryStorages s q))"
  let ?goal = "(currentValue (queryStorages u q) = currentValue (queryStorages s q)
                  \<and> (EmitQuery q \<in> set (pendingEmitSet u) \<longrightarrow> EmitQuery q \<in> set (pendingEmitSet s)))
                 \<or> (\<not> queryCompare D (queryId (Query (queryStorages s q)))
                        (currentValue (queryStorages s q)) (currentValue (queryStorages u q))
                     \<and> EmitQuery q \<in> set (pendingEmitSet u))"
  from e A(2) B(2)
  consider (first) "upstreamSetId (queryStorages t q) = upstreamSetId (queryStorages s q)"
      "upstreamSetId (queryStorages u q) = Suc (upstreamSetId (queryStorages t q))"
    | (second) "upstreamSetId (queryStorages t q) = Suc (upstreamSetId (queryStorages s q))"
      "upstreamSetId (queryStorages u q) = upstreamSetId (queryStorages t q)"
    by (auto simp: le_Suc_eq)
  then show ?goal
  proof cases
    case first
    note S = steady_same [OF st q first(1)]
    from steady_once [OF tu qt first(2)] show ?thesis
      using S A(1) by auto
  next
    case second
    note S = steady_same [OF tu qt second(2)]
    from steady_once [OF st q second(1)] show ?thesis
      using S steadyD(3) [OF tu] by auto
  qed
qed

lemma resultSat_steady_after:
  assumes "steady D s t" and "resultSat (steady D t) P r"
  shows "resultSat (steady D s) P r"
  using assms(2) by (rule resultSat_mono) (auto intro: steady_trans [OF assms(1)])

text \<open>A step that leaves alone what \<open>steady\<close> is about.\<close>

lemma steady_unchanged:
  assumes "uid s \<le> uid s'" and "emitted s' = emitted s" and "pendingEmitSet s' = pendingEmitSet s"
    and "entityMap s' = entityMap s" and "entityStorageWeakMap s' = entityStorageWeakMap s"
    and "\<And>a. a < uid s \<Longrightarrow> key (entityStorages s' a) = key (entityStorages s a)"
    and "\<And>q. q < uid s \<Longrightarrow> Query (queryStorages s' q) = Query (queryStorages s q)"
    and "\<And>q. q < uid s \<Longrightarrow> upstreamSetId (queryStorages s' q) = upstreamSetId (queryStorages s q)"
    and "\<And>q. q < uid s \<Longrightarrow> currentValue (queryStorages s' q) = currentValue (queryStorages s q)"
  shows "steady D s s'"
  by (rule steadyI) (simp_all add: assms)

lemma steady_then:
  assumes st: "steady D s t"
    and u: "uid t \<le> uid u" "emitted u = emitted t" "pendingEmitSet u = pendingEmitSet t"
      "entityMap u = entityMap t" "entityStorageWeakMap u = entityStorageWeakMap t"
    and e: "\<And>a. a < uid s \<Longrightarrow> key (entityStorages u a) = key (entityStorages t a)"
    and x: "\<And>q. q < uid s \<Longrightarrow> Query (queryStorages u q) = Query (queryStorages t q)"
      "\<And>q. q < uid s \<Longrightarrow> upstreamSetId (queryStorages u q) = upstreamSetId (queryStorages t q)"
      "\<And>q. q < uid s \<Longrightarrow> currentValue (queryStorages u q) = currentValue (queryStorages t q)"
  shows "steady D s u"
proof (rule steadyI)
  fix q assume q: "q < uid s"
  note X = x [OF q]
  show "Query (queryStorages u q) = Query (queryStorages s q)"
    using steady_query(1) [OF st q] X by simp
  show "upstreamSetId (queryStorages s q) \<le> upstreamSetId (queryStorages u q)"
    using steady_query(2) [OF st q] X by simp
  show "currentValue (queryStorages u q) = currentValue (queryStorages s q)"
    if "upstreamSetId (queryStorages u q) = upstreamSetId (queryStorages s q)"
    using that steady_same(1) [OF st q] X by simp
  show "EmitQuery q \<in> set (pendingEmitSet s)"
    if "upstreamSetId (queryStorages u q) = upstreamSetId (queryStorages s q)"
      and "EmitQuery q \<in> set (pendingEmitSet u)"
    using that steady_same(2) [OF st q] X u(3) by simp
  show "(currentValue (queryStorages u q) = currentValue (queryStorages s q)
          \<and> (EmitQuery q \<in> set (pendingEmitSet u) \<longrightarrow> EmitQuery q \<in> set (pendingEmitSet s)))
         \<or> (\<not> queryCompare D (queryId (Query (queryStorages s q)))
                (currentValue (queryStorages s q)) (currentValue (queryStorages u q))
             \<and> EmitQuery q \<in> set (pendingEmitSet u))"
    if "upstreamSetId (queryStorages u q) = Suc (upstreamSetId (queryStorages s q))"
    using that steady_once [OF st q] X u(3) by simp
next
  show "uid s \<le> uid u" using steadyD(1) [OF st] u(1) by simp
  show "emitted u = emitted s" using steadyD(2) [OF st] u(2) by simp
  show "set (pendingEmitSet s) \<subseteq> set (pendingEmitSet u)" using steadyD(3) [OF st] u(3) by simp
  show "entityMap u k = Some a" if "entityMap s k = Some a" for k a
    using steadyD(4) [OF st that] u(4) by simp
  show "entityStorageWeakMap u y = Some a" if "entityStorageWeakMap s y = Some a" for y a
    using steadyD(5) [OF st that] u(5) by simp
  show "key (entityStorages u a) = key (entityStorages s a)" if "a < uid s" for a
    using steadyD(6) [OF st that] e [OF that] by simp
qed

lemma steady_updQuery:
  assumes "\<And>st. Query (f st) = Query st" and "\<And>st. upstreamSetId (f st) = upstreamSetId st"
    and "\<And>st. currentValue (f st) = currentValue st"
  shows "steady D s (updQuery q f s)"
  by (rule steady_unchanged) (simp_all add: assms)

lemma steady_then_updQuery:
  assumes "steady D s t"
    and "\<And>st. Query (f st) = Query st" and "\<And>st. upstreamSetId (f st) = upstreamSetId st"
    and "\<And>st. currentValue (f st) = currentValue st"
  shows "steady D s (updQuery q f t)"
  by (rule steady_trans [OF assms(1)]) (rule steady_updQuery; simp add: assms)

lemma steady_getStateStorage:
  "getStateStorage D' stateItem s = (a, s') \<Longrightarrow> steady D s s'"
  by (rule steady_unchanged)
     (auto simp: getStateStorage_def restoreStateStorage_def createStateStorage_def Let_def
        split: option.splits if_splits)

lemma steady_restoreStateStorage: "steady D s (restoreStateStorage D' a s)"
  by (rule steady_unchanged) (auto simp: restoreStateStorage_def Let_def)

lemma steady_getEntityStorage:
  "getEntityStorage entityItem s = (a, s') \<Longrightarrow> steady D s s'"
  by (rule steadyI)
     (auto simp: getEntityStorage_def restoreEntityStorage_def createEntityStorage_def Let_def
        split: option.splits if_splits)

lemma steady_setDownstream: "steady D s (setDownstream r d s)"
  by (rule steady_unchanged) simp_all

lemma steady_addEdge: "steady D s (addEdge q r s)"
  by (rule steady_unchanged) simp_all

lemma steady_newQuery:
  "steady D s (s\<lparr>uid := Suc (uid s), queryStorages := (queryStorages s)(uid s := st)\<rparr>)"
  by (rule steady_unchanged) simp_all

lemma steady_restoreBegin:
  "steady D s ((updQuery q (\<lambda>st. st\<lparr>status := Default\<rparr>) s)\<lparr>queryMap := m\<rparr>)"
  by (rule steady_unchanged) simp_all

lemma steady_pendingLeafSet: "steady D s (s\<lparr>pendingLeafSet := x\<rparr>)"
  by (rule steady_unchanged) simp_all

lemma steady_register:
  assumes st: "steady D s t" and q: "uid s \<le> q"
  shows "steady D s ((updQuery q (\<lambda>st. st\<lparr>currentValue := v\<rparr>) t)
                       \<lparr>queryMap := m, queryStorageWeakMap := w\<rparr>)"
  by (rule steady_then [OF st]) (use q in auto)

lemma detachUpstream_entity_key [simp]:
  "key (entityStorages (detachUpstream q r s) a) = key (entityStorages s a)"
  by (simp add: detachUpstream_def Let_def split: ref.splits)

lemma fold_detach_entity_key [simp]:
  "key (entityStorages (fold (detachUpstream q) rs s) a) = key (entityStorages s a)"
  by (induction rs arbitrary: s) simp_all

lemma steady_beginUpdate:
  "steady D s (updQuery q (\<lambda>st. st\<lparr>upstreamSet := [],
                                    upstreamSetId := Suc (upstreamSetId (queryStorages s q))\<rparr>)
                 (fold (detachUpstream q) rs s))"
  by (rule steadyI) auto

lemma steady_assign:
  assumes st: "steady D s t"
    and lt: "q < uid s \<Longrightarrow> upstreamSetId (queryStorages s q) < upstreamSetId (queryStorages t q)"
    and once: "q < uid s \<Longrightarrow>
                 upstreamSetId (queryStorages t q) = Suc (upstreamSetId (queryStorages s q)) \<Longrightarrow>
                 currentValue (queryStorages t q) = currentValue (queryStorages s q)"
    and nc: "\<not> queryCompare D (queryId (Query (queryStorages s q)))
                 (currentValue (queryStorages t q)) v"
  shows "steady D s ((updQuery q (\<lambda>st. st\<lparr>currentValue := v\<rparr>) t)
                       \<lparr>pendingEmitSet := setAdd (EmitQuery q) (pendingEmitSet t)\<rparr>)"
    (is "steady D s ?u")
proof (rule steadyI)
  fix p assume p: "p < uid s"
  show "Query (queryStorages ?u p) = Query (queryStorages s p)"
    using steady_query(1) [OF st p] by auto
  show "upstreamSetId (queryStorages s p) \<le> upstreamSetId (queryStorages ?u p)"
    using steady_query(2) [OF st p] by auto
  show "currentValue (queryStorages ?u p) = currentValue (queryStorages s p)"
    if "upstreamSetId (queryStorages ?u p) = upstreamSetId (queryStorages s p)"
    using that steady_same(1) [OF st p] lt p by (cases "p = q") auto
  show "EmitQuery p \<in> set (pendingEmitSet s)"
    if "upstreamSetId (queryStorages ?u p) = upstreamSetId (queryStorages s p)"
      and "EmitQuery p \<in> set (pendingEmitSet ?u)"
    using that steady_same(2) [OF st p] lt p by (cases "p = q") auto
  show "(currentValue (queryStorages ?u p) = currentValue (queryStorages s p)
          \<and> (EmitQuery p \<in> set (pendingEmitSet ?u) \<longrightarrow> EmitQuery p \<in> set (pendingEmitSet s)))
         \<or> (\<not> queryCompare D (queryId (Query (queryStorages s p)))
                (currentValue (queryStorages s p)) (currentValue (queryStorages ?u p))
             \<and> EmitQuery p \<in> set (pendingEmitSet ?u))"
    if "upstreamSetId (queryStorages ?u p) = Suc (upstreamSetId (queryStorages s p))"
  proof (cases "p = q")
    case True
    then show ?thesis using that once nc p by simp
  next
    case False
    then show ?thesis using that steady_once [OF st p] by auto
  qed
next
  show "uid s \<le> uid ?u" using steadyD(1) [OF st] by simp
  show "emitted ?u = emitted s" using steadyD(2) [OF st] by simp
  show "set (pendingEmitSet s) \<subseteq> set (pendingEmitSet ?u)" using steadyD(3) [OF st] by auto
  show "entityMap ?u k = Some a" if "entityMap s k = Some a" for k a
    using steadyD(4) [OF st that] by simp
  show "entityStorageWeakMap ?u y = Some a" if "entityStorageWeakMap s y = Some a" for y a
    using steadyD(5) [OF st that] by simp
  show "key (entityStorages ?u a) = key (entityStorages s a)" if "a < uid s" for a
    using steadyD(6) [OF st that] by simp
qed

text \<open>Adding to \<^verbatim>\<open>pendingEmitSet\<close> something that is not the notification of a query.\<close>

lemma steady_queue:
  assumes "\<And>q. item \<noteq> EmitQuery q"
  shows "steady D s (s\<lparr>pendingEmitSet := setAdd item (pendingEmitSet s)\<rparr>)"
  by (rule steadyI) (use assms in auto)

lemma resultSat_steady_andThen:
  assumes "resultSat (steady D s) P r"
    and "\<And>a t. r = Ok a t \<Longrightarrow> steady D s t \<Longrightarrow> P a t \<Longrightarrow> resultSat (steady D t) Q (f a t)"
  shows "resultSat (steady D s) Q (andThen r f)"
proof (cases r)
  case (Ok a t)
  then have t: "steady D s t" and p: "P a t" using assms(1) by simp_all
  show ?thesis using resultSat_steady_after [OF t assms(2) [OF Ok t p]] Ok by simp
qed (use assms(1) in simp_all)

lemma runProg_steady:
  assumes get: "\<And>input t. resultSat (steady D t) (\<lambda>_ _. True) (get input t)"
  shows "resultSat (steady D s) (\<lambda>_ _. True) (runProg get prog s)"
proof (induction prog arbitrary: s)
  case (Get input k)
  note g = get [of s input]
  show ?case
  proof (cases "get input s")
    case (Ok v s')
    then have r: "steady D s s'" using g by simp
    show ?thesis using Ok resultSat_steady_after [OF r Get.IH] by simp
  next
    case (Err e s')
    then have r: "steady D s s'" using g by simp
    show ?thesis using Err resultSat_steady_after [OF r Get.IH] by simp
  qed simp
qed simp_all

lemma restoreUpstreams_steady:
  assumes restore: "\<And>u t. resultSat (steady D t) (\<lambda>_ _. True) (restoreQuery u t)"
  shows "resultSat (steady D s) (\<lambda>_ _. True) (restoreUpstreams restoreQuery D' q rs s)"
proof (induction rs arbitrary: s)
  case Nil
  then show ?case by simp
next
  case (Cons r rest)
  let ?s1 = "setDownstream r (setAdd q (downstreamOf s r)) s"
  have r1: "steady D s ?s1" by (rule steady_setDownstream)
  show ?case
  proof (cases r)
    case (StateRef u)
    have "steady D s (restoreStateStorage D' u ?s1)"
      by (rule steady_trans [OF r1 steady_restoreStateStorage])
    then show ?thesis using StateRef resultSat_steady_after [OF _ Cons.IH] by (simp add: Let_def)
  next
    case (EntityRef u)
    then show ?thesis using r1 by (simp add: Let_def)
  next
    case (QueryRef u)
    have "resultSat (steady D ?s1) (\<lambda>_ _. True)
            (andThen (restoreQuery u ?s1) (\<lambda>_. restoreUpstreams restoreQuery D' q rest))"
      by (rule resultSat_steady_andThen [OF restore]) (rule Cons.IH)
    then show ?thesis using QueryRef resultSat_steady_after [OF r1] by (simp add: Let_def)
  qed
qed

lemma callsSteadyD:
  assumes "callsSteady D c"
  shows "resultSat (steady D s) (\<lambda>_ _. True) (getQueryStorage_call c qa s)"
    and "resultSat (steady D s) (\<lambda>_ _. True) (createQueryStorage_call c qa s)"
    and "resultSat (steady D s) (\<lambda>_ _. True) (restoreQueryStorage_call c q s)"
    and "resultSat (steady D s) (\<lambda>_ _. True) (getCurrentQueryValue_call c qa s)"
    and "resultSat (steady D s) (\<lambda>_ _. True) (injectedGet_call c input s)"
    and "resultSat (steady D s) (\<lambda>_ _. True) (contextGet_call c ctx input s)"
    and "resultSat (steady D s) (\<lambda>_ _. True) (updateWipQueryStorage_call c q s)"
    and "resultSat (steady D s) (\<lambda>_ _. True) (updateWipUpstreams_call c q j b s)"
    and "resultSat (steady D s) (\<lambda>_ _. True) (updateQueryStorage_call c q s)"
  using assms by (simp_all add: callsSteady_def)

lemma getQueryStorage_body_steady:
  assumes c: "callsSteady D c"
  shows "resultSat (steady D s) (\<lambda>_ _. True) (getQueryStorage_body c qa s)"
proof (cases "queryMap s (queryStorageKey qa)")
  case (Some q)
  then show ?thesis by (simp add: getQueryStorage_body_def)
next
  case None
  show ?thesis
  proof (cases "queryStorageWeakMap s (qaObj qa)")
    case (Some q)
    have "resultSat (steady D s) (\<lambda>_ _. True)
            (andThen (restoreQueryStorage_call c q s) (\<lambda>_ s'. Ok q s'))"
      by (rule resultSat_steady_andThen [OF callsSteadyD(3) [OF c]]) simp
    then show ?thesis using None Some by (simp add: getQueryStorage_body_def)
  next
    case N: None
    then show ?thesis using None callsSteadyD(2) [OF c] by (simp add: getQueryStorage_body_def)
  qed
qed

lemma createQueryStorage_body_steady:
  assumes c: "callsSteady D c"
  shows "resultSat (steady D s) (\<lambda>_ _. True) (createQueryStorage_body c D qa s)"
proof -
  let ?s1 = "s\<lparr>uid := Suc (uid s),
               queryStorages := (queryStorages s)(uid s := newQueryStorage qa)\<rparr>"
  have r1: "steady D s ?s1" by (rule steady_newQuery)
  have run: "resultSat (steady D ?s1) (\<lambda>_ _. True)
               (runProg (contextGet_call c (CreateQueryContext (uid s) 0)) prog ?s1)"
    for prog :: "jsval prog"
    by (rule runProg_steady) (rule callsSteadyD(6) [OF c])
  have run': "resultSat (steady D s) (\<lambda>_ _. True)
               (runProg (contextGet_call c (CreateQueryContext (uid s) 0)) prog ?s1)"
    for prog :: "jsval prog"
    by (rule resultSat_steady_after [OF r1 run])
  show ?thesis unfolding createQueryStorage_body_def Let_def
  proof (rule resultSat_andThen [OF run'])
    fix v t assume t: "steady D s t"
    show "resultSat (steady D s) (\<lambda>_ _. True)
            (Ok (uid s) ((updQuery (uid s) (\<lambda>st. st\<lparr>currentValue := v\<rparr>) t)
               \<lparr>queryMap := (queryMap t)(queryStorageKey qa \<mapsto> uid s),
                queryStorageWeakMap := (queryStorageWeakMap t)(qaObj qa \<mapsto> uid s)\<rparr>))"
      using steady_register [OF t, of "uid s"] by simp
  qed
qed

lemma restoreQueryStorage_body_steady:
  assumes c: "callsSteady D c"
  shows "resultSat (steady D s) (\<lambda>_ _. True) (restoreQueryStorage_body c D q s)"
proof (cases "queryMap s (key (queryStorages s q)) \<noteq> None")
  case True
  then show ?thesis by (simp add: restoreQueryStorage_body_def)
next
  case False
  let ?s1 = "(updQuery q (\<lambda>st. st\<lparr>status := Default\<rparr>) s)
               \<lparr>queryMap := (queryMap s)(key (queryStorages s q) \<mapsto> q)\<rparr>"
  have r1: "steady D s ?s1" by (rule steady_restoreBegin)
  have loop: "resultSat (steady D ?s1) (\<lambda>_ _. True)
                (restoreUpstreams (restoreQueryStorage_call c) D q
                   (upstreamSet (queryStorages ?s1 q)) ?s1)"
    by (rule restoreUpstreams_steady) (rule callsSteadyD(3) [OF c])
  have upd: "resultSat (steady D t) (\<lambda>_ _. True)
               (andThen (updateQueryStorage_call c q t) (\<lambda>_ s3. Ok () s3))" for t
    by (rule resultSat_steady_andThen [OF callsSteadyD(9) [OF c]]) simp
  have "resultSat (steady D ?s1) (\<lambda>_ _. True)
          (andThen (restoreUpstreams (restoreQueryStorage_call c) D q
                      (upstreamSet (queryStorages ?s1 q)) ?s1)
             (\<lambda>_ s2. andThen (updateQueryStorage_call c q s2) (\<lambda>_ s3. Ok () s3)))"
    by (rule resultSat_steady_andThen [OF loop]) (rule upd)
  then show ?thesis using False resultSat_steady_after [OF r1]
    by (simp add: restoreQueryStorage_body_def Let_def)
qed

lemma getCurrentQueryValue_body_steady:
  assumes c: "callsSteady D c"
  shows "resultSat (steady D s) (\<lambda>_ _. True) (getCurrentQueryValue_body c qa s)"
  unfolding getCurrentQueryValue_body_def
proof (rule resultSat_steady_andThen [OF callsSteadyD(1) [OF c]])
  fix q t
  show "resultSat (steady D t) (\<lambda>_ _. True)
               (andThen (updateWipQueryStorage_call c q t)
                  (\<lambda>_ s2. Ok (currentValue (queryStorages s2 q)) s2))"
    by (rule resultSat_steady_andThen [OF callsSteadyD(7) [OF c]]) simp
qed

lemma getCurrentState_steady:
  "resultSat (steady D s) (\<lambda>_ _. True) (getCurrentState D' stateItem s)"
proof -
  obtain a s' where g: "getStateStorage D' stateItem s = (a, s')"
    by (cases "getStateStorage D' stateItem s")
  show ?thesis using steady_getStateStorage [OF g] by (simp add: getCurrentState_def g)
qed

lemma getCurrentEntity_steady:
  "resultSat (steady D s) (\<lambda>_ _. True) (getCurrentEntity entityItem s)"
proof -
  obtain a s' where g: "getEntityStorage entityItem s = (a, s')"
    by (cases "getEntityStorage entityItem s")
  show ?thesis using steady_getEntityStorage [OF g] by (simp add: getCurrentEntity_def g)
qed

lemma injectedGet_body_steady:
  assumes c: "callsSteady D c"
  shows "resultSat (steady D s) (\<lambda>_ _. True) (injectedGet_body c D input s)"
  by (cases input)
     (simp_all add: injectedGet_body_def getCurrentState_steady getCurrentEntity_steady
        callsSteadyD(4) [OF c])

lemma trackedRead_steady:
  assumes c: "callsSteady D c" and t: "steady D s t"
  shows "resultSat (steady D s) (\<lambda>_ _. True) (injectedGet_call c input (addEdge q r t))"
  by (rule resultSat_steady_after [OF steady_trans [OF t steady_addEdge] callsSteadyD(5) [OF c]])

lemma createQueryContext_get_steady:
  assumes c: "callsSteady D c"
  shows "resultSat (steady D s) (\<lambda>_ _. True) (createQueryContext_get c D q sid input s)"
proof (cases "upstreamSetId (queryStorages s q) \<noteq> sid")
  case True
  then show ?thesis using callsSteadyD(5) [OF c] by (simp add: createQueryContext_get_def)
next
  case False
  show ?thesis
  proof (cases input)
    case (StateInput stateItem)
    obtain u t where g: "getStateStorage D stateItem s = (u, t)"
      by (cases "getStateStorage D stateItem s")
    show ?thesis
      using False StateInput trackedRead_steady [OF c steady_getStateStorage [OF g]]
      by (simp add: createQueryContext_get_def g)
  next
    case (EntityInput entityItem)
    then show ?thesis using False callsSteadyD(5) [OF c] by (simp add: createQueryContext_get_def)
  next
    case (QueryInput queryAction)
    have "resultSat (steady D s) (\<lambda>_ _. True)
            (andThen (getQueryStorage_call c queryAction s)
               (\<lambda>u s1. injectedGet_call c input (addEdge q (QueryRef u) s1)))"
      by (rule resultSat_steady_andThen [OF callsSteadyD(1) [OF c]])
         (rule trackedRead_steady [OF c steady_refl])
    then show ?thesis using False QueryInput by (simp add: createQueryContext_get_def)
  qed
qed

lemma updateQueryContext_get_steady:
  assumes c: "callsSteady D c"
  shows "resultSat (steady D s) (\<lambda>_ _. True) (updateQueryContext_get c D q sid input s)"
proof (cases "upstreamSetId (queryStorages s q) \<noteq> sid")
  case True
  then show ?thesis using callsSteadyD(5) [OF c] by (simp add: updateQueryContext_get_def)
next
  case False
  show ?thesis
  proof (cases input)
    case (StateInput stateItem)
    obtain u t where g: "getStateStorage D stateItem s = (u, t)"
      by (cases "getStateStorage D stateItem s")
    show ?thesis
      using False StateInput trackedRead_steady [OF c steady_getStateStorage [OF g]]
      by (simp add: updateQueryContext_get_def g)
  next
    case (EntityInput entityItem)
    obtain u t where g: "getEntityStorage entityItem s = (u, t)"
      by (cases "getEntityStorage entityItem s")
    show ?thesis
      using False EntityInput trackedRead_steady [OF c steady_getEntityStorage [OF g]]
      by (simp add: updateQueryContext_get_def g)
  next
    case (QueryInput queryAction)
    have "resultSat (steady D s) (\<lambda>_ _. True)
            (andThen (getQueryStorage_call c queryAction s)
               (\<lambda>u s1. injectedGet_call c input (addEdge q (QueryRef u) s1)))"
      by (rule resultSat_steady_andThen [OF callsSteadyD(1) [OF c]])
         (rule trackedRead_steady [OF c steady_refl])
    then show ?thesis using False QueryInput by (simp add: updateQueryContext_get_def)
  qed
qed

lemma contextGet_body_steady:
  assumes c: "callsSteady D c"
  shows "resultSat (steady D s) (\<lambda>_ _. True) (contextGet_body c D ctx input s)"
  by (cases ctx)
     (simp_all add: contextGet_body_def createQueryContext_get_steady [OF c]
        updateQueryContext_get_steady [OF c] callsSteadyD(5) [OF c])

lemma updateWipQueryStorage_body_steady:
  assumes c: "callsSteady D c"
  shows "resultSat (steady D s) (\<lambda>_ _. True) (updateWipQueryStorage_body c q s)"
proof (cases "status (queryStorages s q) \<noteq> Wip")
  case True
  then show ?thesis by (simp add: updateWipQueryStorage_body_def)
next
  case False
  let ?first = "if wipUpstreamSet (queryStorages s q) \<noteq> []
           then andThen (updateWipUpstreams_call c q 0 False s)
                  (\<lambda>shouldUpdate s1.
                     Ok shouldUpdate (updQuery q (\<lambda>st. st\<lparr>wipUpstreamSet := []\<rparr>) s1))
           else Ok True s"
  have first: "resultSat (steady D s) (\<lambda>_ _. True) ?first"
  proof (cases "wipUpstreamSet (queryStorages s q) \<noteq> []")
    case True
    have "resultSat (steady D s) (\<lambda>_ _. True)
            (andThen (updateWipUpstreams_call c q 0 False s)
                  (\<lambda>shouldUpdate s1.
                     Ok shouldUpdate (updQuery q (\<lambda>st. st\<lparr>wipUpstreamSet := []\<rparr>) s1)))"
      by (rule resultSat_steady_andThen [OF callsSteadyD(8) [OF c]])
         (simp add: steady_updQuery)
    then show ?thesis using True by simp
  next
    case False
    then show ?thesis by simp
  qed
  have "resultSat (steady D s) (\<lambda>_ _. True)
          (andThen ?first
          (\<lambda>shouldUpdate s2.
             if \<not> shouldUpdate then Ok () (updQuery q (\<lambda>st. st\<lparr>status := Default\<rparr>) s2)
             else andThen (updateQueryStorage_call c q s2)
                    (\<lambda>isUpdated s3.
                       Ok () (updQuery q
                         (\<lambda>st. st\<lparr>status := (if isUpdated then Updated else Default)\<rparr>) s3))))"
  proof (rule resultSat_steady_andThen [OF first])
    fix b t
    have "resultSat (steady D t) (\<lambda>_ _. True)
            (andThen (updateQueryStorage_call c q t)
                    (\<lambda>isUpdated s3.
                       Ok () (updQuery q
                         (\<lambda>st. st\<lparr>status := (if isUpdated then Updated else Default)\<rparr>) s3)))"
      by (rule resultSat_steady_andThen [OF callsSteadyD(9) [OF c]])
         (simp add: steady_updQuery)
    then show "resultSat (steady D t) (\<lambda>_ _. True)
            (if \<not> b then Ok () (updQuery q (\<lambda>st. st\<lparr>status := Default\<rparr>) t)
             else andThen (updateQueryStorage_call c q t)
                    (\<lambda>isUpdated s3.
                       Ok () (updQuery q
                         (\<lambda>st. st\<lparr>status := (if isUpdated then Updated else Default)\<rparr>) s3)))"
      by (simp add: steady_updQuery)
  qed
  then show ?thesis using False by (simp add: updateWipQueryStorage_body_def)
qed

lemma updateWipUpstreams_body_steady:
  assumes c: "callsSteady D c"
  shows "resultSat (steady D s) (\<lambda>_ _. True) (updateWipUpstreams_body c q i b s)"
proof (cases "i < length (wipUpstreamSet (queryStorages s q))")
  case False
  then show ?thesis by (simp add: updateWipUpstreams_body_def)
next
  case True
  show ?thesis
  proof (cases "wipUpstreamSet (queryStorages s q) ! i")
    case (StateRef u)
    then show ?thesis using True callsSteadyD(8) [OF c]
      by (simp add: updateWipUpstreams_body_def)
  next
    case (EntityRef u)
    then show ?thesis using True callsSteadyD(8) [OF c]
      by (simp add: updateWipUpstreams_body_def)
  next
    case (QueryRef u)
    have first: "resultSat (steady D s) (\<lambda>_ _. True)
            (if status (queryStorages s u) = Wip then updateWipQueryStorage_call c u s
             else Ok () s)"
      using callsSteadyD(7) [OF c] by simp
    have "resultSat (steady D s) (\<lambda>_ _. True)
            (andThen
               (if status (queryStorages s u) = Wip then updateWipQueryStorage_call c u s
                else Ok () s)
               (\<lambda>_ s1. updateWipUpstreams_call c q (Suc i)
                  (b \<or> status (queryStorages s1 u) = Updated) s1))"
      by (rule resultSat_steady_andThen [OF first]) (rule callsSteadyD(8) [OF c])
    then show ?thesis using True QueryRef by (simp add: updateWipUpstreams_body_def)
  qed
qed

lemma updateQueryStorage_body_steady:
  assumes c: "callsSteady D c"
  shows "resultSat (steady D s) (\<lambda>_ _. True) (updateQueryStorage_body c D q s)"
proof -
  let ?sid = "Suc (upstreamSetId (queryStorages s q))"
  let ?s2 = "updQuery q (\<lambda>st. st\<lparr>upstreamSet := [], upstreamSetId := ?sid\<rparr>)
               (fold (detachUpstream q) (upstreamSet (queryStorages s q)) s)"
  have r2: "steady D s ?s2" by (rule steady_beginUpdate)
  have run: "resultSat (steady D ?s2) (\<lambda>_ _. True)
               (runProg (contextGet_call c (UpdateQueryContext q ?sid)) prog ?s2)"
    for prog :: "jsval prog"
    by (rule runProg_steady) (rule callsSteadyD(6) [OF c])
  have fin: "resultSat (steady D s) (\<lambda>_ _. True)
               (if queryCompare D (queryId (Query (queryStorages s q)))
                     (currentValue (queryStorages t q)) v
                then Ok False t
                else Ok True ((updQuery q (\<lambda>st. st\<lparr>currentValue := v\<rparr>) t)
                       \<lparr>pendingEmitSet := setAdd (EmitQuery q) (pendingEmitSet t)\<rparr>))"
    if t: "steady D ?s2 t" for v t
  proof (cases "queryCompare D (queryId (Query (queryStorages s q)))
                     (currentValue (queryStorages t q)) v")
    case True
    then show ?thesis using steady_trans [OF r2 t] by simp
  next
    case False
    have st: "steady D s t" by (rule steady_trans [OF r2 t])
    have lt: "upstreamSetId (queryStorages s q) < upstreamSetId (queryStorages t q)"
      if "q < uid s"
      using steady_query(2) [OF t, of q] that by simp
    have once: "currentValue (queryStorages t q) = currentValue (queryStorages s q)"
      if "q < uid s"
        and "upstreamSetId (queryStorages t q) = Suc (upstreamSetId (queryStorages s q))"
      using steady_same(1) [OF t, of q] that by simp
    have "steady D s ((updQuery q (\<lambda>st. st\<lparr>currentValue := v\<rparr>) t)
                       \<lparr>pendingEmitSet := setAdd (EmitQuery q) (pendingEmitSet t)\<rparr>)"
      using st lt once False by (rule steady_assign)
    then show ?thesis using False by simp
  qed
  have "resultSat (steady D s) (\<lambda>_ _. True)
          (andThen (runProg (contextGet_call c (UpdateQueryContext q ?sid))
                    (queryImpl D (queryId (Query (queryStorages s q))) (arg (queryStorages s q))) ?s2)
           (\<lambda>newValue s3.
              if queryCompare D (queryId (Query (queryStorages s q)))
                   (currentValue (queryStorages s3 q)) newValue
              then Ok False s3
              else Ok True ((updQuery q (\<lambda>st. st\<lparr>currentValue := newValue\<rparr>) s3)
                     \<lparr>pendingEmitSet := setAdd (EmitQuery q) (pendingEmitSet s3)\<rparr>)))"
  proof (rule resultSat_andThen [OF run])
    fix e t assume "steady D ?s2 t"
    then show "steady D s t" by (rule steady_trans [OF r2])
  next
    fix v t assume "steady D ?s2 t"
    then show "resultSat (steady D s) (\<lambda>_ _. True)
               (if queryCompare D (queryId (Query (queryStorages s q)))
                     (currentValue (queryStorages t q)) v
                then Ok False t
                else Ok True ((updQuery q (\<lambda>st. st\<lparr>currentValue := v\<rparr>) t)
                       \<lparr>pendingEmitSet := setAdd (EmitQuery q) (pendingEmitSet t)\<rparr>))"
      by (rule fin)
  qed
  then show ?thesis unfolding updateQueryStorage_body_def Let_def fold_detach_query_fields .
qed

lemma callsSteady_callsAt: "callsSteady D (callsAt n D)"
proof (induction n)
  case 0
  show ?case by (simp add: callsSteady_def)
next
  case (Suc n)
  note c = Suc.IH
  show ?case
    unfolding callsSteady_def callsAt.simps Let_def
    by (simp add: getQueryStorage_body_steady [OF c] createQueryStorage_body_steady [OF c]
          restoreQueryStorage_body_steady [OF c] getCurrentQueryValue_body_steady [OF c]
          injectedGet_body_steady [OF c] contextGet_body_steady [OF c]
          updateWipQueryStorage_body_steady [OF c] updateWipUpstreams_body_steady [OF c]
          updateQueryStorage_body_steady [OF c])
qed

lemma getQueryStorage_steady:
  "resultSat (steady D s) (\<lambda>_ _. True) (getQueryStorage n D qa s)"
  unfolding getQueryStorage_def by (rule callsSteadyD(1) [OF callsSteady_callsAt])

lemma injectedGet_steady:
  "resultSat (steady D s) (\<lambda>_ _. True) (injectedGet n D input s)"
  unfolding injectedGet_def by (rule callsSteadyD(5) [OF callsSteady_callsAt])

lemma updateWipQueryStorage_steady:
  "resultSat (steady D s) (\<lambda>_ _. True) (updateWipQueryStorage n D q s)"
  unfolding updateWipQueryStorage_def by (rule callsSteadyD(7) [OF callsSteady_callsAt])

lemma updateQueryStorage_steady:
  "resultSat (steady D s) (\<lambda>_ _. True) (updateQueryStorage n D q s)"
  unfolding updateQueryStorage_def by (rule callsSteadyD(9) [OF callsSteady_callsAt])

lemma steady_markFrame: "markFrame s s' \<Longrightarrow> steady D s s'"
  by (rule steady_unchanged)
     (simp_all add: markFrame_fields markFrame_query_fields)

lemma mark_steady: "resultSat (steady D s) (\<lambda>_ _. True) (mark n q s)"
  using mark_frame [of n q s] mark_not_Err [of n q s]
  by (cases "mark n q s") (auto intro: steady_markFrame)

lemma markFrom_steady: "resultSat (steady D s) (\<lambda>_ _. True) (markFrom n r ds s)"
  using markFrom_frame [of n r ds s] markFrom_not_Err [of n r ds s]
  by (cases "markFrom n r ds s") (auto intro: steady_markFrame)

lemma markEach_steady: "resultSat (steady D s) (\<lambda>_ _. True) (markEach n ds s)"
  using markEach_frame [of n ds s] markEach_not_Err [of n ds s]
  by (cases "markEach n ds s") (auto intro: steady_markFrame)

lemma steady_currentState:
  "steady D s ((updState a f s)\<lparr>pendingEmitSet := setAdd (EmitState a) (pendingEmitSet s)\<rparr>)"
  by (rule steadyI) auto

lemma steady_currentEntity:
  "steady D s ((updEntity a (\<lambda>st. st\<lparr>currentEntity := v\<rparr>) s)
                 \<lparr>pendingEmitSet := setAdd (EmitEntity a) (pendingEmitSet s)\<rparr>)"
  by (rule steadyI) auto

lemma steady_updEntity:
  assumes "\<And>st. key (f st) = key st"
  shows "steady D s (updEntity a f s)"
  by (rule steady_unchanged) (simp_all add: assms)

lemma updateStateItem_steady:
  "resultSat (steady D s) (\<lambda>_ _. True) (updateStateItem n D' stateItem v s)"
proof -
  obtain a s1 where g: "getStateStorage D' stateItem s = (a, s1)"
    by (cases "getStateStorage D' stateItem s")
  note r1 = steady_getStateStorage [OF g, of D]
  let ?s2 = "(updState a (\<lambda>st. st\<lparr>currentState := v\<rparr>) s1)
                        \<lparr>pendingEmitSet := setAdd (EmitState a) (pendingEmitSet s1)\<rparr>"
  have r2: "steady D s ?s2" by (rule steady_trans [OF r1 steady_currentState])
  have "resultSat (steady D s) (\<lambda>_ _. True)
          (markFrom n (StateRef a) (downstreamSet (stateStorages ?s2 a)) ?s2)"
    by (rule resultSat_steady_after [OF r2 markFrom_steady])
  then show ?thesis using r1 by (simp add: updateStateItem_def g Let_def)
qed

lemma updateEntityItem_steady:
  "resultSat (steady D s) (\<lambda>_ _. True) (updateEntityItem n D' entityItem v s)"
proof -
  obtain a s1 where g: "getEntityStorage entityItem s = (a, s1)"
    by (cases "getEntityStorage entityItem s")
  note r1 = steady_getEntityStorage [OF g, of D]
  let ?s2 = "(updEntity a (\<lambda>st. st\<lparr>currentEntity := v\<rparr>) s1)
                        \<lparr>pendingEmitSet := setAdd (EmitEntity a) (pendingEmitSet s1)\<rparr>"
  have r2: "steady D s ?s2" by (rule steady_trans [OF r1 steady_currentEntity])
  have r3: "steady D s (updEntity a (\<lambda>st. st\<lparr>currentEntity := v\<rparr>) s1)"
    by (rule steady_trans [OF r1 steady_updEntity]) simp
  have "resultSat (steady D s) (\<lambda>_ _. True)
          (markFrom n (EntityRef a) (downstreamSet (entityStorages ?s2 a)) ?s2)"
    by (rule resultSat_steady_after [OF r2 markFrom_steady])
  then show ?thesis using r1 r3 by (simp add: updateEntityItem_def g Let_def)
qed

lemma deleteEntityItem_steady:
  "resultSat (steady D s) (\<lambda>_ _. True) (deleteEntityItem n payload s)"
proof -
  obtain a s1 where g: "getEntityStorage (dpEntityItem payload) s = (a, s1)"
    by (cases "getEntityStorage (dpEntityItem payload) s")
  note r1 = steady_getEntityStorage [OF g, of D]
  let ?s2 = "updEntity a (\<lambda>st. st\<lparr>currentEntity := JNull\<rparr>) s1"
  have r2: "steady D s ?s2" by (rule steady_trans [OF r1 steady_updEntity]) simp
  have fin: "steady D t ((updEntity a (\<lambda>st. st\<lparr>downstreamSet := []\<rparr>) t)
                      \<lparr>pendingEmitSet := setAdd (EmitDelete payload) (pendingEmitSet t)\<rparr>)" for t
    by (rule steadyI) auto
  have "resultSat (steady D ?s2) (\<lambda>_ _. True)
          (andThen (markEach n (downstreamSet (entityStorages ?s2 a)) ?s2)
                (\<lambda>_ s3. Ok ()
                   ((updEntity a (\<lambda>st. st\<lparr>downstreamSet := []\<rparr>) s3)
                      \<lparr>pendingEmitSet := setAdd (EmitDelete payload) (pendingEmitSet s3)\<rparr>)))"
    by (rule resultSat_steady_andThen [OF markEach_steady]) (simp add: fin)
  then have "resultSat (steady D s) (\<lambda>_ _. True)
          (andThen (markEach n (downstreamSet (entityStorages ?s2 a)) ?s2)
                (\<lambda>_ s3. Ok ()
                   ((updEntity a (\<lambda>st. st\<lparr>downstreamSet := []\<rparr>) s3)
                      \<lparr>pendingEmitSet := setAdd (EmitDelete payload) (pendingEmitSet s3)\<rparr>)))"
    by (rule resultSat_steady_after [OF r2])
  then show ?thesis by (simp add: deleteEntityItem_def g Let_def)
qed

lemma handleEach_steady:
  assumes h: "\<And>item t. resultSat (steady D t) (\<lambda>_ _. True) (h item t)"
  shows "resultSat (steady D s) (\<lambda>_ _. True) (handleEach h items s)"
proof (induction items arbitrary: s)
  case Nil
  show ?case by simp
next
  case (Cons item rest)
  have "resultSat (steady D s) (\<lambda>_ _. True) (andThen (h item s) (\<lambda>_ s1. handleEach h rest s1))"
    by (rule resultSat_steady_andThen [OF h]) (rule Cons.IH)
  then show ?case by simp
qed

lemma handleCommandAction_steady:
  assumes h: "\<And>item t. resultSat (steady D t) (\<lambda>_ _. True) (h item t)"
  shows "resultSat (steady D s) (\<lambda>_ _. True) (handleCommandAction h n D commandAction s)"
proof -
  let ?s1 = "s\<lparr>pendingEmitSet := setAdd (EmitCommand commandAction) (pendingEmitSet s)\<rparr>"
  have r1: "steady D s ?s1" by (rule steady_queue) simp
  have run: "resultSat (steady D ?s1) (\<lambda>_ _. True) (runProg (injectedGet n D) prog ?s1)"
    for prog :: "commandOutput prog"
    by (rule runProg_steady) (rule injectedGet_steady)
  have "resultSat (steady D ?s1) (\<lambda>_ _. True)
          (andThen (runProg (injectedGet n D)
                    (commandImpl D (commandId (caCommand commandAction)) (caArg commandAction)) ?s1)
           h)"
    by (rule resultSat_steady_andThen [OF run]) (rule h)
  then show ?thesis using resultSat_steady_after [OF r1]
    by (simp add: handleCommandAction_def Let_def)
qed

lemma handleCommandOutput_steady:
  "resultSat (steady D s) (\<lambda>_ _. True) (handleCommandOutput n D out s)"
proof (induction n arbitrary: out s)
  case 0
  show ?case by simp
next
  case (Suc n)
  show ?case
  proof (cases out)
    case NoOutput
    then show ?thesis by simp
  next
    case (OutputList items)
    then show ?thesis using handleEach_steady [of D "handleCommandOutput n D", OF Suc.IH] by simp
  next
    case (CommandActionOutput ca)
    then show ?thesis
      using handleCommandAction_steady [of D "handleCommandOutput n D", OF Suc.IH] by simp
  next
    case (StateItemUpdatePayload stateItem v)
    then show ?thesis using updateStateItem_steady by simp
  next
    case (EntityItemUpdatePayload entityItem v)
    then show ?thesis using updateEntityItem_steady by simp
  next
    case (EntityItemDeletePayload payload)
    then show ?thesis using deleteEntityItem_steady by simp
  next
    case (EventActionOutput eventAction)
    then show ?thesis using steady_queue [of "EmitEvent eventAction" D s] by simp
  qed
qed

lemma updateWipEach_steady:
  "resultSat (steady D s) (\<lambda>_ _. True) (updateWipEach n D qs s)"
proof (induction qs arbitrary: s)
  case Nil
  show ?case by simp
next
  case (Cons q rest)
  have "resultSat (steady D s) (\<lambda>_ _. True)
          (andThen (updateWipQueryStorage n D q s) (\<lambda>_ s1. updateWipEach n D rest s1))"
    by (rule resultSat_steady_andThen [OF updateWipQueryStorage_steady]) (rule Cons.IH)
  then show ?case by simp
qed

lemma clearPendingLeafSetIfNeeded_steady:
  "resultSat (steady D s) (\<lambda>_ _. True) (clearPendingLeafSetIfNeeded n D s)"
proof (induction n arbitrary: s)
  case 0
  show ?case by simp
next
  case (Suc n)
  show ?case
  proof (cases "pendingLeafSet s = []")
    case True
    then show ?thesis by simp
  next
    case False
    let ?s1 = "s\<lparr>pendingLeafSet := []\<rparr>"
    have "resultSat (steady D ?s1) (\<lambda>_ _. True)
            (andThen (updateWipEach n D (pendingLeafSet s) ?s1)
               (\<lambda>_ s1. clearPendingLeafSetIfNeeded n D s1))"
      by (rule resultSat_steady_andThen [OF updateWipEach_steady]) (rule Suc.IH)
    then show ?thesis using False resultSat_steady_after [OF steady_pendingLeafSet] by simp
  qed
qed

lemma clearUpstreams_steady:
  assumes f: "\<And>u t. resultSat (steady D t) (\<lambda>_ _. True) (f u t)"
  shows "resultSat (steady D s) (\<lambda>_ _. True) (clearUpstreams f q rs s)"
proof (induction rs arbitrary: s)
  case Nil
  show ?case by simp
next
  case (Cons r rest)
  let ?s1 = "setDownstream r (setDelete q (downstreamOf s r)) s"
  have r1: "steady D s ?s1" by (rule steady_setDownstream)
  have a: "resultSat (steady D s) (\<lambda>_ _. True) (clearUpstreams f q rest ?s1)"
    by (rule resultSat_steady_after [OF r1 Cons.IH])
  have "resultSat (steady D ?s1) (\<lambda>_ _. True)
          (andThen (f u ?s1) (\<lambda>_ s2. clearUpstreams f q rest s2))" for u
    by (rule resultSat_steady_andThen [OF f]) (rule Cons.IH)
  then have b: "resultSat (steady D s) (\<lambda>_ _. True)
          (andThen (f u ?s1) (\<lambda>_ s2. clearUpstreams f q rest s2))" for u
    by (rule resultSat_steady_after [OF r1])
  show ?case using a b by (cases r) (simp_all add: Let_def)
qed

lemma steady_queryMap: "steady D s (s\<lparr>queryMap := m\<rparr>)"
  by (rule steady_unchanged) simp_all

lemma steady_pendingClearSet: "steady D s (s\<lparr>pendingClearSet := m\<rparr>)"
  by (rule steady_unchanged) simp_all

lemma clearQueryStorage_steady:
  "resultSat (steady D s) (\<lambda>_ _. True) (clearQueryStorage n q s)"
proof (induction n arbitrary: q s)
  case 0
  show ?case by simp
next
  case (Suc n)
  show ?case
  proof (cases "queryMap s (key (queryStorages s q)) = None")
    case True
    then show ?thesis by simp
  next
    case False
    let ?s1 = "s\<lparr>queryMap := (queryMap s)(key (queryStorages s q) := None)\<rparr>"
    have "resultSat (steady D ?s1) (\<lambda>_ _. True)
            (clearUpstreams
              (\<lambda>u t. if shouldClearQueryStorage t u then clearQueryStorage n u t else Ok () t)
              q (upstreamSet (queryStorages ?s1 q)) ?s1)"
      by (rule clearUpstreams_steady) (simp add: Suc.IH)
    then show ?thesis using False resultSat_steady_after [OF steady_queryMap]
      by (simp add: Let_def)
  qed
qed

lemma clearEach_steady:
  "resultSat (steady D s) (\<lambda>_ _. True) (clearEach n qs s)"
proof (induction qs arbitrary: s)
  case Nil
  show ?case by simp
next
  case (Cons q rest)
  have c: "resultSat (steady D s) (\<lambda>_ _. True) (clearQueryStorageIfNeeded n q s)"
    by (simp add: clearQueryStorageIfNeeded_def clearQueryStorage_steady)
  have "resultSat (steady D s) (\<lambda>_ _. True)
          (andThen (clearQueryStorageIfNeeded n q s) (\<lambda>_ s1. clearEach n rest s1))"
    by (rule resultSat_steady_andThen [OF c]) (rule Cons.IH)
  then show ?case by simp
qed

lemma clearPendingStorageSetIfNeeded_steady:
  "resultSat (steady D s) (\<lambda>_ _. True) (clearPendingStorageSetIfNeeded n s)"
proof (induction n arbitrary: s)
  case 0
  show ?case by simp
next
  case (Suc n)
  show ?case
  proof (cases "pendingClearSet s = []")
    case True
    then show ?thesis by simp
  next
    case False
    let ?s1 = "s\<lparr>pendingClearSet := []\<rparr>"
    have "resultSat (steady D ?s1) (\<lambda>_ _. True)
            (andThen (clearEach n (pendingClearSet s) ?s1)
               (\<lambda>_ s1. clearPendingStorageSetIfNeeded n s1))"
      by (rule resultSat_steady_andThen [OF clearEach_steady]) (rule Suc.IH)
    then show ?thesis using False resultSat_steady_after [OF steady_pendingClearSet] by simp
  qed
qed

text \<open>A dispatch followed by the first two passes of the commit.\<close>

lemma beforeEmit_steady:
  "resultSat (steady D s) (\<lambda>_ _. True)
     (andThen (handleCommandOutput n D out s)
        (\<lambda>_ s1. andThen (clearPendingLeafSetIfNeeded n D s1)
           (\<lambda>_ s2. clearPendingStorageSetIfNeeded n s2)))"
proof (rule resultSat_steady_andThen [OF handleCommandOutput_steady])
  fix t
  show "resultSat (steady D t) (\<lambda>_ _. True)
          (andThen (clearPendingLeafSetIfNeeded n D t)
             (\<lambda>_ s2. clearPendingStorageSetIfNeeded n s2))"
    by (rule resultSat_steady_andThen [OF clearPendingLeafSetIfNeeded_steady])
       (rule clearPendingStorageSetIfNeeded_steady)
qed
section \<open>The emitting pass\<close>

lemma flushed_refl [simp]: "flushed s s"
  by (simp add: flushed_def)

lemma flushed_trans: "flushed s t \<Longrightarrow> flushed t u \<Longrightarrow> flushed s u"
  unfolding flushed_def
  apply (elim conjE)
  apply (intro conjI allI impI)
       apply simp
      apply simp
     apply simp
    apply metis
   apply blast
  apply (metis less_le_trans)
  done

lemma flushedD:
  assumes "flushed s s'"
  shows "uid s \<le> uid s'"
    and "currentValue (queryStorages s' q) = currentValue (queryStorages s q)"
    and "upstreamSetId (queryStorages s' q) = upstreamSetId (queryStorages s q)"
    and "entityMap s' k = None \<or> entityMap s' k = entityMap s k"
    and "entityStorageWeakMap s x = Some a \<Longrightarrow> entityStorageWeakMap s' x = Some a"
    and "a < uid s \<Longrightarrow> key (entityStorages s' a) = key (entityStorages s a)"
  using assms unfolding flushed_def by blast+

lemma flushed_markFrame: "markFrame s s' \<Longrightarrow> flushed s s'"
  by (simp add: flushed_def markFrame_fields markFrame_query_fields)

lemma flushed_subjectNext: "flushed s (subjectNext x s)"
  by (simp add: flushed_def subjectNext_def)

lemma flushed_pendingEmitSet: "flushed s (s\<lparr>pendingEmitSet := x\<rparr>)"
  by (simp add: flushed_def)

text \<open>Resolving an entity item.\<close>

lemma getEntityStorage_shape:
  assumes "getEntityStorage entityItem s = (a, s1)"
  shows "uid s \<le> uid s1" and "queryStorages s1 = queryStorages s"
    and "pendingEmitSet s1 = pendingEmitSet s" and "emitted s1 = emitted s"
    and "b < uid s \<Longrightarrow> key (entityStorages s1 b) = key (entityStorages s b)"
    and "entityStorageWeakMap s x = Some c \<Longrightarrow> entityStorageWeakMap s1 x = Some c"
    and "entityMap s1 = entityMap s
         \<or> (entityMap s (key (entityStorages s1 a)) = None
            \<and> entityMap s1 = (entityMap s)(key (entityStorages s1 a) \<mapsto> a))"
    and "entityMap s1 (entityStorageKey entityItem) = None
         \<or> entityMap s1 (entityStorageKey entityItem) = entityMap s (entityStorageKey entityItem)
         \<or> (entityMap s (entityStorageKey entityItem) = None
             \<and> key (entityStorages s1 a) = entityStorageKey entityItem)"
  using assms
  by (auto simp: getEntityStorage_def restoreEntityStorage_def createEntityStorage_def Let_def
        split: option.splits if_splits)

lemma clearEntityStorage_shape:
  assumes c: "clearEntityStorage n a s = Ok u s'"
  shows "uid s' = uid s"
    and "currentValue (queryStorages s' q) = currentValue (queryStorages s q)"
    and "upstreamSetId (queryStorages s' q) = upstreamSetId (queryStorages s q)"
    and "pendingEmitSet s' = pendingEmitSet s" and "emitted s' = emitted s"
    and "key (entityStorages s' b) = key (entityStorages s b)"
    and "entityStorageWeakMap s' = entityStorageWeakMap s"
    and "entityMap s' = (entityMap s)(key (entityStorages s a) := None)"
proof -
  have main: "uid s' = uid s \<and>
      currentValue (queryStorages s' q) = currentValue (queryStorages s q) \<and>
      upstreamSetId (queryStorages s' q) = upstreamSetId (queryStorages s q) \<and>
      pendingEmitSet s' = pendingEmitSet s \<and> emitted s' = emitted s \<and>
      key (entityStorages s' b) = key (entityStorages s b) \<and>
      entityStorageWeakMap s' = entityStorageWeakMap s \<and>
      entityMap s' = (entityMap s)(key (entityStorages s a) := None)"
  proof (cases "entityMap s (key (entityStorages s a)) = None")
    case True
    then have "s' = s" using c by (simp add: clearEntityStorage_def)
    then show ?thesis using True by auto
  next
    case False
    let ?s1 = "s\<lparr>entityMap := (entityMap s)(key (entityStorages s a) := None)\<rparr>"
    from c False obtain t where m: "markEach n (downstreamSet (entityStorages ?s1 a)) ?s1 = Ok () t"
      and s': "s' = updEntity a (\<lambda>st. st\<lparr>downstreamSet := [], currentEntity := JNull\<rparr>) t"
      by (auto simp: clearEntityStorage_def Let_def andThen_def split: result.splits)
    from markEach_frame [OF m] have f: "markFrame ?s1 t" by simp
    note F = markFrame_fields [OF f] markFrame_query_fields [OF f]
    show ?thesis by (simp add: s' F)
  qed
  show "uid s' = uid s"
    and "currentValue (queryStorages s' q) = currentValue (queryStorages s q)"
    and "upstreamSetId (queryStorages s' q) = upstreamSetId (queryStorages s q)"
    and "pendingEmitSet s' = pendingEmitSet s" and "emitted s' = emitted s"
    and "key (entityStorages s' b) = key (entityStorages s b)"
    and "entityStorageWeakMap s' = entityStorageWeakMap s"
    and "entityMap s' = (entityMap s)(key (entityStorages s a) := None)"
    using main by simp_all
qed

lemma emitItem_flushed:
  assumes e: "emitItem n item s = Ok u s'"
  shows "flushed s s'" and "pendingEmitSet s' = pendingEmitSet s"
proof -
  have "flushed s s' \<and> pendingEmitSet s' = pendingEmitSet s"
  proof (cases item)
    case (EmitDelete payload)
    obtain a s1 where g: "getEntityStorage (dpEntityItem payload) s = (a, s1)"
      by (cases "getEntityStorage (dpEntityItem payload) s")
    have c: "clearEntityStorage n a s1 = Ok u s'"
      using e EmitDelete g by (simp add: emitItem_def)
    note G = getEntityStorage_shape [OF g]
    note C = clearEntityStorage_shape [OF c]
    have m: "entityMap s' k = None \<or> entityMap s' k = entityMap s k" for k
      using C(8) G(7) by auto
    have w: "entityStorageWeakMap s' x = Some b" if "entityStorageWeakMap s x = Some b" for x b
      using G(6) [OF that] C(7) by simp
    have k: "key (entityStorages s' b) = key (entityStorages s b)" if "b < uid s" for b
      using G(5) [OF that] C(6) by simp
    show ?thesis
      unfolding flushed_def
      using G(1) C(1) G(2) C(2,3) G(3) C(4) m w k by auto
  qed (use e in \<open>auto simp: emitItem_def flushed_def subjectNext_def\<close>)
  then show "flushed s s'" and "pendingEmitSet s' = pendingEmitSet s" by simp_all
qed

lemma emitItem_emitted:
  assumes e: "emitItem n item s = Ok u s'"
  shows "\<exists>new. emitted s' = emitted s @ new
           \<and> (\<forall>q v. QueryNext q v \<in> set new \<longrightarrow>
                  item = EmitQuery q \<and> v = currentValue (queryStorages s q))"
proof (cases item)
  case (EmitDelete payload)
  obtain a s1 where g: "getEntityStorage (dpEntityItem payload) s = (a, s1)"
    by (cases "getEntityStorage (dpEntityItem payload) s")
  have c: "clearEntityStorage n a s1 = Ok u s'"
    using e EmitDelete g by (simp add: emitItem_def)
  have "emitted s' = emitted s @ []"
    using getEntityStorage_shape(4) [OF g] clearEntityStorage_shape(5) [OF c] by simp
  then show ?thesis by (intro exI [of _ "[]"]) simp
next
  case (EmitQuery q)
  then have "emitted s' = emitted s @ [QueryNext q (currentValue (queryStorages s q))]"
    using e by (auto simp: emitItem_def subjectNext_def)
  then show ?thesis using EmitQuery
    by (intro exI [of _ "[QueryNext q (currentValue (queryStorages s q))]"]) simp
next
  case (EmitState a)
  then have "emitted s' = emitted s @ [StateNext a (currentState (stateStorages s a))]"
    using e by (auto simp: emitItem_def subjectNext_def)
  then show ?thesis
    by (intro exI [of _ "[StateNext a (currentState (stateStorages s a))]"]) simp
next
  case (EmitEntity a)
  then have "emitted s' = emitted s @ [EntityNext a (currentEntity (entityStorages s a))]"
    using e by (auto simp: emitItem_def subjectNext_def)
  then show ?thesis
    by (intro exI [of _ "[EntityNext a (currentEntity (entityStorages s a))]"]) simp
next
  case (EmitEvent x)
  then have "emitted s' = emitted s @ [EventNext x]"
    using e by (auto simp: emitItem_def subjectNext_def)
  then show ?thesis by (intro exI [of _ "[EventNext x]"]) simp
next
  case (EmitCommand x)
  then have "emitted s' = emitted s @ [CommandNext x]"
    using e by (auto simp: emitItem_def subjectNext_def)
  then show ?thesis by (intro exI [of _ "[CommandNext x]"]) simp
qed

lemma emitItem_removes:
  assumes e: "emitItem n (EmitDelete payload) s = Ok u s'"
    and k: "entityMap s (entityStorageKey (dpEntityItem payload)) = None
            \<or> (entityMap s (entityStorageKey (dpEntityItem payload)) = Some a
                \<and> key (entityStorages s a) = entityStorageKey (dpEntityItem payload))"
  shows "entityMap s' (entityStorageKey (dpEntityItem payload)) = None"
proof -
  let ?k = "entityStorageKey (dpEntityItem payload)"
  obtain b s1 where g: "getEntityStorage (dpEntityItem payload) s = (b, s1)"
    by (cases "getEntityStorage (dpEntityItem payload) s")
  have c: "clearEntityStorage n b s1 = Ok u s'"
    using e g by (simp add: emitItem_def)
  note C = clearEntityStorage_shape(8) [OF c]
  show ?thesis
  proof (cases "entityMap s ?k")
    case None
    then show ?thesis using getEntityStorage_shape(8) [OF g] C by auto
  next
    case (Some a')
    then have "a' = a" and ka: "key (entityStorages s a) = ?k" using k by simp_all
    then have "b = a" and "s1 = s" using g Some by (simp_all add: getEntityStorage_def)
    then show ?thesis using C ka by simp
  qed
qed



text \<open>
  The entity storage \<open>a\<close> is in the entity map under the key \<open>k\<close> of its own, or nothing is
  under that key.
\<close>

lemma flushed_slot:
  assumes f: "flushed s s'"
    and k: "entityMap s k = None
            \<or> (\<exists>a < uid s. entityMap s k = Some a \<and> key (entityStorages s a) = k)"
  shows "entityMap s' k = None
         \<or> (\<exists>a < uid s'. entityMap s' k = Some a \<and> key (entityStorages s' a) = k)"
  using flushedD(1,4,6) [OF f] k by (metis less_le_trans)

lemma emitEach_flushed:
  "emitEach n items s = Ok u s' \<Longrightarrow> pendingEmitSet s = [] \<Longrightarrow>
   flushed s s' \<and> pendingEmitSet s' = []
   \<and> (\<exists>new. emitted s' = emitted s @ new
         \<and> (\<forall>q v. QueryNext q v \<in> set new \<longrightarrow>
                EmitQuery q \<in> set items \<and> v = currentValue (queryStorages s q)))"
proof (induction items arbitrary: s)
  case Nil
  then show ?case by simp
next
  case (Cons item rest)
  from Cons.prems obtain t where a: "emitItem n item s = Ok () t"
    and b: "emitEach n rest t = Ok u s'"
    by (auto simp: andThen_def split: result.splits)
  note F = emitItem_flushed [OF a]
  have pt: "pendingEmitSet t = []" using F(2) Cons.prems(2) by simp
  from Cons.IH [OF b pt] obtain new2 where f2: "flushed t s'" and p2: "pendingEmitSet s' = []"
    and e2: "emitted s' = emitted t @ new2"
    and n2: "\<forall>q v. QueryNext q v \<in> set new2 \<longrightarrow>
                EmitQuery q \<in> set rest \<and> v = currentValue (queryStorages t q)"
    by blast
  from emitItem_emitted [OF a] obtain new1 where e1: "emitted t = emitted s @ new1"
    and n1: "\<forall>q v. QueryNext q v \<in> set new1 \<longrightarrow>
                item = EmitQuery q \<and> v = currentValue (queryStorages s q)"
    by blast
  have "emitted s' = emitted s @ (new1 @ new2)" using e1 e2 by simp
  moreover have "\<forall>q v. QueryNext q v \<in> set (new1 @ new2) \<longrightarrow>
                EmitQuery q \<in> set (item # rest) \<and> v = currentValue (queryStorages s q)"
    using n1 n2 flushedD(2) [OF F(1)] by auto
  ultimately show ?case using flushed_trans [OF F(1) f2] p2 by blast
qed

lemma emitEach_removes:
  "emitEach n items s = Ok u s' \<Longrightarrow> pendingEmitSet s = [] \<Longrightarrow>
   EmitDelete payload \<in> set items \<Longrightarrow>
   entityMap s (entityStorageKey (dpEntityItem payload)) = None
     \<or> (\<exists>a < uid s. entityMap s (entityStorageKey (dpEntityItem payload)) = Some a
            \<and> key (entityStorages s a) = entityStorageKey (dpEntityItem payload)) \<Longrightarrow>
   entityMap s' (entityStorageKey (dpEntityItem payload)) = None"
proof (induction items arbitrary: s)
  case Nil
  then show ?case by simp
next
  case (Cons item rest)
  let ?k = "entityStorageKey (dpEntityItem payload)"
  from Cons.prems(1,2) obtain t where a: "emitItem n item s = Ok () t"
    and b: "emitEach n rest t = Ok u s'"
    by (auto simp: andThen_def split: result.splits)
  note F = emitItem_flushed [OF a]
  have pt: "pendingEmitSet t = []" using F(2) Cons.prems(2) by simp
  show ?case
  proof (cases "item = EmitDelete payload")
    case True
    have "entityMap t ?k = None"
      using emitItem_removes [of n payload s "()" t] a True Cons.prems(4) by auto
    then show ?thesis using flushedD(4) [OF conjunct1 [OF emitEach_flushed [OF b pt]], of ?k]
      by auto
  next
    case False
    then have "EmitDelete payload \<in> set rest" using Cons.prems(3) by simp
    then show ?thesis
      using Cons.IH [OF b pt] flushed_slot [OF F(1) Cons.prems(4)] by blast
  qed
qed

lemma clearPendingEmitSetIfNeeded_flushed:
  assumes c: "clearPendingEmitSetIfNeeded n s = Ok u s'"
  shows "flushed s s'"
    and "\<exists>new. emitted s' = emitted s @ new
           \<and> (\<forall>q v. QueryNext q v \<in> set new \<longrightarrow>
                  EmitQuery q \<in> set (pendingEmitSet s) \<and> v = currentValue (queryStorages s q))"
    and "EmitDelete payload \<in> set (pendingEmitSet s) \<Longrightarrow>
         entityMap s (entityStorageKey (dpEntityItem payload)) = None
           \<or> (\<exists>a < uid s. entityMap s (entityStorageKey (dpEntityItem payload)) = Some a
                  \<and> key (entityStorages s a) = entityStorageKey (dpEntityItem payload)) \<Longrightarrow>
         entityMap s' (entityStorageKey (dpEntityItem payload)) = None"
proof -
  obtain m where n: "n = Suc m" using c by (cases n) simp_all
  let ?s0 = "s\<lparr>pendingEmitSet := []\<rparr>"
  have main: "s' = s \<and> pendingEmitSet s = []
              \<or> (emitEach m (pendingEmitSet s) ?s0 = Ok () s')"
  proof (cases "pendingEmitSet s = []")
    case True
    then show ?thesis using c n by simp
  next
    case False
    from c False obtain t where a: "emitEach m (pendingEmitSet s) ?s0 = Ok () t"
      and b: "clearPendingEmitSetIfNeeded m t = Ok u s'"
      unfolding n by (auto simp: andThen_def split: result.splits)
    have pt: "pendingEmitSet t = []" using emitEach_flushed [OF a] by simp
    obtain m' where "m = Suc m'" using b by (cases m) simp_all
    then have "s' = t" using b pt by simp
    then show ?thesis using a by simp
  qed
  have f0: "flushed s ?s0" by (rule flushed_pendingEmitSet)
  show "flushed s s'"
    using main emitEach_flushed [of m "pendingEmitSet s" ?s0 "()" s'] flushed_trans [OF f0]
    by auto
  show "\<exists>new. emitted s' = emitted s @ new
           \<and> (\<forall>q v. QueryNext q v \<in> set new \<longrightarrow>
                  EmitQuery q \<in> set (pendingEmitSet s) \<and> v = currentValue (queryStorages s q))"
  proof (cases "s' = s \<and> pendingEmitSet s = []")
    case True
    then show ?thesis by (intro exI [of _ "[]"]) simp
  next
    case False
    then have "emitEach m (pendingEmitSet s) ?s0 = Ok () s'" using main by blast
    from emitEach_flushed [OF this] show ?thesis by simp
  qed
  show "entityMap s' (entityStorageKey (dpEntityItem payload)) = None"
    if "EmitDelete payload \<in> set (pendingEmitSet s)"
      and "entityMap s (entityStorageKey (dpEntityItem payload)) = None
           \<or> (\<exists>a < uid s. entityMap s (entityStorageKey (dpEntityItem payload)) = Some a
                  \<and> key (entityStorages s a) = entityStorageKey (dpEntityItem payload))"
  proof -
    from that(1) main have e: "emitEach m (pendingEmitSet s) ?s0 = Ok () s'" by auto
    show ?thesis using emitEach_removes [OF e _ that(1)] that(2) by simp
  qed
qed


text \<open>A commit is its first two passes, which emit nothing, and then the emitting pass.\<close>

lemma commit_OkD:
  assumes "commit n D s = Ok u s'"
  shows "\<exists>t. steady D s t \<and> clearPendingEmitSetIfNeeded n t = Ok u s'"
proof -
  let ?r = "andThen (clearPendingLeafSetIfNeeded n D s) (\<lambda>_ s2. clearPendingStorageSetIfNeeded n s2)"
  have r: "resultSat (steady D s) (\<lambda>_ _. True) ?r"
    by (rule resultSat_steady_andThen [OF clearPendingLeafSetIfNeeded_steady])
       (rule clearPendingStorageSetIfNeeded_steady)
  have "commit n D s = andThen ?r (\<lambda>_ s3. clearPendingEmitSetIfNeeded n s3)"
    by (simp add: commit_def andThen_assoc)
  with assms obtain x t where "?r = Ok x t" and "clearPendingEmitSetIfNeeded n t = Ok u s'"
    by (cases ?r) simp_all
  then show ?thesis using r by auto
qed


lemma send_OkD:
  assumes "send n D out s = Ok u s'"
  shows "\<exists>t. steady D s t \<and> clearPendingEmitSetIfNeeded n t = Ok u s'"
proof -
  from assms obtain s1 where h: "handleCommandOutput n D out s = Ok () s1"
    and c: "commit n D s1 = Ok u s'"
    by (auto simp: send_def andThen_def split: result.splits)
  from handleCommandOutput_steady [of D s n out] h have "steady D s s1" by simp
  with commit_OkD [OF c] show ?thesis by (blast intro: steady_trans)
qed

text \<open>
  What a subscriber of the query storage \<open>q\<close> receives from a \<^verbatim>\<open>send\<close>: the storage has been
  recomputed, and the value is the one it holds at the end; when it has been recomputed once,
  that value is one that the query's \<^verbatim>\<open>compare\<close> finds different from the one before.
\<close>

lemma send_notifies:
  assumes s: "send n D out s = Ok u s'" and q: "q < uid s"
    and nq: "EmitQuery q \<notin> set (pendingEmitSet s)"
    and e: "emitted s' = emitted s @ new" and x: "QueryNext q v \<in> set new"
  shows "upstreamSetId (queryStorages s q) < upstreamSetId (queryStorages s' q)"
    and "v = currentValue (queryStorages s' q)"
    and "upstreamSetId (queryStorages s' q) = Suc (upstreamSetId (queryStorages s q)) \<Longrightarrow>
         \<not> queryCompare D (queryId (Query (queryStorages s q)))
              (currentValue (queryStorages s q)) v"
proof -
  from send_OkD [OF s] obtain t where st: "steady D s t"
    and c: "clearPendingEmitSetIfNeeded n t = Ok u s'"
    by blast
  note F = clearPendingEmitSetIfNeeded_flushed(1) [OF c]
  from clearPendingEmitSetIfNeeded_flushed(2) [OF c] obtain new'
    where e': "emitted s' = emitted t @ new'"
      and n': "\<forall>q v. QueryNext q v \<in> set new' \<longrightarrow>
                  EmitQuery q \<in> set (pendingEmitSet t) \<and> v = currentValue (queryStorages t q)"
    by blast
  have "new' = new" using e e' steadyD(2) [OF st] by simp
  then have qt: "EmitQuery q \<in> set (pendingEmitSet t)"
    and vt: "v = currentValue (queryStorages t q)"
    using n' x by auto
  have ne: "upstreamSetId (queryStorages t q) \<noteq> upstreamSetId (queryStorages s q)"
    using steady_same(2) [OF st q _ qt] nq by blast
  show "upstreamSetId (queryStorages s q) < upstreamSetId (queryStorages s' q)"
    using ne steady_query(2) [OF st q] flushedD(3) [OF F, of q] by simp
  show "v = currentValue (queryStorages s' q)" using vt flushedD(2) [OF F, of q] by simp
  show "\<not> queryCompare D (queryId (Query (queryStorages s q)))
              (currentValue (queryStorages s q)) v"
    if "upstreamSetId (queryStorages s' q) = Suc (upstreamSetId (queryStorages s q))"
  proof -
    have "upstreamSetId (queryStorages t q) = Suc (upstreamSetId (queryStorages s q))"
      using that flushedD(3) [OF F, of q] by simp
    from steady_once [OF st q this] show ?thesis using nq qt vt by auto
  qed
qed

section \<open>Marking returns\<close>

lemma finite_unmarkedEdges [simp]: "finite (unmarkedEdges s)"
proof (rule finite_subset)
  show "unmarkedEdges s \<subseteq> {..<uid s} \<times> {..<uid s}" by (auto simp: unmarkedEdges_def)
qed simp







lemma unmarkedEdges_status [simp]:
  "unmarkedEdges (updQuery q (\<lambda>st. st\<lparr>status := x\<rparr>) s) = unmarkedEdges s"
  by (auto simp: unmarkedEdges_def)




section \<open>Key resolution\<close>


lemma digitsOf_nonempty: "digitsOf n \<noteq> []"
  by (subst digitsOf.simps) simp

lemma doubleToString_nonempty: "doubleToString x \<noteq> []"
  by (simp add: doubleToString_def Let_def digitsOf_nonempty split: list.split)

lemma numberToString_nonempty: "numberToString i \<noteq> []"
  by (simp add: numberToString_def magnitudeToString_def doubleToString_nonempty
        digitsOf_nonempty)

lemma serializeJSON_nonempty: "serializeJSON v \<noteq> []"
  by (cases v) (simp_all add: numberToString_nonempty quoteJSONString_def)

lemma argString_eq_iff:
  "(argString a = argString b) = (JSON_stringify a = JSON_stringify b)"
  by (auto simp: argString_def nullish_def JSON_stringify_def serializeJSON_nonempty
      dest: sym)

lemma queryStorageKey_nonempty: "queryStorageKey a \<noteq> []"
  by (simp add: queryStorageKey_def)

lemma getQueryStorageKey_memo:
  "\<forall>k. cache (qaObj a) = Some k \<longrightarrow> k = queryStorageKey a \<Longrightarrow>
   fst (getQueryStorageKey cache a) = queryStorageKey a"
  by (auto simp: getQueryStorageKey_def Let_def split: option.splits)

lemma getStateStorageKey_memo:
  "\<forall>k. cache (siObj a) = Some k \<longrightarrow> k = stateStorageKey a \<Longrightarrow>
   fst (getStateStorageKey cache a) = stateStorageKey a"
  by (auto simp: getStateStorageKey_def Let_def split: option.splits)

text \<open>
  C9, as stated: two query actions of one declaration whose arguments are objects with the
  same key-value pairs resolve to the same key. It fails: with the members listed in
  different orders, \<^verbatim>\<open>JSON.stringify\<close> gives different texts and so different keys.
\<close>

theorem getQueryStorageKey_depends_on_member_order:
  "sameKeyValuePairs (qaArg orderExampleA) (qaArg orderExampleB)
   \<and> qaQuery orderExampleA = qaQuery orderExampleB
   \<and> fst (getQueryStorageKey Map.empty orderExampleA)
       \<noteq> fst (getQueryStorageKey Map.empty orderExampleB)"
  by code_simp

text \<open>
  C9, amended: the key of a query action is a function of the declaration's id, its name and
  the \<^verbatim>\<open>JSON.stringify\<close> text of the argument. Two actions of one declaration resolve
  to the same key exactly when their arguments have the same text (the same members in the
  same order); a missing argument contributes the empty string. An entry of
  \<^verbatim>\<open>storageKeyWeakMap\<close> for the action, when it is the key computed for that action
  before, does not change the answer.
\<close>

theorem getQueryStorageKey_by_serialized_argument:
  assumes "qaQuery a = qaQuery b"
    and "\<forall>k. cache (qaObj a) = Some k \<longrightarrow> k = queryStorageKey a"
    and "\<forall>k. cache' (qaObj b) = Some k \<longrightarrow> k = queryStorageKey b"
  shows "(fst (getQueryStorageKey cache a) = fst (getQueryStorageKey cache' b))
           = (JSON_stringify (qaArg a) = JSON_stringify (qaArg b))
         \<and> fst (getQueryStorageKey cache a)
             = ''Query/'' @ digitsOf (queryId (qaQuery a)) @ ''/'' @ queryName (qaQuery a)
                 @ '':'' @ (case JSON_stringify (qaArg a) of None \<Rightarrow> [] | Some t \<Rightarrow> t)
         \<and> (qaArg a = JUndefined \<longrightarrow>
              fst (getQueryStorageKey cache a)
                = ''Query/'' @ digitsOf (queryId (qaQuery a)) @ ''/'' @ queryName (qaQuery a) @ '':'')"
proof -
  have ka: "fst (getQueryStorageKey cache a) = queryStorageKey a"
    using assms(2) by (rule getQueryStorageKey_memo)
  have kb: "fst (getQueryStorageKey cache' b) = queryStorageKey b"
    using assms(3) by (rule getQueryStorageKey_memo)
  have "(queryStorageKey a = queryStorageKey b) = (argString (qaArg a) = argString (qaArg b))"
    using assms(1) by (simp add: queryStorageKey_def)
  then have 1: "(fst (getQueryStorageKey cache a) = fst (getQueryStorageKey cache' b))
           = (JSON_stringify (qaArg a) = JSON_stringify (qaArg b))"
    by (simp add: ka kb argString_eq_iff)
  have 2: "fst (getQueryStorageKey cache a)
             = ''Query/'' @ digitsOf (queryId (qaQuery a)) @ ''/'' @ queryName (qaQuery a)
                 @ '':'' @ (case JSON_stringify (qaArg a) of None \<Rightarrow> [] | Some t \<Rightarrow> t)"
    by (simp add: ka queryStorageKey_def argString_def nullish_def)
  have 3: "qaArg a = JUndefined \<longrightarrow>
              fst (getQueryStorageKey cache a)
                = ''Query/'' @ digitsOf (queryId (qaQuery a)) @ ''/'' @ queryName (qaQuery a) @ '':''"
    by (simp add: ka queryStorageKey_def argString_def nullish_def JSON_stringify_def)
  from 1 2 3 show ?thesis by blast
qed

text \<open>The amended statement of C9 at two actions whose arguments list the same members in the same order.\<close>

theorem getQueryStorageKey_by_serialized_argument_witness:
  "qaQuery orderExampleA = qaQuery sameOrderExample
   \<and> JSON_stringify (qaArg orderExampleA) = JSON_stringify (qaArg sameOrderExample)
   \<and> fst (getQueryStorageKey Map.empty orderExampleA)
       = fst (getQueryStorageKey Map.empty sameOrderExample)"
proof -
  have h1: "qaQuery orderExampleA = qaQuery sameOrderExample"
    by (simp add: orderExampleA_def sameOrderExample_def)
  have h2: "\<forall>k. Map.empty (qaObj orderExampleA) = Some k \<longrightarrow> k = queryStorageKey orderExampleA"
    by simp
  have h3: "\<forall>k. Map.empty (qaObj sameOrderExample) = Some k \<longrightarrow> k = queryStorageKey sameOrderExample"
    by simp
  have e: "JSON_stringify (qaArg orderExampleA) = JSON_stringify (qaArg sameOrderExample)"
    by (simp add: orderExampleA_def sameOrderExample_def)
  from getQueryStorageKey_by_serialized_argument [OF h1 h2 h3] e
  have "fst (getQueryStorageKey Map.empty orderExampleA)
       = fst (getQueryStorageKey Map.empty sameOrderExample)"
    by blast
  with h1 e show ?thesis by blast
qed

section \<open>Deferred commit\<close>

lemma runMicrotask_stale:
  "ticksBehind s \<Longrightarrow> runMicrotask n D s = Ok () (s\<lparr>microtasks := tl (microtasks s)\<rparr>)"
  by (cases "microtasks s") (auto simp: runMicrotask_def ticksBehind_def Let_def)

lemma commitOnNextTick_ticksBehind:
  "ticksBehind s \<Longrightarrow> currentTick s < 2 ^ 53 \<Longrightarrow> ticksBehind (commitOnNextTick s)"
  by (auto simp: ticksBehind_def commitOnNextTick_def increment_def Let_def less_Suc_eq)

text \<open>
  While the counter is below \<open>2 ^ 53\<close>, the callback that \<^verbatim>\<open>commitOnNextTick\<close> has just
  queued finds \<^verbatim>\<open>tick === currentTick\<close> false, also when nothing else was scheduled:
  \<^verbatim>\<open>let tick = currentTick++\<close> captures the value before the increment.
\<close>

lemma runMicrotask_commitOnNextTick:
  assumes "currentTick s < 2 ^ 53" and "microtasks s = []"
  shows "runMicrotask n D (commitOnNextTick s) = Ok () (s\<lparr>currentTick := Suc (currentTick s)\<rparr>)"
proof -
  have "ticksBehind s" using assms(2) by (simp add: ticksBehind_def)
  then have "ticksBehind (commitOnNextTick s)"
    using assms(1) by (rule commitOnNextTick_ticksBehind)
  then have "runMicrotask n D (commitOnNextTick s)
      = Ok () ((commitOnNextTick s)\<lparr>microtasks := tl (microtasks (commitOnNextTick s))\<rparr>)"
    by (rule runMicrotask_stale)
  also have "(commitOnNextTick s)\<lparr>microtasks := tl (microtasks (commitOnNextTick s))\<rparr>
      = s\<lparr>currentTick := Suc (currentTick s)\<rparr>"
    using assms by (cases s) (simp add: commitOnNextTick_def increment_def Let_def)
  finally show ?thesis .
qed

lemma effectDispatch_result:
  "(case effectDispatch of
      Ok _ s \<Rightarrow>
        microtasks s = [] \<and> currentTick s = 0 \<and> emitted s = []
        \<and> pendingEmitSet s = [EmitState 1] \<and> pendingLeafSet s = [0]
        \<and> status (queryStorages s 0) = Wip
        \<and> currentState (stateStorages s 1) = JNumber 1
        \<and> currentValue (queryStorages s 0) = JNumber 0
    | _ \<Rightarrow> False)"
  by (simp add: effectDispatch_def initialStore_def counterDecls_def CountState_def
        Doubled_def eval_defs cong: andThen_weak_cong)

lemma sendRun_result:
  "(case sendRun of
      Ok _ s \<Rightarrow> emitted s = [StateNext 1 (JNumber 1), QueryNext 0 (JNumber 2)]
    | _ \<Rightarrow> False)"
  by (simp add: sendRun_def initialStore_def counterDecls_def CountState_def Doubled_def
        eval_defs cong: andThen_weak_cong)

lemma effectRun_eq:
  "effectRun = andThen effectDispatch (\<lambda>_ s. runMicrotask 5 counterDecls (commitOnNextTick s))"
  by (simp add: effectRun_def effectDispatch_def handleEffectOutput_def andThen_assoc)

text \<open>
  C2, at a failing input: \<^verbatim>\<open>Doubled\<close> is subscribed, one effect output \<^verbatim>\<open>Count := 1\<close> is fed
  back and nothing else is scheduled before the callback runs. The callback does not
  commit: the state holds 1, the query still holds 0 and is marked \<open>Wip\<close>, the pending sets
  are not flushed and no subscriber has been notified. The same dispatch through
  \<^verbatim>\<open>send\<close> delivers both notifications.
\<close>

theorem effect_commit_never_runs:
  "(case effectRun of
      Ok _ s \<Rightarrow>
        microtasks s = [] \<and> currentTick s = 1 \<and> emitted s = []
        \<and> pendingEmitSet s = [EmitState 1] \<and> pendingLeafSet s = [0]
        \<and> status (queryStorages s 0) = Wip
        \<and> currentState (stateStorages s 1) = JNumber 1
        \<and> currentValue (queryStorages s 0) = JNumber 0
    | _ \<Rightarrow> False)
   \<and> (case sendRun of
        Ok _ s \<Rightarrow> emitted s = [StateNext 1 (JNumber 1), QueryNext 0 (JNumber 2)]
      | _ \<Rightarrow> False)"
proof -
  from case_OkD [OF effectDispatch_result]
  obtain u s where d: "effectDispatch = Ok u s"
    and f: "microtasks s = []" "currentTick s = 0" "emitted s = []"
    "pendingEmitSet s = [EmitState 1]" "pendingLeafSet s = [0]"
    "status (queryStorages s 0) = Wip" "currentState (stateStorages s 1) = JNumber 1"
    "currentValue (queryStorages s 0) = JNumber 0"
    by blast
  have e: "effectRun = Ok () (s\<lparr>currentTick := Suc (currentTick s)\<rparr>)"
    unfolding effectRun_eq d using f(1,2) by (simp add: runMicrotask_commitOnNextTick)
  have "(case effectRun of
      Ok _ s \<Rightarrow>
        microtasks s = [] \<and> currentTick s = 1 \<and> emitted s = []
        \<and> pendingEmitSet s = [EmitState 1] \<and> pendingLeafSet s = [0]
        \<and> status (queryStorages s 0) = Wip
        \<and> currentState (stateStorages s 1) = JNumber 1
        \<and> currentValue (queryStorages s 0) = JNumber 0
    | _ \<Rightarrow> False)"
    unfolding e using f by simp
  then show ?thesis using sendRun_result by (rule conjI)
qed

section \<open>Derived values against evaluation from scratch\<close>

text \<open>
  C1, at a failing input: the entity is created with value \<open>userA\<close>, the query that
  returns it is subscribed, the entity is updated to \<open>userB\<close>, each with \<^verbatim>\<open>send\<close>.
  The \<^verbatim>\<open>queryContext.get\<close> of \<^verbatim>\<open>createQueryStorage\<close> records no edge for an entity, so the
  update marks nothing: the query storage is live, subscribed, and holds \<open>userA\<close>, no
  notification for it was sent, and its \<^verbatim>\<open>impl\<close> evaluated against the final store returns
  \<open>userB\<close>.
\<close>

theorem entity_read_at_creation_not_tracked:
  "(case entityUpdateRun of
      Ok _ s \<Rightarrow>
        queryMap s (queryStorageKey UserQuery) = Some 1
        \<and> refCount (queryStorages s 1) = 1
        \<and> status (queryStorages s 1) = Default
        \<and> currentEntity (entityStorages s 0) = userB
        \<and> currentValue (queryStorages s 1) = userA
        \<and> upstreamSet (queryStorages s 1) = []
        \<and> emitted s = [EntityNext 0 userB]
        \<and> (case freshValue 3 userDecls UserQuery s of Ok v _ \<Rightarrow> v = userB | _ \<Rightarrow> False)
    | _ \<Rightarrow> False)"
  by (simp add: entityUpdateRun_def initialStore_def userDecls_def UserEntity_def
        UserQuery_def userA_def userB_def eval_defs cong: andThen_weak_cong)


text \<open>
  A second way to the same state. In \<open>profileStore\<close> the query \<^verbatim>\<open>Profile\<close> (storage 1) has
  been recomputed, so the entity is in its upstream set, and the update of the entity marks
  it. The loop of \<^verbatim>\<open>updateWipQueryStorage\<close> has no case for a stale upstream that is an
  entity storage: the query settles to \<open>Default\<close> without being re-evaluated and goes on
  holding \<open>userA\<close>.
\<close>

lemma stale_entity_upstream_not_recomputed:
  "upstreamSet (queryStorages profileStore 1) = [StateRef 2, EntityRef 0]
   \<and> (case send 6 profileDecls (EntityItemUpdatePayload UserEntity userB) profileStore of
         Ok _ s \<Rightarrow>
           currentEntity (entityStorages s 0) = userB
           \<and> status (queryStorages s 1) = Default
           \<and> currentValue (queryStorages s 1) = JArray [JNumber 1, userA]
       | _ \<Rightarrow> False)"
  by (simp add: profileStore_def resultStore_def initialStore_def profileDecls_def
        UserEntity_def CountState_def Profile_def userA_def userB_def eval_defs
      cong: andThen_weak_cong)
section \<open>Reading an entity without value\<close>

lemma getCurrentEntity_unset:
  "resolvesUnset s entityItem \<Longrightarrow> \<exists>e s'. getCurrentEntity entityItem s = Err e s'"
  by (auto simp: resolvesUnset_def getCurrentEntity_def split: prod.splits)

lemma resolvesUnset_never_created:
  "entityMap s (entityStorageKey entityItem) = None \<Longrightarrow>
   entityStorageWeakMap s (eiObj entityItem) = None \<Longrightarrow> resolvesUnset s entityItem"
  by (simp add: resolvesUnset_def getEntityStorage_def createEntityStorage_def Let_def)

lemma resolvesUnset_addEdge:
  "resolvesUnset s entityItem \<Longrightarrow> getEntityStorage entityItem s = (u, s1) \<Longrightarrow>
   resolvesUnset (addEdge q (EntityRef u) s1) entityItem"
  by (auto simp: resolvesUnset_def getEntityStorage_def createEntityStorage_def
      restoreEntityStorage_def addEdge_def setDownstream_def downstreamOf_def updQuery_def
      updEntity_def Let_def split: option.splits if_splits)

lemma injectedGet_unset:
  "resolvesUnset s entityItem \<Longrightarrow>
   \<exists>e s'. injectedGet (Suc n) D (EntityInput entityItem) s = Err e s'"
  by (simp add: injectedGet_Suc getCurrentEntity_unset)

lemma contextGet_unset:
  assumes "resolvesUnset s entityItem"
  shows "\<exists>e s'. contextGet (Suc (Suc n)) D ctx (EntityInput entityItem) s = Err e s'"
proof (cases ctx)
  case InjectedContext
  then show ?thesis using assms by (simp add: contextGet_Suc injectedGet_unset)
next
  case (CreateQueryContext q sid)
  then show ?thesis using assms by (simp add: contextGet_Suc injectedGet_unset)
next
  case (UpdateQueryContext q sid)
  obtain u s1 where g: "getEntityStorage entityItem s = (u, s1)"
    by (cases "getEntityStorage entityItem s")
  from resolvesUnset_addEdge [OF assms g]
  have "\<exists>e s'. injectedGet (Suc n) D (EntityInput entityItem) (addEdge q (EntityRef u) s1)
          = Err e s'"
    by (rule injectedGet_unset)
  then show ?thesis
    using UpdateQueryContext assms g by (simp add: contextGet_Suc injectedGet_unset)
qed

lemma contextGet_entity_fuel:
  "contextGet (Suc 0) D ctx (EntityInput entityItem) s = OutOfFuel"
  by (cases ctx) (simp_all add: contextGet_Suc split: prod.splits)

text \<open>
  C7: when the storage an entity item resolves to has \<^verbatim>\<open>currentEntity === null\<close>, which
  is so for an entity that was never created, the read throws. That holds for
  \<^verbatim>\<open>getCurrentEntity\<close> and for the \<^verbatim>\<open>get\<close> of every context (the two query contexts and
  \<^verbatim>\<open>remeshInjectedContext\<close>): no number of nested calls makes it return a value, and user
  code that does not catch the error throws it on.
\<close>

theorem get_unset_entity_throws:
  assumes "resolvesUnset s entityItem"
  shows "(\<exists>e s'. getCurrentEntity entityItem s = Err e s')
    \<and> (\<forall>n ctx. \<exists>e s'. contextGet (Suc (Suc n)) D ctx (EntityInput entityItem) s = Err e s')
    \<and> (\<forall>n ctx v s'. contextGet n D ctx (EntityInput entityItem) s \<noteq> Ok v s')
    \<and> (\<forall>n ctx k. \<exists>e s'. runProg (contextGet (Suc (Suc n)) D ctx)
                              (getThen (EntityInput entityItem) k) s = Err e s')
    \<and> (\<forall>t item. entityMap t (entityStorageKey item) = None
                 \<and> entityStorageWeakMap t (eiObj item) = None \<longrightarrow> resolvesUnset t item)"
proof -
  have 1: "\<exists>e s'. getCurrentEntity entityItem s = Err e s'"
    using assms by (rule getCurrentEntity_unset)
  have 2: "\<exists>e s'. contextGet (Suc (Suc n)) D ctx (EntityInput entityItem) s = Err e s'"
    for n ctx using assms by (rule contextGet_unset)
  have 3: "contextGet n D ctx (EntityInput entityItem) s \<noteq> Ok v s'" for n ctx v s'
  proof (cases n)
    case 0
    then show ?thesis by simp
  next
    case (Suc m)
    show ?thesis
    proof (cases m)
      case 0
      then show ?thesis using Suc by (simp add: contextGet_entity_fuel)
    next
      case (Suc k)
      with 2 [of k ctx] \<open>n = Suc m\<close> show ?thesis by auto
    qed
  qed
  have 4: "\<exists>e s'. runProg (contextGet (Suc (Suc n)) D ctx)
                              (getThen (EntityInput entityItem) k) s = Err e s'" for n ctx k
    using 2 [of n ctx] by (auto simp: getThen_def)
  have 5: "\<forall>t item. entityMap t (entityStorageKey item) = None
                 \<and> entityStorageWeakMap t (eiObj item) = None \<longrightarrow> resolvesUnset t item"
    by (simp add: resolvesUnset_never_created)
  from 1 2 3 4 5 show ?thesis by blast
qed

text \<open>C7 at the fresh store, where the entity \<^verbatim>\<open>User\<close> was never created.\<close>

theorem get_unset_entity_throws_witness:
  "resolvesUnset initialStore UserEntity
   \<and> (\<exists>e s'. getCurrentEntity UserEntity initialStore = Err e s')
   \<and> (\<exists>e s'. contextGet (Suc (Suc 0)) userDecls (UpdateQueryContext 0 0)
                (EntityInput UserEntity) initialStore = Err e s')"
proof -
  have h: "resolvesUnset initialStore UserEntity"
    by (simp add: resolvesUnset_def initialStore_def UserEntity_def eval_defs)
  from get_unset_entity_throws [OF h, of userDecls] h show ?thesis
    by blast
qed

section \<open>C10: reading a stale query\<close>

text \<open>
  C10, at a failing input. \<^verbatim>\<open>Profile\<close> (storage 1) has read the state \<^verbatim>\<open>Count\<close> and the
  entity \<^verbatim>\<open>User\<close> (storage 0), and the entity is in its upstream set. An effect updates the
  entity to \<open>userB\<close>: \<^verbatim>\<open>updateEntityItem\<close> puts the entity storage in the query's
  \<^verbatim>\<open>wipUpstreamSet\<close> and marks the query \<open>Wip\<close>. Before the deferred commit, \<^verbatim>\<open>Profile\<close> is read
  (\<^verbatim>\<open>getCurrentQueryValue\<close>). The loop of \<^verbatim>\<open>updateWipQueryStorage\<close> has a case for a stale
  state storage and one for a stale query storage, and none for an entity storage: the read
  settles the query to \<open>Default\<close> without re-evaluating it (its \<^verbatim>\<open>upstreamSet\<close> object is the old
  one) and returns the value computed from \<open>userA\<close>, while the entity holds \<open>userB\<close> and the
  query evaluated against that store gives the value with \<open>userB\<close>.
\<close>

theorem read_of_query_with_stale_entity_returns_old_value:
  "status (queryStorages profileStale 1) = Wip
   \<and> wipUpstreamSet (queryStorages profileStale 1) = [EntityRef 0]
   \<and> upstreamSet (queryStorages profileStale 1) = [StateRef 2, EntityRef 0]
   \<and> currentEntity (entityStorages profileStale 0) = userB
   \<and> getCurrentQueryValue 5 profileDecls Profile profileStale
       = Ok (JArray [JNumber 1, userA]) profileRead
   \<and> status (queryStorages profileRead 1) = Default
   \<and> upstreamSetId (queryStorages profileRead 1) = upstreamSetId (queryStorages profileStale 1)
   \<and> currentValue (queryStorages profileRead 1) = JArray [JNumber 1, userA]
   \<and> currentEntity (entityStorages profileRead 0) = userB
   \<and> freshValue 3 profileDecls Profile profileRead = Ok (JArray [JNumber 1, userB]) profileRead"
  by (simp add: profileRead_def profileStale_def profileStore_def resultStore_def
        initialStore_def profileDecls_def UserEntity_def CountState_def Profile_def userA_def
        userB_def handleEffectOutput_def commitOnNextTick_def eval_defs
      cong: andThen_weak_cong)
section \<open>Deleting an entity\<close>










section \<open>C4: propagation is gated by \<^verbatim>\<open>compare\<close>\<close>

text \<open>Resolving a state item touches no query storage and nothing that is pending.\<close>

lemma getStateStorage_untouched:
  assumes "getStateStorage D stateItem s = (a, s')"
  shows "queryStorages s' = queryStorages s" and "pendingEmitSet s' = pendingEmitSet s"
    and "pendingLeafSet s' = pendingLeafSet s" and "pendingClearSet s' = pendingClearSet s"
    and "emitted s' = emitted s" and "queryMap s' = queryMap s"
  using assms
  by (auto simp: getStateStorage_def restoreStateStorage_def createStateStorage_def Let_def
        split: option.splits if_splits)

lemma updateStateItem_equal:
  assumes "getStateStorage D stateItem s = (a, s')"
    and "stateCompare D (stateId (siState stateItem)) (currentState (stateStorages s' a)) v"
  shows "updateStateItem n D stateItem v s = Ok () s'"
  using assms by (simp add: updateStateItem_def)

lemma commit_nothing_pending:
  assumes "pendingLeafSet s = []" and "pendingClearSet s = []" and "pendingEmitSet s = []"
  shows "commit (Suc n) D s = Ok () s"
  using assms by (simp add: commit_def)

lemma send_equal_state:
  assumes "getStateStorage D stateItem s = (a, s')"
    and "stateCompare D (stateId (siState stateItem)) (currentState (stateStorages s' a)) v"
    and "pendingLeafSet s = []" and "pendingClearSet s = []" and "pendingEmitSet s = []"
  shows "send (Suc n) D (StateItemUpdatePayload stateItem v) s = Ok () s'"
  using assms getStateStorage_untouched [OF assms(1)]
  by (simp add: send_def updateStateItem_equal commit_nothing_pending)

text \<open>
  A command whose \<^verbatim>\<open>impl\<close> returns the update of a state to a value that the state's
  \<^verbatim>\<open>compare\<close> finds equal to the current one: the dispatch leaves the store that the reads of
  the command and the resolution of the state item have left.
\<close>

lemma command_equal_state:
  assumes run: "runProg (injectedGet (Suc n) D)
                  (commandImpl D (commandId (caCommand ca)) (caArg ca))
                  (s\<lparr>pendingEmitSet := setAdd (EmitCommand ca) (pendingEmitSet s)\<rparr>)
                = Ok (StateItemUpdatePayload stateItem v) s1"
    and g: "getStateStorage D stateItem s1 = (a, s2)"
    and c: "stateCompare D (stateId (siState stateItem)) (currentState (stateStorages s2 a)) v"
  shows "handleCommandOutput (Suc (Suc n)) D (CommandActionOutput ca) s = Ok () s2"
  by (simp add: handleCommandAction_def Let_def run updateStateItem_equal [OF g c])

lemma send_command_equal_state:
  assumes run: "runProg (injectedGet (Suc n) D)
                  (commandImpl D (commandId (caCommand ca)) (caArg ca))
                  (s\<lparr>pendingEmitSet := setAdd (EmitCommand ca) (pendingEmitSet s)\<rparr>)
                = Ok (StateItemUpdatePayload stateItem v) s1"
    and g: "getStateStorage D stateItem s1 = (a, s2)"
    and c: "stateCompare D (stateId (siState stateItem)) (currentState (stateStorages s2 a)) v"
    and p: "pendingLeafSet s1 = []" "pendingClearSet s1 = []" "pendingEmitSet s1 = [EmitCommand ca]"
  shows "send (Suc (Suc n)) D (CommandActionOutput ca) s
         = Ok () (s2\<lparr>pendingEmitSet := [], emitted := emitted s2 @ [CommandNext ca]\<rparr>)"
proof -
  note U = getStateStorage_untouched [OF g]
  have h: "handleCommandOutput (Suc (Suc n)) D (CommandActionOutput ca) s = Ok () s2"
    using run g c by (rule command_equal_state)
  have "commit (Suc (Suc n)) D s2
        = Ok () (s2\<lparr>pendingEmitSet := [], emitted := emitted s2 @ [CommandNext ca]\<rparr>)"
    using U(2,3,4) p by (simp add: commit_def emitItem_def subjectNext_def)
  then show ?thesis unfolding send_def h by simp
qed

text \<open>What \<^verbatim>\<open>updateQueryStorage\<close> returns, when the storage was not recomputed within its own
  evaluation.\<close>

lemma updateQueryStorage_gate:
  assumes i: "storeInv s" and q: "q < uid s"
    and u: "updateQueryStorage n D q s = Ok b s'"
    and once: "upstreamSetId (queryStorages s' q) = Suc (upstreamSetId (queryStorages s q))"
  shows "\<not> b \<Longrightarrow> currentValue (queryStorages s' q) = currentValue (queryStorages s q)"
    and "\<not> b \<Longrightarrow> EmitQuery q \<in> set (pendingEmitSet s') \<Longrightarrow> EmitQuery q \<in> set (pendingEmitSet s)"
    and "b \<Longrightarrow> \<not> queryCompare D (queryId (Query (queryStorages s q)))
                   (currentValue (queryStorages s q)) (currentValue (queryStorages s' q))"
    and "b \<Longrightarrow> EmitQuery q \<in> set (pendingEmitSet s')"
proof -
  obtain m where n: "n = Suc m" using u by (cases n) simp_all
  let ?sid = "Suc (upstreamSetId (queryStorages s q))"
  let ?s2 = "updQuery q (\<lambda>st. st\<lparr>upstreamSet := [], upstreamSetId := ?sid\<rparr>)
               (fold (detachUpstream q) (upstreamSet (queryStorages s q)) s)"
  let ?run = "runProg (contextGet m D (UpdateQueryContext q ?sid))
                (queryImpl D (queryId (Query (queryStorages s q))) (arg (queryStorages s q))) ?s2"
  have i2: "storeInv ?s2" using i by (rule storeInv_beginUpdate)
  have eq: "andThen ?run
             (\<lambda>newValue s3.
                if queryCompare D (queryId (Query (queryStorages s q)))
                     (currentValue (queryStorages s3 q)) newValue
                then Ok False s3
                else Ok True ((updQuery q (\<lambda>st. st\<lparr>currentValue := newValue\<rparr>) s3)
                       \<lparr>pendingEmitSet := setAdd (EmitQuery q) (pendingEmitSet s3)\<rparr>))
            = Ok b s'"
    using u unfolding n by (simp add: updateQueryStorage_Suc Let_def)
  then obtain v s3 where run: "?run = Ok v s3"
    and fin: "(if queryCompare D (queryId (Query (queryStorages s q)))
                     (currentValue (queryStorages s3 q)) v
                then Ok False s3
                else Ok True ((updQuery q (\<lambda>st. st\<lparr>currentValue := v\<rparr>) s3)
                       \<lparr>pendingEmitSet := setAdd (EmitQuery q) (pendingEmitSet s3)\<rparr>)) = Ok b s'"
    by (cases ?run) simp_all
  have r: "rel {q} {} ?s2 s3"
    using resultSat_OkD [OF evaluation_rel [OF i2] run] q by simp
  have id3: "upstreamSetId (queryStorages s3 q) = upstreamSetId (queryStorages ?s2 q)"
    using fin once by (auto split: if_splits)
  have q2: "q < uid ?s2" using q by simp
  note V = frame_value [OF rel_frame [OF r] q2 id3]
  have v3: "currentValue (queryStorages s3 q) = currentValue (queryStorages s q)"
    using V(1) by simp
  have e3: "EmitQuery q \<in> set (pendingEmitSet s3) \<Longrightarrow> EmitQuery q \<in> set (pendingEmitSet s)"
    using V(2) by simp
  show "\<not> b \<Longrightarrow> currentValue (queryStorages s' q) = currentValue (queryStorages s q)"
    using fin v3 by (auto split: if_splits)
  show "\<not> b \<Longrightarrow> EmitQuery q \<in> set (pendingEmitSet s') \<Longrightarrow> EmitQuery q \<in> set (pendingEmitSet s)"
    using fin e3 by (auto split: if_splits)
  show "b \<Longrightarrow> \<not> queryCompare D (queryId (Query (queryStorages s q)))
                   (currentValue (queryStorages s q)) (currentValue (queryStorages s' q))"
    using fin v3 by (auto split: if_splits)
  show "b \<Longrightarrow> EmitQuery q \<in> set (pendingEmitSet s')"
    using fin by (auto split: if_splits)
qed

text \<open>A storage is marked \<open>Updated\<close> only with its notification queued.\<close>

lemma updateQueryStorage_True_queued:
  assumes "updateQueryStorage n D q s = Ok True s'"
  shows "EmitQuery q \<in> set (pendingEmitSet s')"
proof -
  obtain m where n: "n = Suc m" using assms by (cases n) simp_all
  show ?thesis
    using assms unfolding n updateQueryStorage_Suc Let_def
    by (auto simp: andThen_def split: result.splits if_splits)
qed

lemma updateWipQueryStorage_Updated:
  assumes u: "updateWipQueryStorage n D q s = Ok () s'"
    and w: "status (queryStorages s q) = Wip"
    and x: "status (queryStorages s' q) = Updated"
  shows "EmitQuery q \<in> set (pendingEmitSet s')"
proof -
  obtain m where n: "n = Suc m" using u by (cases n) simp_all
  show ?thesis
    using u w x updateQueryStorage_True_queued [of m D q] unfolding n updateWipQueryStorage_Suc
    by (auto simp: andThen_def split: result.splits if_splits)
qed

text \<open>Upstream queries that have settled to \<open>Default\<close> cause no recomputation.\<close>

lemma updateWipUpstreams_settled:
  "\<forall>j. i \<le> j \<and> j < length (wipUpstreamSet (queryStorages s q)) \<longrightarrow>
       (\<exists>u. wipUpstreamSet (queryStorages s q) ! j = QueryRef u
            \<and> status (queryStorages s u) = Default) \<Longrightarrow>
   length (wipUpstreamSet (queryStorages s q)) - i < n \<Longrightarrow>
   updateWipUpstreams n D q i b s = Ok b s"
proof (induction n arbitrary: i)
  case 0
  then show ?case by simp
next
  case (Suc n)
  show ?case
  proof (cases "i < length (wipUpstreamSet (queryStorages s q))")
    case False
    then show ?thesis by (simp add: updateWipUpstreams_Suc)
  next
    case True
    then obtain u where u: "wipUpstreamSet (queryStorages s q) ! i = QueryRef u"
      "status (queryStorages s u) = Default"
      using Suc.prems(1) by auto
    have "updateWipUpstreams n D q (Suc i) b s = Ok b s"
      using Suc.prems True by (intro Suc.IH) auto
    then show ?thesis using True u by (simp add: updateWipUpstreams_Suc)
  qed
qed

lemma updateWipQueryStorage_settled_upstreams:
  assumes "status (queryStorages s q) = Wip"
    and "wipUpstreamSet (queryStorages s q) \<noteq> []"
    and "\<forall>r \<in> set (wipUpstreamSet (queryStorages s q)).
           \<exists>u. r = QueryRef u \<and> status (queryStorages s u) = Default"
    and "length (wipUpstreamSet (queryStorages s q)) < n"
  shows "updateWipQueryStorage (Suc n) D q s
         = Ok () (updQuery q (\<lambda>st. st\<lparr>status := Default\<rparr>)
                    (updQuery q (\<lambda>st. st\<lparr>wipUpstreamSet := []\<rparr>) s))"
proof -
  have "updateWipUpstreams n D q 0 False s = Ok False s"
    using assms(3,4) by (intro updateWipUpstreams_settled) auto
  then show ?thesis using assms(1,2) by (simp add: updateWipQueryStorage_Suc)
qed

text \<open>
  A stale storage that is re-evaluated, in the store \<open>t\<close> that the loop over its stale
  upstreams has left, to a value that the query's \<^verbatim>\<open>compare\<close> finds equal to the one it
  holds: it is left \<open>Default\<close> in the store that the evaluation has left, with no value
  assigned and nothing queued.
\<close>

lemma updateWipQueryStorage_equal:
  assumes w: "status (queryStorages s q) = Wip"
    and first: "(wipUpstreamSet (queryStorages s q) = [] \<and> t = s)
                \<or> (wipUpstreamSet (queryStorages s q) \<noteq> []
                    \<and> updateWipUpstreams (Suc m) D q 0 False s = Ok True t0
                    \<and> t = updQuery q (\<lambda>st. st\<lparr>wipUpstreamSet := []\<rparr>) t0)"
    and run: "runProg (contextGet m D (UpdateQueryContext q (Suc (upstreamSetId (queryStorages t q)))))
                (queryImpl D (queryId (Query (queryStorages t q))) (arg (queryStorages t q)))
                (beforeEvaluation q t) = Ok v t3"
    and eq: "queryCompare D (queryId (Query (queryStorages t q)))
               (currentValue (queryStorages t3 q)) v"
  shows "updateWipQueryStorage (Suc (Suc m)) D q s
         = Ok () (updQuery q (\<lambda>st. st\<lparr>status := Default\<rparr>) t3)"
proof -
  have u: "updateQueryStorage (Suc m) D q t = Ok False t3"
    using run eq unfolding beforeEvaluation_def by (simp add: updateQueryStorage_Suc Let_def)
  from first show ?thesis
  proof (elim disjE conjE)
    assume "wipUpstreamSet (queryStorages s q) = []" and "t = s"
    then show ?thesis using w u by (simp add: updateWipQueryStorage_Suc)
  next
    assume "wipUpstreamSet (queryStorages s q) \<noteq> []"
      and "updateWipUpstreams (Suc m) D q 0 False s = Ok True t0"
      and "t = updQuery q (\<lambda>st. st\<lparr>wipUpstreamSet := []\<rparr>) t0"
    then show ?thesis using w u by (simp add: updateWipQueryStorage_Suc)
  qed
qed

lemmas reader_defs = readerSubscribed_def readerBounced_def readerRead_def
  bounceOutput_def resultStore_def initialStore_def readerDecls_def CountState_def Doubled_def
  ReadCommand_def KeepCommand_def

text \<open>
  C4, as stated: a subscriber of a query storage is notified only when the query's
  \<^verbatim>\<open>compare\<close> reports inequality between the previous and the new value. It fails where a
  storage is recomputed twice within one \<^verbatim>\<open>send\<close>. With \<^verbatim>\<open>Doubled\<close> subscribed and holding 0,
  the list \<^verbatim>\<open>Count := 1\<close>, \<^verbatim>\<open>Read\<close>, \<^verbatim>\<open>Count := 0\<close> is sent: the read of the command recomputes
  \<^verbatim>\<open>Doubled\<close> to 2 and queues its notification, the commit recomputes it to 0, and the
  subscriber is then sent 0, the value it held.
\<close>

theorem recomputed_twice_notifies_with_held_value:
  "currentValue (queryStorages readerSubscribed 0) = JNumber 0
   \<and> refCount (queryStorages readerSubscribed 0) = 1
   \<and> pendingEmitSet readerSubscribed = []
   \<and> emitted readerSubscribed = []
   \<and> send 9 readerDecls bounceOutput readerSubscribed = Ok () readerBounced
   \<and> emitted readerBounced
       = [StateNext 1 (JNumber 0), CommandNext ReadCommand, QueryNext 0 (JNumber 0)]
   \<and> queryCompare readerDecls (queryId (Query (queryStorages readerSubscribed 0)))
        (JNumber 0) (JNumber 0)"
  by (simp add: reader_defs eval_defs cong: andThen_weak_cong)

text \<open>
  C4, amended: each assignment of a value is gated by \<^verbatim>\<open>compare\<close>, and a subscriber is sent
  the last value at the end of the commit.

  (1) Sending a state update whose value the state's \<^verbatim>\<open>compare\<close> finds equal to the current
  one, with nothing pending, returns with the store that resolving the state item left: no
  query storage is changed (none is marked or re-evaluated), nothing is queued and nothing
  is emitted.

  (2) A recomputation of the query storage \<open>q\<close> that returns (without \<open>q\<close> having been
  recomputed again within its own evaluation) returns \<open>True\<close> only with a value that the
  query's \<^verbatim>\<open>compare\<close> finds different from the previous one, which is then queued for
  notification; when it returns \<open>False\<close>, the value is unchanged and no notification of \<open>q\<close>
  has been added to the queue.

  (3) \<^verbatim>\<open>updateWipQueryStorage\<close> leaves a stale storage \<open>Updated\<close> only with its notification
  queued.

  (4) A stale storage whose stale upstreams are all queries that have settled to \<open>Default\<close>
  is not re-evaluated: it settles to \<open>Default\<close> itself, and nothing else changes.

  (5) The same for a command: when the \<^verbatim>\<open>impl\<close> of a command returns the update of a state
  to a value that the state's \<^verbatim>\<open>compare\<close> finds equal to the current one, the dispatch
  returns with the store that the reads of the command and the resolution of the state item
  have left, in which the update has changed no query storage and has queued nothing; and
  when those reads have left nothing pending but the notification of the command, \<^verbatim>\<open>send\<close>
  emits that notification and nothing else.

  (6) A stale storage that is re-evaluated to a value that the query's \<^verbatim>\<open>compare\<close> finds
  equal to the one it holds is left \<open>Default\<close>, in the store that the evaluation has left:
  no value is assigned and nothing is queued.

  (7) When a \<^verbatim>\<open>send\<close> that returns has sent the value \<open>v\<close> to the subscribers of a query
  storage that existed before and was not queued for notification, then the storage has
  been recomputed during the \<^verbatim>\<open>send\<close> and \<open>v\<close> is the value it holds at the end; and when it
  has been recomputed once, \<open>v\<close> is a value that the query's \<^verbatim>\<open>compare\<close> finds different from
  the one the storage held before the \<^verbatim>\<open>send\<close>.
\<close>

theorem compare_gates_propagation:
  "(getStateStorage D stateItem s = (a, s1)
      \<and> stateCompare D (stateId (siState stateItem)) (currentState (stateStorages s1 a)) v
      \<and> pendingLeafSet s = [] \<and> pendingClearSet s = [] \<and> pendingEmitSet s = []
    \<longrightarrow> send (Suc n) D (StateItemUpdatePayload stateItem v) s = Ok () s1
          \<and> queryStorages s1 = queryStorages s \<and> emitted s1 = emitted s
          \<and> pendingEmitSet s1 = [] \<and> pendingLeafSet s1 = [])
   \<and> (storeInv t \<and> q < uid t \<and> updateQueryStorage m D q t = Ok b t'
      \<and> upstreamSetId (queryStorages t' q) = Suc (upstreamSetId (queryStorages t q))
    \<longrightarrow> (if b
          then \<not> queryCompare D (queryId (Query (queryStorages t q)))
                   (currentValue (queryStorages t q)) (currentValue (queryStorages t' q))
               \<and> EmitQuery q \<in> set (pendingEmitSet t')
          else currentValue (queryStorages t' q) = currentValue (queryStorages t q)
               \<and> (EmitQuery q \<in> set (pendingEmitSet t') \<longrightarrow> EmitQuery q \<in> set (pendingEmitSet t))))
   \<and> (updateWipQueryStorage j D p u = Ok () u' \<and> status (queryStorages u p) = Wip
      \<and> status (queryStorages u' p) = Updated
    \<longrightarrow> EmitQuery p \<in> set (pendingEmitSet u'))
   \<and> (status (queryStorages w d) = Wip \<and> wipUpstreamSet (queryStorages w d) \<noteq> []
      \<and> (\<forall>r \<in> set (wipUpstreamSet (queryStorages w d)).
            \<exists>x. r = QueryRef x \<and> status (queryStorages w x) = Default)
      \<and> length (wipUpstreamSet (queryStorages w d)) < k
    \<longrightarrow> updateWipQueryStorage (Suc k) D d w
          = Ok () (updQuery d (\<lambda>st. st\<lparr>status := Default\<rparr>)
                     (updQuery d (\<lambda>st. st\<lparr>wipUpstreamSet := []\<rparr>) w)))
   \<and> (runProg (injectedGet (Suc n') D) (commandImpl D (commandId (caCommand ca)) (caArg ca))
         (c0\<lparr>pendingEmitSet := setAdd (EmitCommand ca) (pendingEmitSet c0)\<rparr>)
        = Ok (StateItemUpdatePayload item v') c1
      \<and> getStateStorage D item c1 = (a', c2)
      \<and> stateCompare D (stateId (siState item)) (currentState (stateStorages c2 a')) v'
    \<longrightarrow> handleCommandOutput (Suc (Suc n')) D (CommandActionOutput ca) c0 = Ok () c2
          \<and> queryStorages c2 = queryStorages c1 \<and> pendingEmitSet c2 = pendingEmitSet c1
          \<and> pendingLeafSet c2 = pendingLeafSet c1 \<and> emitted c2 = emitted c1
          \<and> (pendingLeafSet c1 = [] \<and> pendingClearSet c1 = []
                \<and> pendingEmitSet c1 = [EmitCommand ca]
              \<longrightarrow> send (Suc (Suc n')) D (CommandActionOutput ca) c0
                    = Ok () (c2\<lparr>pendingEmitSet := [],
                                emitted := emitted c2 @ [CommandNext ca]\<rparr>)))
   \<and> (status (queryStorages x0 y) = Wip
      \<and> ((wipUpstreamSet (queryStorages x0 y) = [] \<and> x2 = x0)
          \<or> (wipUpstreamSet (queryStorages x0 y) \<noteq> []
              \<and> updateWipUpstreams (Suc i) D y 0 False x0 = Ok True x1
              \<and> x2 = updQuery y (\<lambda>st. st\<lparr>wipUpstreamSet := []\<rparr>) x1))
      \<and> runProg (contextGet i D (UpdateQueryContext y (Suc (upstreamSetId (queryStorages x2 y)))))
           (queryImpl D (queryId (Query (queryStorages x2 y))) (arg (queryStorages x2 y)))
           (beforeEvaluation y x2) = Ok z x3
      \<and> queryCompare D (queryId (Query (queryStorages x2 y)))
           (currentValue (queryStorages x3 y)) z
    \<longrightarrow> updateWipQueryStorage (Suc (Suc i)) D y x0
          = Ok () (updQuery y (\<lambda>st. st\<lparr>status := Default\<rparr>) x3))
   \<and> (send f D out g = Ok () g' \<and> h < uid g \<and> EmitQuery h \<notin> set (pendingEmitSet g)
      \<and> emitted g' = emitted g @ new \<and> QueryNext h z' \<in> set new
    \<longrightarrow> upstreamSetId (queryStorages g h) < upstreamSetId (queryStorages g' h)
          \<and> z' = currentValue (queryStorages g' h)
          \<and> (upstreamSetId (queryStorages g' h) = Suc (upstreamSetId (queryStorages g h))
              \<longrightarrow> \<not> queryCompare D (queryId (Query (queryStorages g h)))
                       (currentValue (queryStorages g h)) z'))"
proof (intro conjI impI; (elim conjE)?)
  assume g: "getStateStorage D stateItem s = (a, s1)"
    and c: "stateCompare D (stateId (siState stateItem)) (currentState (stateStorages s1 a)) v"
    and p: "pendingLeafSet s = []" "pendingClearSet s = []" "pendingEmitSet s = []"
  note U = getStateStorage_untouched [OF g]
  show "send (Suc n) D (StateItemUpdatePayload stateItem v) s = Ok () s1"
    by (rule send_equal_state [OF g c p])
  show "queryStorages s1 = queryStorages s" by (rule U(1))
  show "emitted s1 = emitted s" by (rule U(5))
  show "pendingEmitSet s1 = []" using U(2) p by simp
  show "pendingLeafSet s1 = []" using U(3) p by simp
next
  assume i: "storeInv t" and q: "q < uid t" and u: "updateQueryStorage m D q t = Ok b t'"
    and once: "upstreamSetId (queryStorages t' q) = Suc (upstreamSetId (queryStorages t q))"
  note G = updateQueryStorage_gate [OF i q u once]
  show "if b
        then \<not> queryCompare D (queryId (Query (queryStorages t q)))
                 (currentValue (queryStorages t q)) (currentValue (queryStorages t' q))
             \<and> EmitQuery q \<in> set (pendingEmitSet t')
        else currentValue (queryStorages t' q) = currentValue (queryStorages t q)
             \<and> (EmitQuery q \<in> set (pendingEmitSet t') \<longrightarrow> EmitQuery q \<in> set (pendingEmitSet t))"
    using G by (cases b) simp_all
next
  assume "updateWipQueryStorage j D p u = Ok () u'" and "status (queryStorages u p) = Wip"
    and "status (queryStorages u' p) = Updated"
  then show "EmitQuery p \<in> set (pendingEmitSet u')" by (rule updateWipQueryStorage_Updated)
next
  assume "status (queryStorages w d) = Wip" and "wipUpstreamSet (queryStorages w d) \<noteq> []"
    and "\<forall>r \<in> set (wipUpstreamSet (queryStorages w d)).
           \<exists>x. r = QueryRef x \<and> status (queryStorages w x) = Default"
    and "length (wipUpstreamSet (queryStorages w d)) < k"
  then show "updateWipQueryStorage (Suc k) D d w
          = Ok () (updQuery d (\<lambda>st. st\<lparr>status := Default\<rparr>)
                     (updQuery d (\<lambda>st. st\<lparr>wipUpstreamSet := []\<rparr>) w))"
    by (rule updateWipQueryStorage_settled_upstreams)
next
  assume run: "runProg (injectedGet (Suc n') D)
                 (commandImpl D (commandId (caCommand ca)) (caArg ca))
                 (c0\<lparr>pendingEmitSet := setAdd (EmitCommand ca) (pendingEmitSet c0)\<rparr>)
               = Ok (StateItemUpdatePayload item v') c1"
    and g: "getStateStorage D item c1 = (a', c2)"
    and c: "stateCompare D (stateId (siState item)) (currentState (stateStorages c2 a')) v'"
  note U = getStateStorage_untouched [OF g]
  show "handleCommandOutput (Suc (Suc n')) D (CommandActionOutput ca) c0 = Ok () c2"
    using run g c by (rule command_equal_state)
  show "queryStorages c2 = queryStorages c1" by (rule U(1))
  show "pendingEmitSet c2 = pendingEmitSet c1" by (rule U(2))
  show "pendingLeafSet c2 = pendingLeafSet c1" by (rule U(3))
  show "emitted c2 = emitted c1" by (rule U(5))
  assume "pendingLeafSet c1 = []" and "pendingClearSet c1 = []"
    and "pendingEmitSet c1 = [EmitCommand ca]"
  with run g c show "send (Suc (Suc n')) D (CommandActionOutput ca) c0
          = Ok () (c2\<lparr>pendingEmitSet := [], emitted := emitted c2 @ [CommandNext ca]\<rparr>)"
    by (rule send_command_equal_state)
next
  assume "status (queryStorages x0 y) = Wip"
    and "(wipUpstreamSet (queryStorages x0 y) = [] \<and> x2 = x0)
          \<or> (wipUpstreamSet (queryStorages x0 y) \<noteq> []
              \<and> updateWipUpstreams (Suc i) D y 0 False x0 = Ok True x1
              \<and> x2 = updQuery y (\<lambda>st. st\<lparr>wipUpstreamSet := []\<rparr>) x1)"
    and "runProg (contextGet i D (UpdateQueryContext y (Suc (upstreamSetId (queryStorages x2 y)))))
           (queryImpl D (queryId (Query (queryStorages x2 y))) (arg (queryStorages x2 y)))
           (beforeEvaluation y x2) = Ok z x3"
    and "queryCompare D (queryId (Query (queryStorages x2 y)))
           (currentValue (queryStorages x3 y)) z"
  then show "updateWipQueryStorage (Suc (Suc i)) D y x0
          = Ok () (updQuery y (\<lambda>st. st\<lparr>status := Default\<rparr>) x3)"
    by (rule updateWipQueryStorage_equal)
next
  assume s: "send f D out g = Ok () g'" and h: "h < uid g"
    and nq: "EmitQuery h \<notin> set (pendingEmitSet g)"
    and e: "emitted g' = emitted g @ new" and x: "QueryNext h z' \<in> set new"
  note N = send_notifies [OF s h nq e x]
  show "upstreamSetId (queryStorages g h) < upstreamSetId (queryStorages g' h)" by (rule N(1))
  show "z' = currentValue (queryStorages g' h)" by (rule N(2))
  assume "upstreamSetId (queryStorages g' h) = Suc (upstreamSetId (queryStorages g h))"
  then show "\<not> queryCompare D (queryId (Query (queryStorages g h)))
                  (currentValue (queryStorages g h)) z'"
    by (rule N(3))
qed

lemma labelStore_facts:
  "getStateStorage labelDecls CountState labelStore = (2, labelStore)
   \<and> currentState (stateStorages labelStore 2) = JNumber 1
   \<and> pendingLeafSet labelStore = [] \<and> pendingClearSet labelStore = []
   \<and> pendingEmitSet labelStore = []"
  by (simp add: label_defs eval_defs cong: andThen_weak_cong)

lemma labelStale_facts:
  "uid labelStale = 3
   \<and> upstreamSetId (queryStorages labelStale 1) = 1
   \<and> currentValue (queryStorages labelStale 1) = JBool True
   \<and> EmitQuery 1 \<notin> set (pendingEmitSet labelStale)
   \<and> (case updateQueryStorage 4 labelDecls 1 labelStale of
         Ok b t \<Rightarrow> \<not> b \<and> upstreamSetId (queryStorages t 1) = 2
       | _ \<Rightarrow> False)"
  by (simp add: label_defs eval_defs cong: andThen_weak_cong)

lemma labelFirst_facts:
  "status (queryStorages labelFirst 1) = Wip
   \<and> (case updateWipQueryStorage 5 labelDecls 1 labelFirst of
         Ok u t \<Rightarrow> status (queryStorages t 1) = Updated
       | _ \<Rightarrow> False)"
  by (simp add: label_defs eval_defs cong: andThen_weak_cong)

lemma labelSettled_facts:
  "status (queryStorages labelSettled 0) = Wip
   \<and> wipUpstreamSet (queryStorages labelSettled 0) = [QueryRef 1]
   \<and> status (queryStorages labelSettled 1) = Default"
  by (simp add: label_defs eval_defs cong: andThen_weak_cong)

lemma readerRead_facts:
  "runProg (injectedGet 1 readerDecls)
     (commandImpl readerDecls (commandId (caCommand KeepCommand)) (caArg KeepCommand))
     (readerSubscribed\<lparr>pendingEmitSet := setAdd (EmitCommand KeepCommand)
                                           (pendingEmitSet readerSubscribed)\<rparr>)
     = Ok (StateItemUpdatePayload CountState (JNumber 0)) readerRead
   \<and> getStateStorage readerDecls CountState readerRead = (1, readerRead)
   \<and> currentState (stateStorages readerRead 1) = JNumber 0
   \<and> pendingLeafSet readerRead = [] \<and> pendingClearSet readerRead = []
   \<and> pendingEmitSet readerRead = [EmitCommand KeepCommand]
   \<and> emitted readerRead = []"
  by (simp add: reader_defs eval_defs cong: andThen_weak_cong)

lemma labelStale_recomputation:
  "status (queryStorages labelStale 1) = Wip
   \<and> wipUpstreamSet (queryStorages labelStale 1) \<noteq> []
   \<and> updateWipUpstreams 4 labelDecls 1 0 False labelStale = Ok True labelStale
   \<and> upstreamSetId (queryStorages labelStale 1) = 1
   \<and> (case runProg (contextGet 3 labelDecls (UpdateQueryContext 1 2))
             (queryImpl labelDecls
                (queryId (Query (queryStorages
                   (updQuery 1 (\<lambda>st. st\<lparr>wipUpstreamSet := []\<rparr>) labelStale) 1)))
                (arg (queryStorages
                   (updQuery 1 (\<lambda>st. st\<lparr>wipUpstreamSet := []\<rparr>) labelStale) 1)))
             (beforeEvaluation 1 (updQuery 1 (\<lambda>st. st\<lparr>wipUpstreamSet := []\<rparr>) labelStale)) of
         Ok v t \<Rightarrow> v = JBool True \<and> currentValue (queryStorages t 1) = JBool True
       | _ \<Rightarrow> False)"
  by (simp add: label_defs beforeEvaluation_def eval_defs cong: andThen_weak_cong)

lemma labelSent_facts:
  "uid labelSubscribed = 3
   \<and> pendingEmitSet labelSubscribed = []
   \<and> emitted labelSubscribed = []
   \<and> upstreamSetId (queryStorages labelSubscribed 0) = 0
   \<and> currentValue (queryStorages labelSubscribed 0) = JArray [JBool False]
   \<and> send 8 labelDecls (StateItemUpdatePayload CountState (JNumber 1)) labelSubscribed
       = Ok () labelStore
   \<and> emitted labelStore
       = [StateNext 2 (JNumber 1), QueryNext 1 (JBool True), QueryNext 0 (JArray [JBool True])]
   \<and> upstreamSetId (queryStorages labelStore 0) = 1"
  by (simp add: label_defs eval_defs cong: andThen_weak_cong)

text \<open>
  C4, amended, in the chain \<^verbatim>\<open>Count\<close>, \<^verbatim>\<open>Positive\<close> (storage 1), \<^verbatim>\<open>Label\<close> (storage 0) and at
  the counter with its commands. (1) With \<^verbatim>\<open>Count\<close> at 1 and everything committed, sending
  \<^verbatim>\<open>Count := 1\<close> changes nothing. (2) With \<^verbatim>\<open>Count\<close> gone from 1 to 2, \<^verbatim>\<open>Positive\<close> is
  recomputed to the same value: the recomputation returns \<open>False\<close>, the value stays and no
  notification is queued. (3) With \<^verbatim>\<open>Count\<close> gone from 0 to 1, \<^verbatim>\<open>Positive\<close> is left \<open>Updated\<close>
  with its notification queued. (4) Once \<^verbatim>\<open>Positive\<close> has settled to \<open>Default\<close>, \<^verbatim>\<open>Label\<close>
  settles to \<open>Default\<close> without being re-evaluated. (5) The command \<^verbatim>\<open>Keep\<close>, which writes
  \<^verbatim>\<open>Count\<close> back to the value it has, notifies the subscribers of the command and nobody
  else. (6) With \<^verbatim>\<open>Count\<close> gone from 1 to 2, the stale \<^verbatim>\<open>Positive\<close> is re-evaluated to the value
  it holds and settles to \<open>Default\<close>. (7) Sending \<^verbatim>\<open>Count := 1\<close> with \<^verbatim>\<open>Label\<close> subscribed sends
  its subscribers a value that differs from the one \<^verbatim>\<open>Label\<close> held.
\<close>

theorem compare_gates_propagation_witness:
  "send 1 labelDecls (StateItemUpdatePayload CountState (JNumber 1)) labelStore
     = Ok () labelStore
   \<and> (\<exists>t'. updateQueryStorage 4 labelDecls 1 labelStale = Ok False t'
         \<and> currentValue (queryStorages t' 1) = JBool True
         \<and> EmitQuery 1 \<notin> set (pendingEmitSet t'))
   \<and> (\<exists>u'. updateWipQueryStorage 5 labelDecls 1 labelFirst = Ok () u'
         \<and> status (queryStorages u' 1) = Updated
         \<and> EmitQuery 1 \<in> set (pendingEmitSet u'))
   \<and> updateWipQueryStorage 3 labelDecls 0 labelSettled
       = Ok () (updQuery 0 (\<lambda>st. st\<lparr>status := Default\<rparr>)
                  (updQuery 0 (\<lambda>st. st\<lparr>wipUpstreamSet := []\<rparr>) labelSettled))
   \<and> send 2 readerDecls (CommandActionOutput KeepCommand) readerSubscribed
       = Ok () (readerRead\<lparr>pendingEmitSet := [], emitted := [CommandNext KeepCommand]\<rparr>)
   \<and> queryStorages readerRead = queryStorages readerSubscribed
   \<and> (\<exists>x3. updateWipQueryStorage 5 labelDecls 1 labelStale
               = Ok () (updQuery 1 (\<lambda>st. st\<lparr>status := Default\<rparr>) x3)
            \<and> currentValue (queryStorages x3 1) = JBool True)
   \<and> QueryNext 0 (JArray [JBool True]) \<in> set (emitted labelStore)
   \<and> \<not> queryCompare labelDecls (queryId (Query (queryStorages labelSubscribed 0)))
          (currentValue (queryStorages labelSubscribed 0)) (JArray [JBool True])"
proof -
  from labelStale_facts
  have uid: "uid labelStale = 3" and id1: "upstreamSetId (queryStorages labelStale 1) = 1"
    and v1: "currentValue (queryStorages labelStale 1) = JBool True"
    and e1: "EmitQuery 1 \<notin> set (pendingEmitSet labelStale)"
    and c: "(case updateQueryStorage 4 labelDecls 1 labelStale of
               Ok b t \<Rightarrow> \<not> b \<and> upstreamSetId (queryStorages t 1) = 2 | _ \<Rightarrow> False)"
    by blast+
  from case_OkD [OF c] obtain b t' where r: "updateQueryStorage 4 labelDecls 1 labelStale = Ok b t'"
    and b: "\<not> b" and id2: "upstreamSetId (queryStorages t' 1) = 2"
    by blast
  from labelFirst_facts
  have w: "status (queryStorages labelFirst 1) = Wip"
    and c3: "(case updateWipQueryStorage 5 labelDecls 1 labelFirst of
               Ok u t \<Rightarrow> status (queryStorages t 1) = Updated | _ \<Rightarrow> False)"
    by blast+
  from case_OkD [OF c3] obtain u' where r3: "updateWipQueryStorage 5 labelDecls 1 labelFirst = Ok () u'"
    and x3: "status (queryStorages u' 1) = Updated"
    by auto
  let ?x2 = "updQuery 1 (\<lambda>st. st\<lparr>wipUpstreamSet := []\<rparr>) labelStale"
  from labelStale_recomputation
  have w6: "status (queryStorages labelStale 1) = Wip"
    and ne6: "wipUpstreamSet (queryStorages labelStale 1) \<noteq> []"
    and l6: "updateWipUpstreams 4 labelDecls 1 0 False labelStale = Ok True labelStale"
    and c6: "(case runProg (contextGet 3 labelDecls (UpdateQueryContext 1 2))
             (queryImpl labelDecls (queryId (Query (queryStorages ?x2 1)))
                (arg (queryStorages ?x2 1)))
             (beforeEvaluation 1 ?x2) of
         Ok v t \<Rightarrow> v = JBool True \<and> currentValue (queryStorages t 1) = JBool True
       | _ \<Rightarrow> False)"
    by blast+
  from case_OkD [OF c6] obtain e3 where
    run6: "runProg (contextGet 3 labelDecls (UpdateQueryContext 1 2))
             (queryImpl labelDecls (queryId (Query (queryStorages ?x2 1)))
                (arg (queryStorages ?x2 1)))
             (beforeEvaluation 1 ?x2) = Ok (JBool True) e3"
    and v6: "currentValue (queryStorages e3 1) = JBool True"
    by auto
  have id6: "Suc (upstreamSetId (queryStorages ?x2 1)) = 2" using id1 by simp
  from labelSent_facts
  have uid7: "uid labelSubscribed = 3" and p7: "pendingEmitSet labelSubscribed = []"
    and e7: "emitted labelSubscribed = []"
    and id7: "upstreamSetId (queryStorages labelSubscribed 0) = 0"
    and s7: "send 8 labelDecls (StateItemUpdatePayload CountState (JNumber 1)) labelSubscribed
               = Ok () labelStore"
    and n7: "emitted labelStore
       = [StateNext 2 (JNumber 1), QueryNext 1 (JBool True), QueryNext 0 (JArray [JBool True])]"
    and id7': "upstreamSetId (queryStorages labelStore 0) = 1"
    by blast+
  from readerRead_facts
  have run5: "runProg (injectedGet 1 readerDecls)
     (commandImpl readerDecls (commandId (caCommand KeepCommand)) (caArg KeepCommand))
     (readerSubscribed\<lparr>pendingEmitSet := setAdd (EmitCommand KeepCommand)
                                           (pendingEmitSet readerSubscribed)\<rparr>)
     = Ok (StateItemUpdatePayload CountState (JNumber 0)) readerRead"
    and g5: "getStateStorage readerDecls CountState readerRead = (1, readerRead)"
    and v5: "currentState (stateStorages readerRead 1) = JNumber 0"
    and p5: "pendingLeafSet readerRead = []" "pendingClearSet readerRead = []"
      "pendingEmitSet readerRead = [EmitCommand KeepCommand]"
    and e5: "emitted readerRead = []"
    by blast+
  note T = compare_gates_propagation
    [where D = labelDecls and stateItem = CountState and s = labelStore and a = 2
       and ?s1.0 = labelStore and v = "JNumber 1" and n = 0
       and t = labelStale and q = 1 and m = 4 and b = b and t' = t'
       and j = 5 and p = 1 and u = labelFirst and u' = u'
       and w = labelSettled and d = 0 and k = 2
       and ?x0.0 = labelStale and y = 1 and ?x1.0 = labelStale and ?x2.0 = ?x2 and i = 3
       and z = "JBool True" and ?x3.0 = e3
       and f = 8 and out = "StateItemUpdatePayload CountState (JNumber 1)"
       and g = labelSubscribed and g' = labelStore and h = 0
       and new = "emitted labelStore" and z' = "JArray [JBool True]"]
  note R = compare_gates_propagation
    [where D = readerDecls and n' = 0 and ca = KeepCommand and ?c0.0 = readerSubscribed
       and ?c1.0 = readerRead and item = CountState and v' = "JNumber 0" and a' = 1
       and ?c2.0 = readerRead]
  note T1 = T [THEN conjunct1]
  note T2 = T [THEN conjunct2, THEN conjunct1]
  note T3 = T [THEN conjunct2, THEN conjunct2, THEN conjunct1]
  note T4 = T [THEN conjunct2, THEN conjunct2, THEN conjunct2, THEN conjunct1]
  note T6 = T [THEN conjunct2, THEN conjunct2, THEN conjunct2, THEN conjunct2, THEN conjunct2, THEN conjunct1]
  note T7 = T [THEN conjunct2, THEN conjunct2, THEN conjunct2, THEN conjunct2, THEN conjunct2, THEN conjunct2]
  note R5 = R [THEN conjunct2, THEN conjunct2, THEN conjunct2, THEN conjunct2, THEN conjunct1]
  have h1: "getStateStorage labelDecls CountState labelStore = (2, labelStore)
      \<and> stateCompare labelDecls (stateId (siState CountState))
           (currentState (stateStorages labelStore 2)) (JNumber 1)
      \<and> pendingLeafSet labelStore = [] \<and> pendingClearSet labelStore = []
      \<and> pendingEmitSet labelStore = []"
    using labelStore_facts by (simp add: labelDecls_def)
  have h2: "storeInv labelStale \<and> 1 < uid labelStale
      \<and> updateQueryStorage 4 labelDecls 1 labelStale = Ok b t'
      \<and> upstreamSetId (queryStorages t' 1) = Suc (upstreamSetId (queryStorages labelStale 1))"
    using storeInv_labelStale uid r id1 id2 by simp
  have h3: "updateWipQueryStorage 5 labelDecls 1 labelFirst = Ok () u'
      \<and> status (queryStorages labelFirst 1) = Wip \<and> status (queryStorages u' 1) = Updated"
    using r3 w x3 by simp
  have h4: "status (queryStorages labelSettled 0) = Wip
      \<and> wipUpstreamSet (queryStorages labelSettled 0) \<noteq> []
      \<and> (\<forall>r \<in> set (wipUpstreamSet (queryStorages labelSettled 0)).
            \<exists>p. r = QueryRef p \<and> status (queryStorages labelSettled p) = Default)
      \<and> length (wipUpstreamSet (queryStorages labelSettled 0)) < 2"
    using labelSettled_facts by simp
  have h5: "runProg (injectedGet (Suc 0) readerDecls)
         (commandImpl readerDecls (commandId (caCommand KeepCommand)) (caArg KeepCommand))
         (readerSubscribed\<lparr>pendingEmitSet := setAdd (EmitCommand KeepCommand)
                                               (pendingEmitSet readerSubscribed)\<rparr>)
        = Ok (StateItemUpdatePayload CountState (JNumber 0)) readerRead
      \<and> getStateStorage readerDecls CountState readerRead = (1, readerRead)
      \<and> stateCompare readerDecls (stateId (siState CountState))
           (currentState (stateStorages readerRead 1)) (JNumber 0)"
    using run5 g5 v5 by (simp add: readerDecls_def)
  have h6: "status (queryStorages labelStale 1) = Wip
      \<and> ((wipUpstreamSet (queryStorages labelStale 1) = [] \<and> ?x2 = labelStale)
          \<or> (wipUpstreamSet (queryStorages labelStale 1) \<noteq> []
              \<and> updateWipUpstreams (Suc 3) labelDecls 1 0 False labelStale = Ok True labelStale
              \<and> ?x2 = updQuery 1 (\<lambda>st. st\<lparr>wipUpstreamSet := []\<rparr>) labelStale))
      \<and> runProg (contextGet 3 labelDecls
                    (UpdateQueryContext 1 (Suc (upstreamSetId (queryStorages ?x2 1)))))
           (queryImpl labelDecls (queryId (Query (queryStorages ?x2 1)))
              (arg (queryStorages ?x2 1)))
           (beforeEvaluation 1 ?x2) = Ok (JBool True) e3
      \<and> queryCompare labelDecls (queryId (Query (queryStorages ?x2 1)))
           (currentValue (queryStorages e3 1)) (JBool True)"
    using w6 ne6 l6 run6 v6 unfolding id6 by (simp add: labelDecls_def eval_nat_numeral)
  have h7: "send 8 labelDecls (StateItemUpdatePayload CountState (JNumber 1)) labelSubscribed
        = Ok () labelStore
      \<and> 0 < uid labelSubscribed \<and> EmitQuery 0 \<notin> set (pendingEmitSet labelSubscribed)
      \<and> emitted labelStore = emitted labelSubscribed @ emitted labelStore
      \<and> QueryNext 0 (JArray [JBool True]) \<in> set (emitted labelStore)"
    using s7 uid7 p7 e7 n7 by simp
  from T1 h1 have c1: "send 1 labelDecls (StateItemUpdatePayload CountState (JNumber 1)) labelStore
     = Ok () labelStore"
    by simp
  from T2 h2 b have c2: "currentValue (queryStorages t' 1) = currentValue (queryStorages labelStale 1)
      \<and> (EmitQuery 1 \<in> set (pendingEmitSet t') \<longrightarrow> EmitQuery 1 \<in> set (pendingEmitSet labelStale))"
    by simp
  from T3 h3 have c3': "EmitQuery 1 \<in> set (pendingEmitSet u')" by blast
  from T4 h4 have c4: "updateWipQueryStorage 3 labelDecls 0 labelSettled
       = Ok () (updQuery 0 (\<lambda>st. st\<lparr>status := Default\<rparr>)
                  (updQuery 0 (\<lambda>st. st\<lparr>wipUpstreamSet := []\<rparr>) labelSettled))"
    by (simp add: eval_nat_numeral)
  from R5 h5 p5 have c5: "send (Suc (Suc 0)) readerDecls (CommandActionOutput KeepCommand)
         readerSubscribed
       = Ok () (readerRead\<lparr>pendingEmitSet := [],
                  emitted := emitted readerRead @ [CommandNext KeepCommand]\<rparr>)"
    by blast
  then have c5': "send 2 readerDecls (CommandActionOutput KeepCommand) readerSubscribed
       = Ok () (readerRead\<lparr>pendingEmitSet := [], emitted := [CommandNext KeepCommand]\<rparr>)"
    using e5 by (simp add: eval_nat_numeral)
  have c5'': "queryStorages readerRead = queryStorages readerSubscribed"
    by (simp add: readerRead_def)
  from T6 h6 have c6': "updateWipQueryStorage (Suc (Suc 3)) labelDecls 1 labelStale
       = Ok () (updQuery 1 (\<lambda>st. st\<lparr>status := Default\<rparr>) e3)"
    by blast
  then have c6'': "updateWipQueryStorage 5 labelDecls 1 labelStale
       = Ok () (updQuery 1 (\<lambda>st. st\<lparr>status := Default\<rparr>) e3)"
    by (simp add: eval_nat_numeral)
  from T7 h7 have "upstreamSetId (queryStorages labelStore 0)
                     = Suc (upstreamSetId (queryStorages labelSubscribed 0))
      \<longrightarrow> \<not> queryCompare labelDecls (queryId (Query (queryStorages labelSubscribed 0)))
               (currentValue (queryStorages labelSubscribed 0)) (JArray [JBool True])"
    by blast
  then have c7: "\<not> queryCompare labelDecls
          (queryId (Query (queryStorages labelSubscribed 0)))
          (currentValue (queryStorages labelSubscribed 0)) (JArray [JBool True])"
    using id7 id7' by simp
  from c2 v1 e1 r b have "\<exists>t'. updateQueryStorage 4 labelDecls 1 labelStale = Ok False t'
         \<and> currentValue (queryStorages t' 1) = JBool True
         \<and> EmitQuery 1 \<notin> set (pendingEmitSet t')"
    by auto
  moreover from r3 x3 c3' have "\<exists>u'. updateWipQueryStorage 5 labelDecls 1 labelFirst = Ok () u'
         \<and> status (queryStorages u' 1) = Updated
         \<and> EmitQuery 1 \<in> set (pendingEmitSet u')"
    by blast
  moreover from c6'' v6 have "\<exists>x3. updateWipQueryStorage 5 labelDecls 1 labelStale
               = Ok () (updQuery 1 (\<lambda>st. st\<lparr>status := Default\<rparr>) x3)
            \<and> currentValue (queryStorages x3 1) = JBool True"
    by blast
  moreover have "QueryNext 0 (JArray [JBool True]) \<in> set (emitted labelStore)"
    using n7 by simp
  ultimately show ?thesis using c1 c4 c5' c5'' c7 by blast
qed

section \<open>C6: the two directions of an edge\<close>




section \<open>C5: a recomputation that throws\<close>








section \<open>C3: the edges of a recomputed query\<close>

lemma beforeEvaluation_fields [simp]:
  "upstreamSet (queryStorages (beforeEvaluation q s) q) = []"
  "upstreamSetId (queryStorages (beforeEvaluation q s) q) = Suc (upstreamSetId (queryStorages s q))"
  "uid (beforeEvaluation q s) = uid s"
  by (simp_all add: beforeEvaluation_def)

lemma beforeEvaluation_detached:
  assumes "storeInv s"
  shows "q \<notin> set (downstreamOf (beforeEvaluation q s) r)"
  using storeInv_D(11) [OF assms, of q r]
  by (auto simp: beforeEvaluation_def set_downstreamOf_fold_detach)

lemma storeInv_beforeEvaluation: "storeInv s \<Longrightarrow> storeInv (beforeEvaluation q s)"
  unfolding beforeEvaluation_def by (rule storeInv_beginUpdate)

lemma updateQueryStorage_beforeEvaluation:
  "updateQueryStorage (Suc n) D q s =
     andThen (runProg (contextGet n D (UpdateQueryContext q (Suc (upstreamSetId (queryStorages s q)))))
                (queryImpl D (queryId (Query (queryStorages s q))) (arg (queryStorages s q)))
                (beforeEvaluation q s))
       (\<lambda>newValue s3.
          if queryCompare D (queryId (Query (queryStorages s q)))
               (currentValue (queryStorages s3 q)) newValue
          then Ok False s3
          else Ok True ((updQuery q (\<lambda>st. st\<lparr>currentValue := newValue\<rparr>) s3)
                 \<lparr>pendingEmitSet := setAdd (EmitQuery q) (pendingEmitSet s3)\<rparr>))"
  by (simp add: updateQueryStorage_Suc beforeEvaluation_def Let_def)

text \<open>One tracked read: the storage it resolves is added to the upstream set, on both sides.\<close>

lemma untracked_keeps:
  assumes r: "rel {} {} s s'" and i: "storeInv s" and q: "q < uid s"
    and e: "upstreamSetId (queryStorages s' q) = upstreamSetId (queryStorages s q)"
  shows "upstreamSet (queryStorages s' q) = upstreamSet (queryStorages s q)"
    and "heldByUpstreams q s \<Longrightarrow> heldByUpstreams q s'"
proof -
  note f = rel_frame [OF r]
  have n: "q \<notin> {}" by simp
  show u: "upstreamSet (queryStorages s' q) = upstreamSet (queryStorages s q)"
    by (rule frame_edges(1) [OF f q n e])
  show "heldByUpstreams q s'" if h: "heldByUpstreams q s"
    unfolding heldByUpstreams_def u
  proof
    fix x assume x: "x \<in> set (upstreamSet (queryStorages s q))"
    then have "q \<in> set (downstreamOf s x)" using h by (simp add: heldByUpstreams_def)
    then show "q \<in> set (downstreamOf s' x)"
      by (rule frame_edges(2) [OF f q n e storeInv_D(7) [OF i x]])
  qed
qed

lemma addEdge_heldByUpstreams:
  "heldByUpstreams q s \<Longrightarrow> heldByUpstreams q (addEdge q r s)"
  by (auto simp: heldByUpstreams_def)

lemma trackedRead_adds:
  assumes t: "rel {} {} s t" and i: "storeInv s" and q: "q < uid s" and r: "refAddr r < uid t"
    and sid: "upstreamSetId (queryStorages s q) = sid"
  shows "resultSat (readAdds q sid s [r]) (\<lambda>_ _. True) (injectedGet n D input (addEdge q r t))"
proof -
  have qt: "q < uid t" using rel_less [OF t q] .
  have it: "storeInv t" using t by (rule rel_storeInv)
  have ie: "storeInv (addEdge q r t)" using it qt r by (rule storeInv_addEdge)
  have qe: "q < uid (addEdge q r t)" using qt by simp
  have le: "upstreamSetId (queryStorages s q) \<le> upstreamSetId (queryStorages t q)"
    using frame_query(4) [OF rel_frame [OF t] q] .
  have "resultSat (rel {} {} (addEdge q r t)) (\<lambda>_ _. True) (injectedGet n D input (addEdge q r t))"
    using ie by (rule injectedGet_rel)
  then show ?thesis
  proof (rule resultSat_mono)
    fix s' assume s': "rel {} {} (addEdge q r t) s'"
    have le': "upstreamSetId (queryStorages t q) \<le> upstreamSetId (queryStorages s' q)"
      using frame_query(4) [OF rel_frame [OF s'] qe] by simp
    show "readAdds q sid s [r] s'"
      unfolding readAdds_def
    proof (intro impI conjI)
      assume fin: "upstreamSetId (queryStorages s' q) = sid"
      then have e1: "upstreamSetId (queryStorages t q) = upstreamSetId (queryStorages s q)"
        and e2: "upstreamSetId (queryStorages s' q)
                   = upstreamSetId (queryStorages (addEdge q r t) q)"
        using sid le le' by simp_all
      note A = untracked_keeps [OF t i q e1] and B = untracked_keeps [OF s' ie qe e2]
      show "set (upstreamSet (queryStorages s' q))
              = set (upstreamSet (queryStorages s q)) \<union> set [r]"
        using A(1) B(1) by auto
      show "heldByUpstreams q s'" if "heldByUpstreams q s"
        by (intro B(2) addEdge_heldByUpstreams A(2) that)
    qed
  qed simp
qed

lemma readAdds_untracked:
  assumes r: "rel {} {} s s'" and i: "storeInv s" and q: "q < uid s"
    and sid: "upstreamSetId (queryStorages s q) = sid"
  shows "readAdds q sid s [] s'"
  unfolding readAdds_def using untracked_keeps [OF r i q] sid by simp

lemma contextGet_adds:
  assumes i: "storeInv s" and q: "q < uid s" and sid: "upstreamSetId (queryStorages s q) = sid"
  shows "resultSat
           (readAdds q sid s (case resolveInput n D input s of Some r \<Rightarrow> [r] | None \<Rightarrow> []))
           (\<lambda>_ _. True) (contextGet (Suc n) D (UpdateQueryContext q sid) input s)"
proof (cases input)
  case (StateInput stateItem)
  obtain u t where g: "getStateStorage D stateItem s = (u, t)"
    by (cases "getStateStorage D stateItem s")
  note G = getStateStorage_rel(1) [OF i g, of "{}" "{}"] getStateStorage_rel(2) [OF i g]
  show ?thesis
    using StateInput sid trackedRead_adds [OF G(1) i q _ sid, of "StateRef u" n D input] G(2)
    by (simp add: contextGet_Suc g resolveInput_def)
next
  case (EntityInput entityItem)
  obtain u t where g: "getEntityStorage entityItem s = (u, t)"
    by (cases "getEntityStorage entityItem s")
  note G = getEntityStorage_rel(1) [OF i g, of "{}" "{}"] getEntityStorage_rel(2) [OF i g]
  show ?thesis
    using EntityInput sid trackedRead_adds [OF G(1) i q _ sid, of "EntityRef u" n D input] G(2)
    by (simp add: contextGet_Suc g resolveInput_def)
next
  case (QueryInput queryAction)
  note G = getQueryStorage_rel [OF i, of n D queryAction]
  show ?thesis
  proof (cases "getQueryStorage n D queryAction s")
    case (Ok u t)
    then have t: "rel {} {} s t" and u: "u < uid t" using G by simp_all
    show ?thesis
      using QueryInput sid Ok trackedRead_adds [OF t i q _ sid, of "QueryRef u" n D input] u
      by (simp add: contextGet_Suc resolveInput_def)
  next
    case (Err e t)
    then have t: "rel {} {} s t" using G by simp
    show ?thesis
      using QueryInput sid Err readAdds_untracked [OF t i q sid]
      by (simp add: contextGet_Suc resolveInput_def)
  next
    case OutOfFuel
    then show ?thesis using QueryInput sid by (simp add: contextGet_Suc resolveInput_def)
  qed
qed

lemma readAdds_trans:
  assumes a: "readAdds q sid s rs t" and b: "readAdds q sid t rs' u"
    and m: "upstreamSetId (queryStorages u q) = sid \<Longrightarrow> upstreamSetId (queryStorages t q) = sid"
  shows "readAdds q sid s (rs @ rs') u"
  using a b m unfolding readAdds_def by auto

text \<open>The whole evaluation.\<close>

lemma evaluation_adds:
  "storeInv s \<Longrightarrow> q < uid s \<Longrightarrow> upstreamSetId (queryStorages s q) = sid \<Longrightarrow>
   resultSat
     (\<lambda>s'. readAdds q sid s
              (evaluationReads (resolveInput n D) (contextGet (Suc n) D (UpdateQueryContext q sid))
                 prog s) s')
     (\<lambda>_ _. True) (runProg (contextGet (Suc n) D (UpdateQueryContext q sid)) prog s)"
proof (induction prog arbitrary: s)
  case (Done r)
  then show ?case by (simp add: readAdds_def)
next
  case (Raise e)
  then show ?case by (simp add: readAdds_def)
next
  case (Get input k)
  let ?get = "contextGet (Suc n) D (UpdateQueryContext q sid)"
  let ?rs = "case resolveInput n D input s of Some r \<Rightarrow> [r] | None \<Rightarrow> []"
  note A = contextGet_adds [OF Get.prems, of n D input]
  have R: "resultSat (rel {q} {} s) (\<lambda>_ _. True) (?get input s)"
    using contextGet_rel [OF Get.prems(1), of "UpdateQueryContext q sid" "Suc n" D input]
      Get.prems(2)
    by (simp add: tracked_def)
  have step: "resultSat
          (\<lambda>s'. readAdds q sid s (?rs @ evaluationReads (resolveInput n D) ?get (k x) t) s')
          (\<lambda>_ _. True) (runProg ?get (k x) t)"
    if a: "readAdds q sid s ?rs t" and r: "rel {q} {} s t" for x t
  proof -
    have it: "storeInv t" using r by (rule rel_storeInv)
    have qt: "q < uid t" using rel_less [OF r Get.prems(2)] .
    have ge: "sid \<le> upstreamSetId (queryStorages t q)"
      using frame_query(4) [OF rel_frame [OF r] Get.prems(2)] Get.prems(3) by simp
    have E: "resultSat (rel {q} {} t) (\<lambda>_ _. True) (runProg ?get (k x) t)"
      using it qt by (rule evaluation_rel)
    show ?thesis
    proof (cases "upstreamSetId (queryStorages t q) = sid")
      case True
      have "resultSat
              (\<lambda>s'. readAdds q sid t (evaluationReads (resolveInput n D) ?get (k x) t) s')
              (\<lambda>_ _. True) (runProg ?get (k x) t)"
        using it qt True by (intro Get.IH) simp_all
      then show ?thesis
        by (rule resultSat_mono) (auto intro: readAdds_trans [OF a] simp: True)
    next
      case False
      then have lt: "sid < upstreamSetId (queryStorages t q)" using ge by simp
      show ?thesis using E
      proof (rule resultSat_mono)
        fix s' assume "rel {q} {} t s'"
        then have "upstreamSetId (queryStorages t q) \<le> upstreamSetId (queryStorages s' q)"
          using frame_query(4) [OF rel_frame qt] by blast
        then show "readAdds q sid s (?rs @ evaluationReads (resolveInput n D) ?get (k x) t) s'"
          using lt by (simp add: readAdds_def)
      qed simp
    qed
  qed
  show ?case
  proof (cases "?get input s")
    case (Ok v t)
    then show ?thesis using A R step [of t "Inr v"] by simp
  next
    case (Err e t)
    then show ?thesis using A R step [of t "Inl e"] by simp
  next
    case OutOfFuel
    then show ?thesis by simp
  qed
qed

text \<open>
  C3 (the claim as stated, refuted): \<^verbatim>\<open>Switch\<close> (storage 0) has read \<^verbatim>\<open>Count\<close> (storage 1)
  and \<^verbatim>\<open>Other\<close> (storage 2); with \<^verbatim>\<open>Count\<close> at 1 its recomputation throws after reading
  \<^verbatim>\<open>Count\<close>. The evaluation has not returned, and the old edge to \<^verbatim>\<open>Other\<close> is removed
  already, on both sides, while the edge of the read that was made is in place: old edges
  are removed before the evaluation, and new edges are added by each read.
\<close>

theorem old_edges_removed_before_evaluation:
  "upstreamSet (queryStorages (switchStale 1) 0) = [StateRef 1, StateRef 2]
   \<and> downstreamSet (stateStorages (switchStale 1) 2) = [0]
   \<and> updateQueryStorage 4 switchDecls 0 (switchStale 1) = Err (Error ''boom'') switchThrown
   \<and> upstreamSet (queryStorages switchThrown 0) = [StateRef 1]
   \<and> downstreamSet (stateStorages switchThrown 1) = [0]
   \<and> downstreamSet (stateStorages switchThrown 2) = []"
  by (simp add: switchThrown_def switch_defs eval_defs cong: andThen_weak_cong)

text \<open>
  C3 (as the code has it): \<^verbatim>\<open>updateQueryStorage\<close> first removes the query from the downstream
  sets of its upstreams and gives it a new, empty \<^verbatim>\<open>upstreamSet\<close>; the evaluation starts in
  that store (\<open>beforeEvaluation\<close>), in which the query has no edge at all, and each read adds
  its edge on both sides at once. When the recomputation returns, and the query was not
  recomputed again within its own evaluation (it still has the \<^verbatim>\<open>upstreamSet\<close> made for this
  evaluation), its upstream set holds exactly the storages that the reads of the evaluation
  resolved, and it is in the downstream set of exactly those.
\<close>

theorem recomputation_replaces_edges:
  assumes "storeInv s" and "q < uid s"
    and "updateQueryStorage (Suc (Suc n)) D q s = Ok b s'"
    and "upstreamSetId (queryStorages s' q) = Suc (upstreamSetId (queryStorages s q))"
  shows "upstreamSet (queryStorages (beforeEvaluation q s) q) = []
     \<and> (\<forall>r. q \<notin> set (downstreamOf (beforeEvaluation q s) r))
     \<and> set (upstreamSet (queryStorages s' q))
         = set (evaluationReads (resolveInput n D)
                  (contextGet (Suc n) D
                     (UpdateQueryContext q (Suc (upstreamSetId (queryStorages s q)))))
                  (queryImpl D (queryId (Query (queryStorages s q))) (arg (queryStorages s q)))
                  (beforeEvaluation q s))
     \<and> (\<forall>r. q \<in> set (downstreamOf s' r) \<longleftrightarrow> r \<in> set (upstreamSet (queryStorages s' q)))"
proof -
  let ?sid = "Suc (upstreamSetId (queryStorages s q))"
  let ?s2 = "beforeEvaluation q s"
  let ?get = "contextGet (Suc n) D (UpdateQueryContext q ?sid)"
  let ?impl = "queryImpl D (queryId (Query (queryStorages s q))) (arg (queryStorages s q))"
  have i2: "storeInv ?s2" using assms(1) by (rule storeInv_beforeEvaluation)
  have q2: "q < uid ?s2" using assms(2) by simp
  have h2: "heldByUpstreams q ?s2" by (simp add: heldByUpstreams_def)
  from assms(3) obtain v s3 where run: "runProg ?get ?impl ?s2 = Ok v s3"
    and fin: "(if queryCompare D (queryId (Query (queryStorages s q)))
                   (currentValue (queryStorages s3 q)) v
               then Ok False s3
               else Ok True ((updQuery q (\<lambda>st. st\<lparr>currentValue := v\<rparr>) s3)
                      \<lparr>pendingEmitSet := setAdd (EmitQuery q) (pendingEmitSet s3)\<rparr>)) = Ok b s'"
    unfolding updateQueryStorage_beforeEvaluation by (cases "runProg ?get ?impl ?s2") simp_all
  have up: "upstreamSet (queryStorages s' q) = upstreamSet (queryStorages s3 q)"
    and id: "upstreamSetId (queryStorages s' q) = upstreamSetId (queryStorages s3 q)"
    and dn: "downstreamOf s' r = downstreamOf s3 r" for r
    using fin by (auto split: if_splits)
  have "readAdds q ?sid ?s2 (evaluationReads (resolveInput n D) ?get ?impl ?s2) s3"
    using evaluation_adds [OF i2 q2, of ?sid n D ?impl] run by simp
  then have reads: "set (upstreamSet (queryStorages s3 q))
                      = set (evaluationReads (resolveInput n D) ?get ?impl ?s2)"
    and held: "heldByUpstreams q s3"
    using assms(4) id h2 by (simp_all add: readAdds_def)
  have i': "storeInv s'"
    using updateQueryStorage_rel [OF assms(1,2), of "Suc (Suc n)" D] assms(3)
    by (simp add: rel_def)
  show ?thesis
  proof (intro conjI allI iffI)
    show "upstreamSet (queryStorages ?s2 q) = []" by simp
    show "q \<notin> set (downstreamOf ?s2 r)" for r using assms(1) by (rule beforeEvaluation_detached)
    show "set (upstreamSet (queryStorages s' q))
            = set (evaluationReads (resolveInput n D) ?get ?impl ?s2)"
      using reads up by simp
    show "r \<in> set (upstreamSet (queryStorages s' q))" if "q \<in> set (downstreamOf s' r)" for r
      using that by (rule storeInv_D(11) [OF i'])
    show "q \<in> set (downstreamOf s' r)" if "r \<in> set (upstreamSet (queryStorages s' q))" for r
      using that held unfolding up dn by (simp add: heldByUpstreams_def)
  qed
qed

lemma switchStale_facts:
  "uid (switchStale 2) = 3
   \<and> upstreamSetId (queryStorages (switchStale 2) 0) = 0
   \<and> upstreamSet (queryStorages (switchStale 2) 0) = [StateRef 1, StateRef 2]
   \<and> (case updateQueryStorage 4 switchDecls 0 (switchStale 2) of
         Ok b s' \<Rightarrow> b \<and> upstreamSetId (queryStorages s' 0) = 1
           \<and> upstreamSet (queryStorages s' 0) = [StateRef 1]
       | _ \<Rightarrow> False)"
  by (simp add: switch_defs eval_defs cong: andThen_weak_cong)

text \<open>
  C3 with \<^verbatim>\<open>Count\<close> at 2, where \<^verbatim>\<open>Switch\<close> reads \<^verbatim>\<open>Count\<close> only: after the recomputation its
  upstream set is \<^verbatim>\<open>Count\<close>, it is in the downstream set of \<^verbatim>\<open>Count\<close> and no longer in that of
  \<^verbatim>\<open>Other\<close>.
\<close>

theorem recomputation_replaces_edges_witness:
  "storeInv (switchStale 2) \<and> 0 < uid (switchStale 2)
   \<and> upstreamSet (queryStorages (switchStale 2) 0) = [StateRef 1, StateRef 2]
   \<and> (\<exists>s'. updateQueryStorage 4 switchDecls 0 (switchStale 2) = Ok True s'
         \<and> upstreamSet (queryStorages s' 0) = [StateRef 1]
         \<and> 0 \<in> set (downstreamOf s' (StateRef 1))
         \<and> 0 \<notin> set (downstreamOf s' (StateRef 2)))"
proof -
  from switchStale_facts
  have uid: "uid (switchStale 2) = 3"
    and id0: "upstreamSetId (queryStorages (switchStale 2) 0) = 0"
    and up0: "upstreamSet (queryStorages (switchStale 2) 0) = [StateRef 1, StateRef 2]"
    and c: "(case updateQueryStorage 4 switchDecls 0 (switchStale 2) of
         Ok b s' \<Rightarrow> b \<and> upstreamSetId (queryStorages s' 0) = 1
           \<and> upstreamSet (queryStorages s' 0) = [StateRef 1]
       | _ \<Rightarrow> False)"
    by blast+
  from case_OkD [OF c] obtain b s' where r: "updateQueryStorage 4 switchDecls 0 (switchStale 2) = Ok b s'"
    and b: "b" and id1: "upstreamSetId (queryStorages s' 0) = 1"
    and up1: "upstreamSet (queryStorages s' 0) = [StateRef 1]"
    by blast
  have r': "updateQueryStorage (Suc (Suc 2)) switchDecls 0 (switchStale 2) = Ok b s'"
    using r by (simp add: eval_nat_numeral)
  have q: "0 < uid (switchStale 2)" using uid by simp
  have once: "upstreamSetId (queryStorages s' 0)
                = Suc (upstreamSetId (queryStorages (switchStale 2) 0))"
    using id0 id1 by simp
  from recomputation_replaces_edges [OF storeInv_switchStale q r' once]
  have "\<forall>r. 0 \<in> set (downstreamOf s' r) \<longleftrightarrow> r \<in> set (upstreamSet (queryStorages s' 0))"
    by blast
  then have "0 \<in> set (downstreamOf s' (StateRef 1))" and "0 \<notin> set (downstreamOf s' (StateRef 2))"
    using up1 by simp_all
  with storeInv_switchStale q up0 r b up1 show ?thesis by auto
qed


end
